(* ===== verification/Prelude.thy ===== *)
theory Prelude
  imports Main "HOL-Library.Word"
begin

text \<open>
  Shared ground of the development: bytes and machine words, the byte order
  conversions of Go's \<^verbatim>\<open>math/big\<close> and \<^verbatim>\<open>encoding/binary\<close>, and the generic list and
  word facts that the component theories rely on.
\<close>

unbundle bit_operations_syntax

type_synonym byte = "8 word"
type_synonym bytes = "8 word list"
type_synonym u16 = "16 word"
type_synonym u32 = "32 word"
type_synonym u64 = "64 word"

named_theorems be_simps \<open>big-endian conversions\<close>

section \<open>Big-endian numbers\<close>

text \<open>\<^verbatim>\<open>new(big.Int).SetBytes(b)\<close>: a byte slice read as a big-endian number.\<close>

fun be_val :: "bytes \<Rightarrow> nat" where
  "be_val [] = 0"
| "be_val (b # bs) = unat b * 256 ^ length bs + be_val bs"

text \<open>
  \<^verbatim>\<open>(*big.Int).Bytes()\<close> of a natural number: the shortest big-endian
  representation, empty for zero.
\<close>

fun be_bytes :: "nat \<Rightarrow> bytes" where
  "be_bytes n = (if n = 0 then [] else be_bytes (n div 256) @ [of_nat (n mod 256)])"

text \<open>\<^verbatim>\<open>binary.BigEndian.PutUint\<close>: exactly \<^term>\<open>k\<close> bytes.\<close>

fun be_fixed :: "nat \<Rightarrow> nat \<Rightarrow> bytes" where
  "be_fixed 0 n = []"
| "be_fixed (Suc k) n = be_fixed k (n div 256) @ [of_nat (n mod 256)]"

declare be_bytes.simps [simp del]

lemma unat_byte_less [simp]: "unat (b :: byte) < 256"
  using unsigned_less [of b] by simp

lemma unat_of_nat_byte [simp]: "unat (of_nat n :: byte) = n mod 256"
  by (simp add: unat_of_nat)

lemma be_val_append [simp]: "be_val (xs @ ys) = be_val xs * 256 ^ length ys + be_val ys"
  by (induction xs) (auto simp: algebra_simps power_add)

lemma be_val_less: "be_val bs < 256 ^ length bs"
proof (induction bs)
  case (Cons b bs)
  have "unat b * 256 ^ length bs + be_val bs < unat b * 256 ^ length bs + 256 ^ length bs"
    using Cons.IH by simp
  also have "\<dots> = (unat b + 1) * 256 ^ length bs" by simp
  also have "\<dots> \<le> 256 * 256 ^ length bs"
    using unat_byte_less [of b] by (intro mult_right_mono) linarith+
  finally show ?case by simp
qed simp

lemma be_bytes_0 [simp]: "be_bytes 0 = []"
  by (simp add: be_bytes.simps)

lemma be_bytes_eq_Nil [simp]: "be_bytes n = [] \<longleftrightarrow> n = 0"
  by (subst be_bytes.simps) simp

lemma be_bytes_step: "n \<noteq> 0 \<Longrightarrow> be_bytes n = be_bytes (n div 256) @ [of_nat (n mod 256)]"
  by (subst be_bytes.simps) simp

lemma be_bytes_small: "0 < n \<Longrightarrow> n < 256 \<Longrightarrow> be_bytes n = [of_nat n]"
  by (simp add: be_bytes_step)

lemma be_val_be_bytes [simp]: "be_val (be_bytes n) = n"
proof (induction n rule: be_bytes.induct)
  case (1 n)
  then show ?case
    by (cases "n = 0") (simp_all add: be_bytes_step)
qed

lemma be_bytes_hd: "n \<noteq> 0 \<Longrightarrow> hd (be_bytes n) \<noteq> 0"
proof (induction n rule: be_bytes.induct)
  case (1 n)
  show ?case
  proof (cases "n div 256 = 0")
    case True
    then have "n < 256" by auto
    with "1.prems" have "be_bytes n = [of_nat n]" by (simp add: be_bytes_small)
    moreover have "unat (of_nat n :: byte) \<noteq> 0" using \<open>n < 256\<close> "1.prems" by simp
    ultimately show ?thesis by (metis list.sel(1) unat_0)
  next
    case False
    then have "hd (be_bytes (n div 256)) \<noteq> 0" using 1 by simp
    with False "1.prems" show ?thesis by (simp add: be_bytes_step [of n] hd_append)
  qed
qed

lemma be_bytes_be_val:
  "bs = [] \<or> hd bs \<noteq> 0 \<Longrightarrow> be_bytes (be_val bs) = bs"
proof (induction bs rule: rev_induct)
  case (snoc b bs)
  have prem: "bs = [] \<or> hd bs \<noteq> 0" using snoc.prems by (cases bs) auto
  have div: "be_val (bs @ [b]) div 256 = be_val bs" and md: "be_val (bs @ [b]) mod 256 = unat b"
    using unat_byte_less [of b] by simp_all
  have "be_val (bs @ [b]) \<noteq> 0"
  proof (cases bs)
    case Nil
    with snoc.prems show ?thesis by (simp add: unat_eq_zero)
  next
    case (Cons c cs)
    with snoc.prems have "unat c \<noteq> 0" by (simp add: unat_eq_zero)
    with Cons show ?thesis by simp
  qed
  then have "be_bytes (be_val (bs @ [b])) = be_bytes (be_val bs) @ [of_nat (unat b)]"
    using be_bytes_step [of "be_val (bs @ [b])"] div md by simp
  then show ?case using snoc.IH [OF prem] by simp
qed simp

lemma length_be_bytes_le: "length (be_bytes n) \<le> k \<longleftrightarrow> n < 256 ^ k"
proof (induction n arbitrary: k rule: be_bytes.induct)
  case (1 n)
  show ?case
  proof (cases "n = 0")
    case False
    show ?thesis
    proof (cases k)
      case (Suc j)
      have "length (be_bytes n) \<le> k \<longleftrightarrow> length (be_bytes (n div 256)) \<le> j"
        using False Suc by (simp add: be_bytes_step)
      also have "\<dots> \<longleftrightarrow> n div 256 < 256 ^ j" using "1.IH" [OF False] .
      also have "\<dots> \<longleftrightarrow> n < 256 ^ k"
        using Suc by (simp add: div_less_iff_less_mult mult.commute)
      finally show ?thesis .
    qed (use False in \<open>simp add: be_bytes_step\<close>)
  qed simp
qed

lemma length_be_fixed [simp]: "length (be_fixed k n) = k"
  by (induction k arbitrary: n) auto

lemma be_val_be_fixed [simp]: "be_val (be_fixed k n) = n mod 256 ^ k"
proof (induction k arbitrary: n)
  case (Suc k)
  have "n mod (256 * 256 ^ k) = 256 * (n div 256 mod 256 ^ k) + n mod 256"
    by (rule mod_mult2_eq)
  then show ?case using Suc by (simp add: mult.commute)
qed simp

lemma be_fixed_be_val: "length bs = k \<Longrightarrow> be_fixed k (be_val bs) = bs"
proof (induction k arbitrary: bs)
  case (Suc k)
  then obtain cs c where bs: "bs = cs @ [c]" and len: "length cs = k"
    by (metis append_butlast_last_id diff_Suc_1 length_butlast list.size(3) nat.distinct(1))
  have "be_val bs div 256 = be_val cs" and "be_val bs mod 256 = unat c"
    using unat_byte_less [of c] by (simp_all add: bs)
  then show ?case using Suc.IH [OF len] by (simp add: bs)
qed simp

lemma be_fixed_be_bytes:
  "256 ^ k \<le> n \<Longrightarrow> n < 256 ^ Suc k \<Longrightarrow> be_fixed (Suc k) n = be_bytes n"
proof (induction k arbitrary: n)
  case 0
  then show ?case by (simp add: be_bytes_small)
next
  case (Suc k)
  have "256 ^ k \<le> n div 256"
    using Suc.prems(1) by (simp add: less_eq_div_iff_mult_less_eq mult.commute)
  moreover have "n div 256 < 256 ^ Suc k"
    using Suc.prems(2) by (simp add: div_less_iff_less_mult mult.commute)
  ultimately have "be_fixed (Suc k) (n div 256) = be_bytes (n div 256)" by (rule Suc.IH)
  moreover have "n \<noteq> 0"
    using Suc.prems(1) by (metis le_zero_eq power_not_zero zero_neq_numeral)
  ultimately show ?case by (simp add: be_bytes_step [of n])
qed

lemma be_fixed_pad: "length (be_bytes n) \<le> k \<Longrightarrow> be_fixed k n = replicate (k - length (be_bytes n)) 0 @ be_bytes n"
  unfolding length_be_bytes_le
proof (induction k arbitrary: n)
  case (Suc k)
  show ?case
  proof (cases "n = 0")
    case True
    then show ?thesis using Suc.IH [of 0] by (simp add: replicate_append_same)
  next
    case False
    have "n div 256 < 256 ^ k" using Suc.prems by (simp add: div_less_iff_less_mult mult.commute)
    then show ?thesis using Suc.IH [of "n div 256"] False by (simp add: be_bytes_step [of n])
  qed
qed simp

lemma be_fixed_numeral [simp]:
  "be_fixed (numeral v) n = be_fixed (pred_numeral v) (n div 256) @ [of_nat (n mod 256)]"
  by (simp only: numeral_eq_Suc [of v] be_fixed.simps)

lemmas be_roundtrip [be_simps] = be_val_be_bytes be_bytes_be_val be_val_be_fixed be_fixed_be_val

section \<open>Sums\<close>

lemma map_sum_eq_Inr [simp]: "map_sum f g x = Inr y \<longleftrightarrow> (\<exists>z. x = Inr z \<and> y = g z)"
  by (cases x) auto

lemma map_sum_eq_Inl [simp]: "map_sum f g x = Inl y \<longleftrightarrow> (\<exists>z. x = Inl z \<and> y = f z)"
  by (cases x) auto

end
