(* ===== verification/Rlp_Types.thy ===== *)
theory Rlp_Types
  imports Prelude
begin

text \<open>
  The type side of package \<^verbatim>\<open>rlp\<close>: the kinds and errors of \<^verbatim>\<open>rlp/decode.go\<close>, the part
  of Go's \<^verbatim>\<open>reflect.Type\<close> the package distinguishes, and \<^verbatim>\<open>rlp/typecache.go\<close>, which
  reads the struct tags and selects the fields that take part in encoding.

  A type is a finite tree. The cache entries that let a struct mention itself through
  a pointer are not represented, so recursive Go types are outside the model.
\<close>

section \<open>Kinds, types and errors\<close>

datatype Kind = KByte | KString | KList

text \<open>One field of a struct type; \<open>f_tag\<close> is the value of \<^verbatim>\<open>f.Tag.Get("rlp")\<close>.\<close>

datatype 't sfield =
  SField (f_name: string) (f_exported: bool) (f_tag: string) (f_type: 't)

text \<open>
  \<open>TUint w\<close> is an unsigned integer kind of \<open>w\<close> bits. \<open>TCoder byValue t\<close> is a type with
  \<^verbatim>\<open>EncodeRLP\<close> and \<^verbatim>\<open>DecodeRLP\<close> methods that hand a value of the struct type \<open>t\<close> to
  \<^verbatim>\<open>rlp.Encode\<close> and \<^verbatim>\<open>Stream.Decode\<close>, as the methods of \<^verbatim>\<open>Transaction\<close>, \<^verbatim>\<open>Log\<close> and
  \<^verbatim>\<open>Receipt\<close> do; \<open>byValue\<close> tells whether \<^verbatim>\<open>EncodeRLP\<close> has a value receiver.
  \<open>TInterface e\<close> is an interface type, \<open>e\<close> telling whether its method set is empty.
  \<open>TOther\<close> stands for the kinds without an encoding (signed integers, floats, maps,
  channels, functions).
\<close>

datatype rtype =
    TRawValue
  | TBigInt
  | TPtr rtype
  | TCoder bool rtype
  | TUint nat
  | TBool
  | TString
  | TSlice rtype
  | TArray nat rtype
  | TStruct string "rtype sfield list"
  | TInterface bool
  | TOther string

text \<open>The context strings a \<^verbatim>\<open>decodeError\<close> collects on its way up.\<close>

datatype ectx = CtxIndex nat | CtxField string | CtxType rtype

text \<open>
  The errors of the package and of the readers it uses. \<open>ErrIllTyped\<close> marks a value that
  is not of the type it is paired with, which Go's type system excludes, and
  \<open>RuntimePanic\<close> a run-time panic, which like an error leaves every enclosing call.
\<close>

datatype rlp_error =
    EOL
  | ErrExpectedString
  | ErrExpectedList
  | ErrCanonInt
  | ErrCanonSize
  | ErrElemTooLarge
  | ErrValueTooLarge
  | ErrMoreThanOneValue
  | ErrNotInList
  | ErrNotAtEOL
  | ErrUintOverflow
  | IoEOF
  | IoUnexpectedEOF
  | ErrInvalidBool u64
  | DecodeError string rtype "ectx list"
  | ErrNotSerializable rtype
  | StructFieldError rtype nat rlp_error
  | StructTagError string string string
  | ErrUnknownTag string string
  | ErrNegativeBigInt
  | ErrUnaddressable rtype
  | ErrIllTyped
  | RuntimePanic

section \<open>Struct tags\<close>

record tags =
  nilOK :: bool
  nilKind :: Kind
  tail :: bool
  ignored :: bool

definition no_tags :: tags where
  "no_tags = \<lparr>nilOK = False, nilKind = KByte, tail = False, ignored = False\<rparr>"

lemma no_tags_simps [simp]: "\<not> tail no_tags" "\<not> nilOK no_tags"
  by (simp_all add: no_tags_def)

fun isUint :: "rtype \<Rightarrow> bool" where
  "isUint (TUint w) = True"
| "isUint _ = False"

fun isByte :: "rtype \<Rightarrow> bool" where
  "isByte (TUint w) = (w = 8)"
| "isByte _ = False"

fun isByteArray :: "rtype \<Rightarrow> bool" where
  "isByteArray TRawValue = True"
| "isByteArray (TSlice t) = isByte t"
| "isByteArray (TArray n t) = isByte t"
| "isByteArray _ = False"

fun is_ptr_kind :: "rtype \<Rightarrow> bool" where
  "is_ptr_kind (TPtr t) = True"
| "is_ptr_kind _ = False"

fun is_slice_kind :: "rtype \<Rightarrow> bool" where
  "is_slice_kind (TSlice t) = True"
| "is_slice_kind TRawValue = True"
| "is_slice_kind _ = False"

fun ptr_elem :: "rtype \<Rightarrow> rtype" where
  "ptr_elem (TPtr t) = t"
| "ptr_elem t = t"

definition defaultNilKind :: "rtype \<Rightarrow> Kind" where
  "defaultNilKind t =
     (if isUint t \<or> t = TString \<or> t = TBool \<or> isByteArray t then KString else KList)"

text \<open>\<^verbatim>\<open>strings.Split(s, ",")\<close> and \<^verbatim>\<open>strings.TrimSpace\<close> on ASCII text.\<close>

fun split_comma :: "string \<Rightarrow> string list" where
  "split_comma [] = [[]]"
| "split_comma (c # cs) =
     (if c = CHR '','' then [] # split_comma cs
      else (case split_comma cs of [] \<Rightarrow> [[c]] | p # ps \<Rightarrow> (c # p) # ps))"

definition is_space :: "char \<Rightarrow> bool" where
  "is_space c \<longleftrightarrow> c \<in> {CHR 0x09, CHR 0x0A, CHR 0x0B, CHR 0x0C, CHR 0x0D, CHR '' ''}"

definition trim_space :: "string \<Rightarrow> string" where
  "trim_space s = rev (dropWhile is_space (rev (dropWhile is_space s)))"

text \<open>
  The loop of \<^verbatim>\<open>parseStructTag\<close> over the comma separated parts, with the tags read so
  far. \<open>fi\<close> is the index of the field and \<open>lastPublic\<close> that of the last exported one.
\<close>

fun parseTagParts :: "rtype sfield \<Rightarrow> nat \<Rightarrow> nat \<Rightarrow> string list \<Rightarrow> tags \<Rightarrow> rlp_error + tags" where
  "parseTagParts f fi lastPublic [] ts = Inr ts"
| "parseTagParts f fi lastPublic (p # ps) ts =
     (let t = trim_space p in
      if t = '''' then parseTagParts f fi lastPublic ps ts
      else if t = ''-'' then parseTagParts f fi lastPublic ps (ts\<lparr>ignored := True\<rparr>)
      else if t = ''nil'' \<or> t = ''nilString'' \<or> t = ''nilList'' then
        (if \<not> is_ptr_kind (f_type f)
         then Inl (StructTagError (f_name f) t ''field is not a pointer'')
         else parseTagParts f fi lastPublic ps
                (ts\<lparr>nilOK := True,
                    nilKind := (if t = ''nil'' then defaultNilKind (ptr_elem (f_type f))
                                else if t = ''nilString'' then KString else KList)\<rparr>))
      else if t = ''tail'' then
        (if fi \<noteq> lastPublic then Inl (StructTagError (f_name f) t ''must be on last field'')
         else if \<not> is_slice_kind (f_type f)
         then Inl (StructTagError (f_name f) t ''field type is not slice'')
         else parseTagParts f fi lastPublic ps (ts\<lparr>tail := True\<rparr>))
      else Inl (ErrUnknownTag t (f_name f)))"

definition parseStructTag :: "rtype sfield \<Rightarrow> nat \<Rightarrow> nat \<Rightarrow> rlp_error + tags" where
  "parseStructTag f fi lastPublic =
     parseTagParts f fi lastPublic (split_comma (f_tag f)) no_tags"

fun lastPublicFrom :: "nat \<Rightarrow> nat \<Rightarrow> rtype sfield list \<Rightarrow> nat" where
  "lastPublicFrom lst i [] = lst"
| "lastPublicFrom lst i (f # fs) = lastPublicFrom (if f_exported f then i else lst) (Suc i) fs"

definition lastPublicField :: "rtype sfield list \<Rightarrow> nat" where
  "lastPublicField fs = lastPublicFrom 0 0 fs"

text \<open>A selected field: its index in the struct, its name, its tags and its type.\<close>

type_synonym field = "nat \<times> string \<times> tags \<times> rtype"

fun structFieldsFrom :: "nat \<Rightarrow> nat \<Rightarrow> rtype sfield list \<Rightarrow> rlp_error + field list" where
  "structFieldsFrom lastPublic i [] = Inr []"
| "structFieldsFrom lastPublic i (f # fs) =
     (if f_exported f then
        (case parseStructTag f i lastPublic of
           Inl e \<Rightarrow> Inl e
         | Inr ts \<Rightarrow>
             (case structFieldsFrom lastPublic (Suc i) fs of
                Inl e \<Rightarrow> Inl e
              | Inr rest \<Rightarrow>
                  if ignored ts then Inr rest else Inr ((i, f_name f, ts, f_type f) # rest)))
      else structFieldsFrom lastPublic (Suc i) fs)"

definition structFields :: "rtype sfield list \<Rightarrow> rlp_error + field list" where
  "structFields fs = structFieldsFrom (lastPublicField fs) 0 fs"

section \<open>Facts about field selection\<close>

text \<open>Every selected field is an exported field of the struct, at its index.\<close>

lemma structFieldsFrom_nth:
  assumes "structFieldsFrom lp i fs = Inr sel" and "(j, n, ts, t) \<in> set sel"
  shows "i \<le> j \<and> j - i < length fs \<and> f_type (fs ! (j - i)) = t \<and> f_exported (fs ! (j - i))
    \<and> parseStructTag (fs ! (j - i)) j lp = Inr ts \<and> \<not> ignored ts \<and> f_name (fs ! (j - i)) = n"
  using assms
proof (induction lp i fs arbitrary: sel rule: structFieldsFrom.induct)
  case (2 lp i f fs)
  show ?case
  proof (cases "f_exported f")
    case True
    then obtain ts' rest where ts': "parseStructTag f i lp = Inr ts'"
      and rest: "structFieldsFrom lp (Suc i) fs = Inr rest"
      and sel: "sel = (if ignored ts' then rest else (i, f_name f, ts', f_type f) # rest)"
      using "2.prems"(1) by (auto split: sum.splits if_splits)
    show ?thesis
    proof (cases "(j, n, ts, t) \<in> set rest")
      case mem: True
      from "2.IH"(1) [OF True ts' rest mem] show ?thesis
        by (auto simp: nth_Cons' Suc_diff_le)
    next
      case False
      then show ?thesis using sel "2.prems"(2) ts' True by (auto split: if_splits)
    qed
  next
    case False
    then have "structFieldsFrom lp (Suc i) fs = Inr sel" using "2.prems"(1) by simp
    from "2.IH"(2) [OF False this "2.prems"(2)] show ?thesis
      by (auto simp: nth_Cons' Suc_diff_le)
  qed
qed simp

lemma structFields_nth:
  assumes "structFields fs = Inr sel" and "(j, n, ts, t) \<in> set sel"
  shows "j < length fs" and "f_type (fs ! j) = t" and "\<not> ignored ts"
    and "parseStructTag (fs ! j) j (lastPublicField fs) = Inr ts"
  using structFieldsFrom_nth [OF assms [unfolded structFields_def]] by auto

lemma size_f_type: "size (f_type f) < size_sfield size f"
  by (cases f) simp

lemma size_field: "f \<in> set fs \<Longrightarrow> size (f_type f) < Suc (size_list (size_sfield size) fs)"
  using size_f_type [of f] size_list_estimation [of f fs "size (f_type f)" "size_sfield size"] by simp

lemma structFields_size:
  assumes "structFields fs = Inr sel" and "(j, n, ts, t) \<in> set sel"
  shows "size t < size (TStruct nm fs)"
proof -
  from structFields_nth [OF assms] have "fs ! j \<in> set fs" and "t = f_type (fs ! j)" by auto
  then have "size t < size_sfield size (fs ! j)" using size_f_type by simp
  also have "\<dots> \<le> size_list (size_sfield size) fs"
    using \<open>fs ! j \<in> set fs\<close> by (metis order_refl size_list_estimation')
  finally show ?thesis by simp
qed

lemma structFieldsFrom_size_list:
  "structFieldsFrom lp i fs = Inr sel \<Longrightarrow>
   size_list (\<lambda>(i, n, ts, t). size t) sel \<le> size_list (size_sfield size) fs"
proof (induction lp i fs arbitrary: sel rule: structFieldsFrom.induct)
  case (2 lp i f fs)
  have f: "size (f_type f) < size_sfield size f" by (rule size_f_type)
  show ?case
    using "2.prems" "2.IH" f by (force split: sum.splits if_splits)
qed simp

lemma structFields_size_list:
  "structFields fs = Inr sel \<Longrightarrow>
   size_list (\<lambda>(i, n, ts, t). size t) sel < Suc (size_list (size_sfield size) fs)"
  using structFieldsFrom_size_list [of "lastPublicField fs" 0 fs sel] by (simp add: structFields_def)

text \<open>The selected fields come in increasing order of their index.\<close>

lemma structFieldsFrom_sorted:
  "structFieldsFrom lp i fs = Inr sel \<Longrightarrow> sorted_wrt (<) (map fst sel)"
proof (induction lp i fs arbitrary: sel rule: structFieldsFrom.induct)
  case (2 lp i f fs)
  show ?case
  proof (cases "f_exported f")
    case True
    then obtain ts' rest where ts': "parseStructTag f i lp = Inr ts'"
      and rest: "structFieldsFrom lp (Suc i) fs = Inr rest"
      and sel: "sel = (if ignored ts' then rest else (i, f_name f, ts', f_type f) # rest)"
      using "2.prems" by (auto split: sum.splits if_splits)
    have "\<forall>x \<in> set rest. i < fst x"
      using structFieldsFrom_nth [OF rest] by (metis Suc_le_eq prod.collapse)
    with "2.IH"(1) [OF True ts' rest] sel show ?thesis by auto
  next
    case False
    then show ?thesis using "2.IH"(2) "2.prems" by simp
  qed
qed simp

lemma structFields_sorted: "structFields fs = Inr sel \<Longrightarrow> sorted_wrt (<) (map fst sel)"
  unfolding structFields_def by (rule structFieldsFrom_sorted)

end
