(* ===== verification/Rlp_Encode.thy ===== *)
theory Rlp_Encode
  imports Rlp_Types
begin

text \<open>
  \<^verbatim>\<open>rlp/encode.go\<close>: the encode buffer, which keeps list headers apart from the string
  data and merges them at the end, the writer of every type, and the three ways out of
  the buffer (\<^verbatim>\<open>toBytes\<close>, \<^verbatim>\<open>toWriter\<close>, \<^verbatim>\<open>encReader\<close>).

  Lengths and offsets, Go \<^verbatim>\<open>int\<close>s that count bytes held in memory, are natural numbers;
  a size that reaches a header is a 64 bit word, as in the code.
\<close>

section \<open>Integers and headers\<close>

definition byte_at :: "nat \<Rightarrow> u64 \<Rightarrow> byte" where
  "byte_at k i = ucast (drop_bit k i)"

definition putint :: "u64 \<Rightarrow> bytes" where
  "putint i =
     (if i < 2 ^ 8 then [byte_at 0 i]
      else if i < 2 ^ 16 then [byte_at 8 i, byte_at 0 i]
      else if i < 2 ^ 24 then [byte_at 16 i, byte_at 8 i, byte_at 0 i]
      else if i < 2 ^ 32 then [byte_at 24 i, byte_at 16 i, byte_at 8 i, byte_at 0 i]
      else if i < 2 ^ 40 then
        [byte_at 32 i, byte_at 24 i, byte_at 16 i, byte_at 8 i, byte_at 0 i]
      else if i < 2 ^ 48 then
        [byte_at 40 i, byte_at 32 i, byte_at 24 i, byte_at 16 i, byte_at 8 i, byte_at 0 i]
      else if i < 2 ^ 56 then
        [byte_at 48 i, byte_at 40 i, byte_at 32 i, byte_at 24 i, byte_at 16 i, byte_at 8 i,
         byte_at 0 i]
      else
        [byte_at 56 i, byte_at 48 i, byte_at 40 i, byte_at 32 i, byte_at 24 i, byte_at 16 i,
         byte_at 8 i, byte_at 0 i])"

lemma unat_drop_bit_8: "unat (drop_bit 8 (i :: u64)) = unat i div 256"
  by (simp only: unat_drop_bit_eq) (simp add: drop_bit_eq_div)

function intsizeFrom :: "nat \<Rightarrow> u64 \<Rightarrow> nat" where
  "intsizeFrom sz i =
     (let i' = drop_bit 8 i in if i' = 0 then sz else intsizeFrom (Suc sz) i')"
  by pat_completeness auto
termination
proof (relation "measure (\<lambda>(sz, i). unat i)")
  fix sz :: nat and i i' :: u64
  assume "i' = drop_bit 8 i" and "i' \<noteq> 0"
  then have "unat i' = unat i div 256" by (simp only: unat_drop_bit_8)
  moreover from \<open>i' \<noteq> 0\<close> have "unat i' \<noteq> 0" by (simp add: unat_eq_zero)
  ultimately show "((Suc sz, i'), sz, i) \<in> measure (\<lambda>(sz, i). unat i)"
    by (cases "unat i = 0") auto
qed simp

declare intsizeFrom.simps [simp del]

definition intsize :: "u64 \<Rightarrow> nat" where
  "intsize i = intsizeFrom 1 i"

definition headsize :: "u64 \<Rightarrow> nat" where
  "headsize sz = (if sz < 56 then 1 else 1 + intsize sz)"

text \<open>The bytes \<^verbatim>\<open>puthead\<close> writes at the start of its buffer.\<close>

definition puthead :: "byte \<Rightarrow> byte \<Rightarrow> u64 \<Rightarrow> bytes" where
  "puthead smalltag largetag sz =
     (if sz < 56 then [smalltag + ucast sz]
      else (let b = putint sz in (largetag + of_nat (length b)) # b))"

section \<open>Values\<close>

text \<open>
  Values of the types of \<^typ>\<open>rtype\<close>. Byte slices, byte arrays, raw values and strings
  are \<open>VBytes\<close>; \<open>VNil\<close> is a nil pointer or a nil interface; \<open>VIface t v\<close> is an
  interface that holds a value of dynamic type \<open>t\<close>; a struct value lists all its
  fields.
\<close>

datatype rval =
    VBytes bytes
  | VUint u64
  | VBool bool
  | VBig int
  | VNil
  | VPtr rval
  | VList "rval list"
  | VStruct "rval list"
  | VIface rtype rval

section \<open>The encode buffer\<close>

record listhead =
  offset :: nat
  hsize :: nat

record encbuf =
  str :: bytes
  lheads :: "listhead list"
  lhsize :: nat

definition reset :: encbuf where
  "reset = \<lparr>str = [], lheads = [], lhsize = 0\<rparr>"

definition listhead_encode :: "listhead \<Rightarrow> bytes" where
  "listhead_encode h = puthead 0xC0 0xF7 (of_nat (hsize h))"

definition add_str :: "bytes \<Rightarrow> encbuf \<Rightarrow> encbuf" where
  "add_str b w = w\<lparr>str := str w @ b\<rparr>"

definition encodeStringHeader :: "nat \<Rightarrow> encbuf \<Rightarrow> encbuf" where
  "encodeStringHeader sz w =
     (if sz < 56 then add_str [0x80 + of_nat sz] w
      else (let b = putint (of_nat sz) in add_str ((0xB7 + of_nat (length b)) # b) w))"

definition encodeString :: "bytes \<Rightarrow> encbuf \<Rightarrow> encbuf" where
  "encodeString b w =
     (if length b = 1 \<and> b ! 0 \<le> 0x7F then add_str [b ! 0] w
      else add_str b (encodeStringHeader (length b) w))"

definition encbuf_size :: "encbuf \<Rightarrow> nat" where
  "encbuf_size w = length (str w) + lhsize w"

text \<open>\<^verbatim>\<open>list()\<close> returns the new header, here as its index in \<open>lheads\<close>.\<close>

definition list_start :: "encbuf \<Rightarrow> nat \<times> encbuf" where
  "list_start w =
     (length (lheads w),
      w\<lparr>lheads := lheads w @ [\<lparr>offset = length (str w), hsize = lhsize w\<rparr>]\<rparr>)"

definition listEnd :: "nat \<Rightarrow> encbuf \<Rightarrow> encbuf" where
  "listEnd lh w =
     (let h = lheads w ! lh;
          sz = encbuf_size w - offset h - hsize h
      in w\<lparr>lheads := (lheads w)[lh := h\<lparr>hsize := sz\<rparr>],
           lhsize := (if sz < 56 then lhsize w + 1
                      else lhsize w + (1 + intsize (of_nat sz)))\<rparr>)"

text \<open>
  \<^verbatim>\<open>toBytes\<close> fills a buffer of \<^verbatim>\<open>w.size()\<close> zero bytes. \<open>go_copy\<close> is Go's \<^verbatim>\<open>copy\<close>
  into \<^verbatim>\<open>out[pos:]\<close>, which stops at the end of the buffer; a slice expression or a
  header write outside its buffer is a run-time panic, the value \<^const>\<open>None\<close>.
\<close>

definition go_copy :: "nat \<Rightarrow> bytes \<Rightarrow> bytes \<Rightarrow> nat \<times> bytes" where
  "go_copy pos src out =
     (let n = min (length out - pos) (length src)
      in (n, take pos out @ take n src @ drop (pos + n) out))"

fun toBytesLoop ::
    "bytes \<Rightarrow> listhead list \<Rightarrow> nat \<Rightarrow> nat \<Rightarrow> bytes \<Rightarrow> (nat \<times> nat \<times> bytes) option" where
  "toBytesLoop s [] strpos pos out = Some (strpos, pos, out)"
| "toBytesLoop s (h # hs) strpos pos out =
     (if pos > length out \<or> strpos > offset h \<or> offset h > length s then None
      else
        (let (n, out1) = go_copy pos (take (offset h - strpos) (drop strpos s)) out;
             pos1 = pos + n;
             enc = listhead_encode h
         in if length out1 < pos1 + length enc then None
            else toBytesLoop s hs (strpos + n) (pos1 + length enc) (snd (go_copy pos1 enc out1))))"

definition toBytes :: "encbuf \<Rightarrow> bytes option" where
  "toBytes w =
     (case toBytesLoop (str w) (lheads w) 0 0 (replicate (encbuf_size w) 0) of
        None \<Rightarrow> None
      | Some (strpos, pos, out) \<Rightarrow>
          if pos > length out \<or> strpos > length (str w) then None
          else Some (snd (go_copy pos (drop strpos (str w)) out)))"

section \<open>Writers\<close>

fun writeRawValue :: "rval \<Rightarrow> encbuf \<Rightarrow> rlp_error + encbuf" where
  "writeRawValue (VBytes b) w = Inr (add_str b w)"
| "writeRawValue _ w = Inl ErrIllTyped"

fun writeUint :: "rval \<Rightarrow> encbuf \<Rightarrow> rlp_error + encbuf" where
  "writeUint (VUint i) w =
     (if i = 0 then Inr (add_str [0x80] w)
      else if i < 128 then Inr (add_str [ucast i] w)
      else (let b = putint i in Inr (add_str ((0x80 + of_nat (length b)) # b) w)))"
| "writeUint _ w = Inl ErrIllTyped"

fun writeBool :: "rval \<Rightarrow> encbuf \<Rightarrow> rlp_error + encbuf" where
  "writeBool (VBool b) w = Inr (add_str [if b then 0x01 else 0x80] w)"
| "writeBool _ w = Inl ErrIllTyped"

definition writeBigInt :: "int \<Rightarrow> encbuf \<Rightarrow> rlp_error + encbuf" where
  "writeBigInt i w =
     (if i < 0 then Inl ErrNegativeBigInt
      else if i = 0 then Inr (add_str [0x80] w)
      else Inr (encodeString (be_bytes (nat i)) w))"

fun writeBigIntPtr :: "rval \<Rightarrow> encbuf \<Rightarrow> rlp_error + encbuf" where
  "writeBigIntPtr VNil w = Inr (add_str [0x80] w)"
| "writeBigIntPtr (VPtr (VBig i)) w = writeBigInt i w"
| "writeBigIntPtr _ w = Inl ErrIllTyped"

fun writeBigIntNoPtr :: "rval \<Rightarrow> encbuf \<Rightarrow> rlp_error + encbuf" where
  "writeBigIntNoPtr (VBig i) w = writeBigInt i w"
| "writeBigIntNoPtr _ w = Inl ErrIllTyped"

fun writeBytes :: "rval \<Rightarrow> encbuf \<Rightarrow> rlp_error + encbuf" where
  "writeBytes (VBytes b) w = Inr (encodeString b w)"
| "writeBytes _ w = Inl ErrIllTyped"

fun writeByteArray :: "rval \<Rightarrow> encbuf \<Rightarrow> rlp_error + encbuf" where
  "writeByteArray (VBytes b) w = Inr (encodeString b w)"
| "writeByteArray _ w = Inl ErrIllTyped"

fun writeString :: "rval \<Rightarrow> encbuf \<Rightarrow> rlp_error + encbuf" where
  "writeString (VBytes s) w =
     (if length s = 1 \<and> s ! 0 \<le> 0x7F then Inr (add_str [s ! 0] w)
      else Inr (add_str s (encodeStringHeader (length s) w)))"
| "writeString _ w = Inl ErrIllTyped"

definition writeNilPtr :: "rtype \<Rightarrow> tags \<Rightarrow> encbuf \<Rightarrow> rlp_error + encbuf" where
  "writeNilPtr etyp ts w =
     (let nk = (if nilOK ts then nilKind ts else defaultNilKind etyp)
      in if nk = KString then Inr (add_str [0x80] w)
         else (let (lh, w1) = list_start w in Inr (listEnd lh w1)))"

text \<open>The error of \<^verbatim>\<open>makeWriter\<close>, which depends on the type alone.\<close>

fun first_field_err :: "rtype \<Rightarrow> (nat \<times> rlp_error option) list \<Rightarrow> rlp_error option" where
  "first_field_err t [] = None"
| "first_field_err t ((i, None) # es) = first_field_err t es"
| "first_field_err t ((i, Some e) # es) = Some (StructFieldError t i e)"

function makeWriterErr :: "rtype \<Rightarrow> rlp_error option" where
  "makeWriterErr TRawValue = None"
| "makeWriterErr TBigInt = None"
| "makeWriterErr (TPtr t) = (if t = TBigInt then None else makeWriterErr t)"
| "makeWriterErr (TCoder bv t) = None"
| "makeWriterErr (TUint n) = None"
| "makeWriterErr TBool = None"
| "makeWriterErr TString = None"
| "makeWriterErr (TSlice t) = (if isByte t then None else makeWriterErr t)"
| "makeWriterErr (TArray n t) = (if isByte t then None else makeWriterErr t)"
| "makeWriterErr (TStruct nm fs) =
     (case structFields fs of
        Inl e \<Rightarrow> Some e
      | Inr fl \<Rightarrow> first_field_err (TStruct nm fs)
                   (map (\<lambda>(i, n, ts, t). (i, makeWriterErr t)) fl))"
| "makeWriterErr (TInterface e) = None"
| "makeWriterErr (TOther k) = Some (ErrNotSerializable (TOther k))"
  by pat_completeness auto
termination
  by (relation "measure size") (simp_all, blast intro: structFields_size [simplified])

text \<open>
  The writer of each type. The first argument tells whether the value is addressable,
  which \<^verbatim>\<open>makeEncoderWriter\<close> asks of a type whose \<^verbatim>\<open>EncodeRLP\<close> has a pointer receiver:
  what a pointer or a slice leads to is addressable, what an interface holds is not, a
  struct field or an array element is when its container is.
\<close>

lemma size_list_nth: "i < length vs \<Longrightarrow> size (vs ! i :: rval) < size_list size vs"
proof (induction vs arbitrary: i)
  case (Cons v vs)
  then show ?case by (cases i) (simp_all add: less_SucI trans_less_add2)
qed simp

function writeValue :: "bool \<Rightarrow> rtype \<Rightarrow> tags \<Rightarrow> rval \<Rightarrow> encbuf \<Rightarrow> rlp_error + encbuf"
  and write_elems :: "bool \<Rightarrow> rtype \<Rightarrow> rval list \<Rightarrow> encbuf \<Rightarrow> rlp_error + encbuf"
  and write_fields :: "bool \<Rightarrow> field list \<Rightarrow> rval list \<Rightarrow> encbuf \<Rightarrow> rlp_error + encbuf"
where
  "writeValue addr TRawValue ts v w = writeRawValue v w"
| "writeValue addr TBigInt ts v w = writeBigIntNoPtr v w"
| "writeValue addr (TPtr t) ts v w =
     (if t = TBigInt then writeBigIntPtr v w
      else (case v of
              VNil \<Rightarrow> writeNilPtr t ts w
            | VPtr u \<Rightarrow> writeValue True t no_tags u w
            | _ \<Rightarrow> Inl ErrIllTyped))"
| "writeValue addr (TCoder byValue t) ts v w =
     (if byValue \<or> addr then
        (case makeWriterErr t of
           Some er \<Rightarrow> Inl er
         | None \<Rightarrow> writeValue True t no_tags v w)
      else Inl (ErrUnaddressable (TCoder byValue t)))"
| "writeValue addr (TUint n) ts v w = writeUint v w"
| "writeValue addr TBool ts v w = writeBool v w"
| "writeValue addr TString ts v w = writeString v w"
| "writeValue addr (TSlice t) ts v w =
     (if isByte t then writeBytes v w
      else (case v of
              VList vs \<Rightarrow>
                (if tail ts then write_elems True t vs w
                 else (let (lh, w1) = list_start w
                       in case write_elems True t vs w1 of
                            Inl e \<Rightarrow> Inl e
                          | Inr w2 \<Rightarrow> Inr (listEnd lh w2)))
            | _ \<Rightarrow> Inl ErrIllTyped))"
| "writeValue addr (TArray n t) ts v w =
     (if isByte t then writeByteArray v w
      else (case v of
              VList vs \<Rightarrow>
                (if tail ts then write_elems addr t vs w
                 else (let (lh, w1) = list_start w
                       in case write_elems addr t vs w1 of
                            Inl e \<Rightarrow> Inl e
                          | Inr w2 \<Rightarrow> Inr (listEnd lh w2)))
            | _ \<Rightarrow> Inl ErrIllTyped))"
| "writeValue addr (TStruct nm fs) ts v w =
     (case v of
        VStruct vs \<Rightarrow>
          (case structFields fs of
             Inl e \<Rightarrow> Inl e
           | Inr fl \<Rightarrow>
               (let (lh, w1) = list_start w
                in case write_fields addr fl vs w1 of
                     Inl e \<Rightarrow> Inl e
                   | Inr w2 \<Rightarrow> Inr (listEnd lh w2)))
      | _ \<Rightarrow> Inl ErrIllTyped)"
| "writeValue addr (TInterface e) ts v w =
     (case v of
        VNil \<Rightarrow> Inr (add_str [0xC0] w)
      | VIface t u \<Rightarrow>
          (case makeWriterErr t of
             Some er \<Rightarrow> Inl er
           | None \<Rightarrow> writeValue False t no_tags u w)
      | _ \<Rightarrow> Inl ErrIllTyped)"
| "writeValue addr (TOther k) ts v w = Inl (ErrNotSerializable (TOther k))"
| "write_elems addr t [] w = Inr w"
| "write_elems addr t (v # vs) w =
     (case writeValue addr t no_tags v w of
        Inl e \<Rightarrow> Inl e
      | Inr w1 \<Rightarrow> write_elems addr t vs w1)"
| "write_fields addr [] vs w = Inr w"
| "write_fields addr ((i, n, ts, t) # fl) vs w =
     (if i < length vs then
        (case writeValue addr t ts (vs ! i) w of
           Inl e \<Rightarrow> Inl e
         | Inr w1 \<Rightarrow> write_fields addr fl vs w1)
      else Inl ErrIllTyped)"
  by pat_completeness auto
termination
  by (relation "measures
    [\<lambda>x. case x of Inl (addr, t, ts, v, w) \<Rightarrow> size v
              | Inr (Inl (addr, t, vs, w)) \<Rightarrow> size_list size vs
              | Inr (Inr (addr, fl, vs, w)) \<Rightarrow> size_list size vs,
     \<lambda>x. case x of Inl (addr, t, ts, v, w) \<Rightarrow> size t
              | Inr (Inl (addr, t, vs, w)) \<Rightarrow> 0
              | Inr (Inr (addr, fl, vs, w)) \<Rightarrow> length fl]") (simp_all add: size_list_nth)

definition encode :: "rtype \<Rightarrow> rval \<Rightarrow> encbuf \<Rightarrow> rlp_error + encbuf" where
  "encode t v w =
     (case makeWriterErr t of Some e \<Rightarrow> Inl e | None \<Rightarrow> writeValue False t no_tags v w)"

definition EncodeToBytes :: "rtype \<Rightarrow> rval \<Rightarrow> rlp_error + bytes option" where
  "EncodeToBytes t v =
     (case encode t v reset of Inl e \<Rightarrow> Inl e | Inr w \<Rightarrow> Inr (toBytes w))"

section \<open>Writing the buffer out\<close>

text \<open>
  \<^verbatim>\<open>toWriter\<close> sends the pieces of the buffer to an \<^verbatim>\<open>io.Writer\<close>. A writer is a
  function that takes its state and the bytes and returns the number of bytes it took,
  an error if there was one, and its new state.
\<close>

type_synonym ('s, 'e) io_write = "'s \<Rightarrow> bytes \<Rightarrow> nat \<times> 'e option \<times> 's"

fun toWriterLoop ::
    "('s, 'e) io_write \<Rightarrow> bytes \<Rightarrow> listhead list \<Rightarrow> nat \<Rightarrow> 's \<Rightarrow> 'e option \<times> nat \<times> 's" where
  "toWriterLoop wr s [] strpos st = (None, strpos, st)"
| "toWriterLoop wr s (h # hs) strpos st =
     (let (err1, strpos1, st1) =
            (if offset h > strpos then
               (let (n, err, st') = wr st (take (offset h - strpos) (drop strpos s))
                in (err, strpos + n, st'))
             else (None, strpos, st))
      in case err1 of
           Some e \<Rightarrow> (Some e, strpos1, st1)
         | None \<Rightarrow>
             (let (n, err2, st2) = wr st1 (listhead_encode h)
              in case err2 of
                   Some e \<Rightarrow> (Some e, strpos1, st2)
                 | None \<Rightarrow> toWriterLoop wr s hs strpos1 st2))"

definition toWriter :: "('s, 'e) io_write \<Rightarrow> encbuf \<Rightarrow> 's \<Rightarrow> 'e option \<times> 's" where
  "toWriter wr w st =
     (let (err, strpos, st1) = toWriterLoop wr (str w) (lheads w) 0 st
      in case err of
           Some e \<Rightarrow> (Some e, st1)
         | None \<Rightarrow>
             if strpos < length (str w)
             then (let (n, err2, st2) = wr st1 (drop strpos (str w)) in (err2, st2))
             else (None, st1))"

text \<open>\<^verbatim>\<open>(*encbuf).Write\<close>: the encode buffer is itself such a writer.\<close>

definition encbuf_Write :: "(encbuf, rlp_error) io_write" where
  "encbuf_Write w b = (length b, None, w\<lparr>str := str w @ b\<rparr>)"

text \<open>\<^verbatim>\<open>Encode\<close> to a writer that is not an encode buffer.\<close>

definition Encode :: "(('s, rlp_error) io_write) \<Rightarrow> rtype \<Rightarrow> rval \<Rightarrow> 's \<Rightarrow> rlp_error option \<times> 's" where
  "Encode wr t v st =
     (case encode t v reset of Inl e \<Rightarrow> (Some e, st) | Inr w \<Rightarrow> toWriter wr w st)"

section \<open>Reading the buffer\<close>

record encReader =
  rbuf :: "encbuf option"
  lhpos :: nat
  rstrpos :: nat
  piece :: "bytes option"

text \<open>
  \<^verbatim>\<open>next\<close> returns the next piece, \<^const>\<open>None\<close> at the end of the data; the outer
  \<^const>\<open>None\<close> is the panic of a slice expression outside the string data.
\<close>

definition encReader_next :: "encReader \<Rightarrow> (bytes option \<times> encReader) option" where
  "encReader_next r =
     (case rbuf r of
        None \<Rightarrow> Some (None, r)
      | Some w \<Rightarrow>
          (case piece r of
             Some p \<Rightarrow> Some (Some p, r)
           | None \<Rightarrow>
               if lhpos r < length (lheads w) then
                 (let h = lheads w ! lhpos r in
                  if offset h > rstrpos r then
                    (if offset h \<le> length (str w) then
                       Some (Some (take (offset h - rstrpos r) (drop (rstrpos r) (str w))),
                             r\<lparr>rstrpos := offset h\<rparr>)
                     else None)
                  else Some (Some (listhead_encode h), r\<lparr>lhpos := lhpos r + 1\<rparr>))
               else if rstrpos r < length (str w) then
                 Some (Some (drop (rstrpos r) (str w)), r\<lparr>rstrpos := length (str w)\<rparr>)
               else Some (None, r)))"

text \<open>The number of pieces that can still come, which bounds the loop of \<^verbatim>\<open>Read\<close>.\<close>

definition encReader_left :: "encReader \<Rightarrow> nat" where
  "encReader_left r =
     (case rbuf r of
        None \<Rightarrow> 0
      | Some w \<Rightarrow> (length (lheads w) - lhpos r) + (length (str w) - rstrpos r)
                    + (case piece r of None \<Rightarrow> 0 | Some p \<Rightarrow> 1))"

lemma encReader_next_left:
  "encReader_next r = Some (Some p, r1) \<Longrightarrow> encReader_left (r1\<lparr>piece := None\<rparr>) < encReader_left r"
  by (auto simp: encReader_next_def encReader_left_def Let_def split: option.splits if_splits)

text \<open>
  \<^verbatim>\<open>Read\<close> into a buffer of \<open>k\<close> bytes, of which \<open>acc\<close> is already filled. The result is
  the data read and whether the error is \<^verbatim>\<open>io.EOF\<close>.
\<close>

function encReader_Read :: "nat \<Rightarrow> bytes \<Rightarrow> encReader \<Rightarrow> (bytes \<times> bool \<times> encReader) option" where
  "encReader_Read k acc r =
     (case encReader_next r of
        None \<Rightarrow> None
      | Some (None, r1) \<Rightarrow> Some (acc, True, r1\<lparr>rbuf := None, piece := None\<rparr>)
      | Some (Some p, r1) \<Rightarrow>
          (let nn = min (k - length acc) (length p) in
           if nn < length p
           then Some (acc @ take nn p, False, r1\<lparr>piece := Some (drop nn p)\<rparr>)
           else encReader_Read k (acc @ take nn p) (r1\<lparr>piece := None\<rparr>)))"
  by pat_completeness auto
termination
  by (relation "measure (\<lambda>(k, acc, r). encReader_left r)") (auto simp: encReader_next_left)

declare encReader_Read.simps [simp del]

definition EncodeToReader :: "rtype \<Rightarrow> rval \<Rightarrow> rlp_error + nat \<times> encReader" where
  "EncodeToReader t v =
     (case encode t v reset of
        Inl e \<Rightarrow> Inl e
      | Inr w \<Rightarrow> Inr (encbuf_size w,
                      \<lparr>rbuf = Some w, lhpos = 0, rstrpos = 0, piece = None\<rparr>))"

end
