(* ===== verification/Rlp_Spec.thy ===== *)
theory Rlp_Spec
  imports Rlp_Encode
begin

text \<open>
  The abstract side of package \<^verbatim>\<open>rlp\<close>: the item trees of the RLP format with their
  encoding (the rules \<^verbatim>\<open>rlp/doc.go\<close> and the comments of \<^verbatim>\<open>readKind\<close> describe), and the
  items a Go value stands for. The lemmas show that the buffered encoder of
  \<^verbatim>\<open>rlp/encode.go\<close> computes exactly this encoding.
\<close>

section \<open>Items and their encoding\<close>

text \<open>\<open>Opaque\<close> is an already encoded value, which a raw value contributes as it is.\<close>

datatype item = Str bytes | Lst "item list" | Opaque bytes

definition rlp_head :: "byte \<Rightarrow> byte \<Rightarrow> nat \<Rightarrow> bytes" where
  "rlp_head smalltag largetag n =
     (if n < 56 then [smalltag + of_nat n]
      else (largetag + of_nat (length (be_bytes n))) # be_bytes n)"

fun rlp :: "item \<Rightarrow> bytes" where
  "rlp (Str b) =
     (if length b = 1 \<and> hd b < 0x80 then b else rlp_head 0x80 0xB7 (length b) @ b)"
| "rlp (Lst is) =
     (let p = concat (map rlp is) in rlp_head 0xC0 0xF7 (length p) @ p)"
| "rlp (Opaque b) = b"

definition rlps :: "item list \<Rightarrow> bytes" where
  "rlps is = concat (map rlp is)"

lemma rlps_simps [simp]:
  "rlps [] = []" "rlps (i # is) = rlp i @ rlps is" "rlps (is @ js) = rlps is @ rlps js"
  by (simp_all add: rlps_def)

lemma rlp_Lst: "rlp (Lst is) = rlp_head 0xC0 0xF7 (length (rlps is)) @ rlps is"
  by (simp add: rlps_def Let_def)

declare rlp.simps(2) [simp del] rlp_Lst [simp]

section \<open>The items of a value\<close>

text \<open>
  What a value of a type contributes to the encoding, or the error that makes encoding
  fail: nothing but data flows here, no buffer and no header bookkeeping.
\<close>

definition big_items :: "int \<Rightarrow> rlp_error + item list" where
  "big_items i = (if i < 0 then Inl ErrNegativeBigInt else Inr [Str (be_bytes (nat i))])"

definition as_list :: "rlp_error + item list \<Rightarrow> rlp_error + item list" where
  "as_list r = (case r of Inl e \<Rightarrow> Inl e | Inr is \<Rightarrow> Inr [Lst is])"

definition bytes_items :: "rval \<Rightarrow> rlp_error + item list" where
  "bytes_items v = (case v of VBytes b \<Rightarrow> Inr [Str b] | _ \<Rightarrow> Inl ErrIllTyped)"

definition nil_items :: "rtype \<Rightarrow> tags \<Rightarrow> item" where
  "nil_items t ts =
     (if (if nilOK ts then nilKind ts else defaultNilKind t) = KString then Str [] else Lst [])"

function items_of :: "bool \<Rightarrow> rtype \<Rightarrow> tags \<Rightarrow> rval \<Rightarrow> rlp_error + item list"
  and items_elems :: "bool \<Rightarrow> rtype \<Rightarrow> rval list \<Rightarrow> rlp_error + item list"
  and items_fields :: "bool \<Rightarrow> field list \<Rightarrow> rval list \<Rightarrow> rlp_error + item list"
where
  "items_of addr TRawValue ts v = (case v of VBytes b \<Rightarrow> Inr [Opaque b] | _ \<Rightarrow> Inl ErrIllTyped)"
| "items_of addr TBigInt ts v = (case v of VBig i \<Rightarrow> big_items i | _ \<Rightarrow> Inl ErrIllTyped)"
| "items_of addr (TPtr t) ts v =
     (if t = TBigInt then
        (case v of
           VNil \<Rightarrow> Inr [Str []]
         | VPtr u \<Rightarrow> (case u of VBig i \<Rightarrow> big_items i | _ \<Rightarrow> Inl ErrIllTyped)
         | _ \<Rightarrow> Inl ErrIllTyped)
      else
        (case v of
           VNil \<Rightarrow> Inr [nil_items t ts]
         | VPtr u \<Rightarrow> items_of True t no_tags u
         | _ \<Rightarrow> Inl ErrIllTyped))"
| "items_of addr (TCoder byValue t) ts v =
     (if byValue \<or> addr then
        (case makeWriterErr t of Some er \<Rightarrow> Inl er | None \<Rightarrow> items_of True t no_tags v)
      else Inl (ErrUnaddressable (TCoder byValue t)))"
| "items_of addr (TUint n) ts v =
     (case v of VUint u \<Rightarrow> Inr [Str (be_bytes (unat u))] | _ \<Rightarrow> Inl ErrIllTyped)"
| "items_of addr TBool ts v =
     (case v of VBool b \<Rightarrow> Inr [Str (if b then [1] else [])] | _ \<Rightarrow> Inl ErrIllTyped)"
| "items_of addr TString ts v = bytes_items v"
| "items_of addr (TSlice t) ts v =
     (if isByte t then bytes_items v
      else (case v of
              VList vs \<Rightarrow>
                (if tail ts then items_elems True t vs else as_list (items_elems True t vs))
            | _ \<Rightarrow> Inl ErrIllTyped))"
| "items_of addr (TArray n t) ts v =
     (if isByte t then bytes_items v
      else (case v of
              VList vs \<Rightarrow>
                (if tail ts then items_elems addr t vs else as_list (items_elems addr t vs))
            | _ \<Rightarrow> Inl ErrIllTyped))"
| "items_of addr (TStruct nm fs) ts v =
     (case v of
        VStruct vs \<Rightarrow>
          (case structFields fs of
             Inl e \<Rightarrow> Inl e
           | Inr fl \<Rightarrow> as_list (items_fields addr fl vs))
      | _ \<Rightarrow> Inl ErrIllTyped)"
| "items_of addr (TInterface e) ts v =
     (case v of
        VNil \<Rightarrow> Inr [Lst []]
      | VIface t u \<Rightarrow>
          (case makeWriterErr t of Some er \<Rightarrow> Inl er | None \<Rightarrow> items_of False t no_tags u)
      | _ \<Rightarrow> Inl ErrIllTyped)"
| "items_of addr (TOther k) ts v = Inl (ErrNotSerializable (TOther k))"
| "items_elems addr t [] = Inr []"
| "items_elems addr t (v # vs) =
     (case items_of addr t no_tags v of
        Inl e \<Rightarrow> Inl e
      | Inr is \<Rightarrow> (case items_elems addr t vs of Inl e \<Rightarrow> Inl e | Inr js \<Rightarrow> Inr (is @ js)))"
| "items_fields addr [] vs = Inr []"
| "items_fields addr ((i, n, ts, t) # fl) vs =
     (if i < length vs then
        (case items_of addr t ts (vs ! i) of
           Inl e \<Rightarrow> Inl e
         | Inr is \<Rightarrow>
             (case items_fields addr fl vs of Inl e \<Rightarrow> Inl e | Inr js \<Rightarrow> Inr (is @ js)))
      else Inl ErrIllTyped)"
  by pat_completeness auto
termination
  by (relation "measures
    [\<lambda>x. case x of Inl (addr, t, ts, v) \<Rightarrow> size v
              | Inr (Inl (addr, t, vs)) \<Rightarrow> size_list size vs
              | Inr (Inr (addr, fl, vs)) \<Rightarrow> size_list size vs,
     \<lambda>x. case x of Inl (addr, t, ts, v) \<Rightarrow> size t
              | Inr (Inl (addr, t, vs)) \<Rightarrow> 0
              | Inr (Inr (addr, fl, vs)) \<Rightarrow> length fl]") (simp_all add: size_list_nth)

text \<open>The specification of \<^verbatim>\<open>EncodeToBytes\<close>.\<close>

definition encode_spec :: "rtype \<Rightarrow> rval \<Rightarrow> rlp_error + item list" where
  "encode_spec t v =
     (case makeWriterErr t of Some e \<Rightarrow> Inl e | None \<Rightarrow> items_of False t no_tags v)"

section \<open>Integers and headers\<close>

lemma byte_at_of_nat: "byte_at k i = of_nat (unat i div 2 ^ k mod 256)"
proof -
  have "unat (drop_bit k i) = unat i div 2 ^ k"
    by (simp only: unat_drop_bit_eq) (simp add: drop_bit_eq_div)
  then have "unat (byte_at k i) = unat (of_nat (unat i div 2 ^ k mod 256) :: byte)"
    by (simp add: byte_at_def unsigned_ucast_eq take_bit_eq_mod)
  then show ?thesis by (simp only: word_unat_eq_iff)
qed

lemma putint_be_fixed:
  "putint i = be_fixed (if unat i < 256 then 1 else if unat i < 256 ^ 2 then 2
     else if unat i < 256 ^ 3 then 3 else if unat i < 256 ^ 4 then 4
     else if unat i < 256 ^ 5 then 5 else if unat i < 256 ^ 6 then 6
     else if unat i < 256 ^ 7 then 7 else 8) (unat i)"
proof -
  have d: "n div 256 div 256 = n div 65536" "n div 65536 div 256 = n div 16777216"
    "n div 16777216 div 256 = n div 4294967296" "n div 4294967296 div 256 = n div 1099511627776"
    "n div 1099511627776 div 256 = n div 281474976710656"
    "n div 281474976710656 div 256 = n div 72057594037927936" for n :: nat
    by (simp_all add: div_mult2_eq [symmetric])
  show ?thesis
    unfolding putint_def byte_at_of_nat word_less_nat_alt by (simp add: d)
qed

lemma u64_bound: "unat (i :: u64) < 256 ^ 8"
  using unsigned_less [of i, where ?'a = nat] by simp

text \<open>The unrolled cases of \<^verbatim>\<open>putint\<close> write the shortest big-endian form.\<close>

lemma putint_be_bytes:
  assumes "i \<noteq> 0"
  shows "putint i = be_bytes (unat i)"
proof -
  have pos: "0 < unat i" using assms by (simp add: unat_gt_0)
  have fixed: "256 ^ (k - 1) \<le> unat i \<Longrightarrow> unat i < 256 ^ k \<Longrightarrow> 0 < k
    \<Longrightarrow> be_fixed k (unat i) = be_bytes (unat i)" for k
    using be_fixed_be_bytes [of "k - 1" "unat i"] by simp
  show ?thesis
    unfolding putint_be_fixed using pos u64_bound [of i]
    by (auto simp del: be_fixed_numeral be_fixed.simps One_nat_def intro!: fixed)
qed

lemma intsizeFrom_be: "intsizeFrom sz i = sz + (length (be_bytes (unat i)) - 1)"
proof (induction sz i rule: intsizeFrom.induct)
  case (1 sz i)
  show ?case
  proof (cases "drop_bit 8 i = 0")
    case True
    then have "unat i div 256 = 0" using unat_drop_bit_8 [of i] by simp
    then have "length (be_bytes (unat i)) \<le> 1"
      by (subst length_be_bytes_le) (simp add: div_eq_0_iff)
    then show ?thesis using True by (simp add: intsizeFrom.simps [of sz i])
  next
    case False
    then have "unat i div 256 \<noteq> 0" using unat_drop_bit_8 [of i] by (metis unat_0_iff)
    then have "be_bytes (unat i) = be_bytes (unat i div 256) @ [of_nat (unat i mod 256)]"
      and "be_bytes (unat i div 256) \<noteq> []"
      by (simp_all add: be_bytes_step [of "unat i"])
    then show ?thesis using False 1 unat_drop_bit_8 [of i]
      by (simp add: intsizeFrom.simps [of sz i] Suc_diff_1 [symmetric])
  qed
qed

lemma intsize_putint: "i \<noteq> 0 \<Longrightarrow> intsize i = length (putint i)"
  by (simp add: intsize_def intsizeFrom_be putint_be_bytes Suc_diff_1 [symmetric]
      unat_gt_0 length_greater_0_conv [symmetric])

lemma puthead_rlp_head:
  assumes "n < 2 ^ 64"
  shows "puthead s l (of_nat n) = rlp_head s l n"
proof -
  have u: "unat (of_nat n :: u64) = n" using assms by (simp add: unat_of_nat)
  have "(of_nat n :: u64) < 56 \<longleftrightarrow> n < 56" by (simp add: word_less_nat_alt u)
  moreover have "ucast (of_nat n :: u64) = (of_nat n :: byte)"
    by (simp add: word_unat_eq_iff unsigned_ucast_eq u take_bit_eq_mod)
  moreover have "\<not> n < 56 \<Longrightarrow> (of_nat n :: u64) \<noteq> 0" using u by (metis unat_0 zero_less_numeral)
  ultimately show ?thesis
    by (simp add: puthead_def rlp_head_def putint_be_bytes u Let_def)
qed

lemma headsize_puthead: "headsize n = length (puthead s l n)"
  by (cases "n = 0") (simp_all add: headsize_def puthead_def Let_def intsize_putint)

end
