(* ===== verification/Rlp_Stream.thy ===== *)
theory Rlp_Stream
  imports Rlp_Spec
begin

text \<open>
  The decoding stream of \<^verbatim>\<open>rlp/decode.go\<close>: its state and the operations that read kinds,
  strings, integers and lists from it, with the invariant that keeps every read inside the
  enclosing lists and the input.
\<close>

section \<open>State\<close>

record listpos =
  lpos :: u64
  lsize :: u64

text \<open>
  \<open>rd\<close> is what the reader has not delivered yet. \<open>skind\<close> is \<^const>\<open>None\<close> for the kind
  \<open>-1\<close> that makes \<^verbatim>\<open>Kind\<close> read again. The head of \<open>stack\<close> is the innermost list. The
  auxiliary buffer \<^verbatim>\<open>uintbuf\<close> carries nothing from one call to the next.
\<close>

record Stream =
  rd :: bytes
  remaining :: u64
  limited :: bool
  skind :: "Kind option"
  ssize :: u64
  byteval :: byte
  kinderr :: "rlp_error option"
  stack :: "listpos list"

text \<open>
  \<^verbatim>\<open>Reset\<close>; \<open>known\<close> tells whether the reader is a \<^verbatim>\<open>bytes.Reader\<close> or a \<^verbatim>\<open>strings.Reader\<close>,
  whose length sets the limit when the caller gives none. The limit of a stream that is
  not limited is never read.
\<close>

definition Reset :: "bool \<Rightarrow> bytes \<Rightarrow> u64 \<Rightarrow> Stream" where
  "Reset known b inputLimit =
     \<lparr>rd = b,
      remaining = (if inputLimit > 0 then inputLimit else if known then of_nat (length b) else 0),
      limited = (inputLimit > 0 \<or> known),
      skind = None, ssize = 0, byteval = 0, kinderr = None, stack = []\<rparr>"

definition NewStream :: "bool \<Rightarrow> bytes \<Rightarrow> u64 \<Rightarrow> Stream" where
  "NewStream known b inputLimit = Reset known b inputLimit"

definition NewListStream :: "bool \<Rightarrow> bytes \<Rightarrow> u64 \<Rightarrow> Stream" where
  "NewListStream known b len = (Reset known b len)\<lparr>skind := Some KList, ssize := len\<rparr>"

section \<open>Reading bytes\<close>

definition willRead :: "u64 \<Rightarrow> Stream \<Rightarrow> rlp_error option \<times> Stream" where
  "willRead n s =
     (let s0 = s\<lparr>skind := None\<rparr>;
          limit = (\<lambda>s1. if limited s1 then
                          (if n > remaining s1 then (Some ErrValueTooLarge, s1)
                           else (None, s1\<lparr>remaining := remaining s1 - n\<rparr>))
                        else (None, s1))
      in case stack s0 of
           [] \<Rightarrow> limit s0
         | tos # st \<Rightarrow>
             if n > lsize tos - lpos tos then (Some ErrElemTooLarge, s0)
             else limit (s0\<lparr>stack := tos\<lparr>lpos := lpos tos + n\<rparr> # st\<rparr>))"

definition readByte :: "Stream \<Rightarrow> (rlp_error + byte) \<times> Stream" where
  "readByte s =
     (case willRead 1 s of
        (Some e, s1) \<Rightarrow> (Inl e, s1)
      | (None, s1) \<Rightarrow>
          (case rd s1 of
             [] \<Rightarrow> (Inl IoUnexpectedEOF, s1)
           | b # bs \<Rightarrow> (Inr b, s1\<lparr>rd := bs\<rparr>)))"

text \<open>\<^verbatim>\<open>readFull\<close> into a buffer of \<open>n\<close> bytes.\<close>

definition readFull :: "nat \<Rightarrow> Stream \<Rightarrow> (rlp_error + bytes) \<times> Stream" where
  "readFull n s =
     (case willRead (of_nat n) s of
        (Some e, s1) \<Rightarrow> (Inl e, s1)
      | (None, s1) \<Rightarrow>
          if n \<le> length (rd s1) then (Inr (take n (rd s1)), s1\<lparr>rd := drop n (rd s1)\<rparr>)
          else (Inl IoUnexpectedEOF, s1\<lparr>rd := []\<rparr>))"

definition readUint :: "byte \<Rightarrow> Stream \<Rightarrow> (rlp_error + u64) \<times> Stream" where
  "readUint n s =
     (if n = 0 then (Inr 0, s\<lparr>skind := None\<rparr>)
      else if n = 1 then
        (case readByte s of (Inl e, s1) \<Rightarrow> (Inl e, s1) | (Inr b, s1) \<Rightarrow> (Inr (ucast b), s1))
      else
        (case readFull (unat n) s of
           (Inl e, s1) \<Rightarrow> (Inl e, s1)
         | (Inr b, s1) \<Rightarrow>
             if hd b = 0 then (Inl ErrCanonSize, s1)
             else (Inr (of_nat (be_val b)), s1)))"

section \<open>Kinds\<close>

text \<open>\<^verbatim>\<open>readKind\<close> returns a kind and a size also with an error.\<close>

definition readSized :: "Kind \<Rightarrow> byte \<Rightarrow> Stream \<Rightarrow> (Kind \<times> u64 \<times> rlp_error option) \<times> Stream" where
  "readSized k n s =
     (case readUint n s of
        (Inl e, s1) \<Rightarrow> ((k, 0, Some e), s1)
      | (Inr sz, s1) \<Rightarrow> ((k, sz, if sz < 56 then Some ErrCanonSize else None), s1))"

definition readKind :: "Stream \<Rightarrow> (Kind \<times> u64 \<times> rlp_error option) \<times> Stream" where
  "readKind s =
     (case readByte s of
        (Inl e, s1) \<Rightarrow>
          ((KByte, 0,
            Some (if stack s1 = [] \<and> (e = IoUnexpectedEOF \<or> e = ErrValueTooLarge)
                  then IoEOF else e)), s1)
      | (Inr b, s1) \<Rightarrow>
          (let s2 = s1\<lparr>byteval := 0\<rparr> in
           if b < 0x80 then ((KByte, 0, None), s2\<lparr>byteval := b\<rparr>)
           else if b < 0xB8 then ((KString, ucast (b - 0x80), None), s2)
           else if b < 0xC0 then readSized KString (b - 0xB7) s2
           else if b < 0xF8 then ((KList, ucast (b - 0xC0), None), s2)
           else readSized KList (b - 0xF7) s2))"

definition at_list_end :: "Stream \<Rightarrow> bool" where
  "at_list_end s = (case stack s of [] \<Rightarrow> False | tos # st \<Rightarrow> lpos tos = lsize tos)"

text \<open>
  \<^verbatim>\<open>Kind\<close>; the kind and the size it returns along with an error are dropped, as every
  caller does.
\<close>

definition checkSize :: "Stream \<Rightarrow> rlp_error option" where
  "checkSize s =
     (case stack s of
        [] \<Rightarrow> if limited s \<and> ssize s > remaining s then Some ErrValueTooLarge else None
      | tos # st \<Rightarrow> if ssize s > lsize tos - lpos tos then Some ErrElemTooLarge else None)"

definition cachedKind :: "Stream \<Rightarrow> (rlp_error + Kind \<times> u64) \<times> Stream" where
  "cachedKind s =
     (case kinderr s of
        Some e \<Rightarrow> (Inl e, s)
      | None \<Rightarrow> (Inr (case skind s of None \<Rightarrow> KByte | Some k \<Rightarrow> k, ssize s), s))"

definition Kind :: "Stream \<Rightarrow> (rlp_error + Kind \<times> u64) \<times> Stream" where
  "Kind s =
     (if skind s = None then
        (let s0 = s\<lparr>kinderr := None\<rparr> in
         if at_list_end s0 then (Inl EOL, s0)
         else
           (let ((k, sz, e), s1) = readKind s0;
                s2 = s1\<lparr>skind := Some k, ssize := sz, kinderr := e\<rparr>
            in cachedKind (if e = None then s2\<lparr>kinderr := checkSize s2\<rparr> else s2)))
      else cachedKind s)"

section \<open>Values\<close>

text \<open>
  A \<^verbatim>\<open>make([]byte, n)\<close> above the largest allocation of the run-time system (that of
  64 bit Linux) panics.
\<close>

definition maxAlloc :: u64 where
  "maxAlloc = 0x1000000000000"

definition Bytes :: "Stream \<Rightarrow> (rlp_error + bytes) \<times> Stream" where
  "Bytes s =
     (case Kind s of
        (Inl e, s1) \<Rightarrow> (Inl e, s1)
      | (Inr (k, sz), s1) \<Rightarrow>
          (case k of
             KByte \<Rightarrow> (Inr [byteval s1], s1\<lparr>skind := None\<rparr>)
           | KString \<Rightarrow>
               if sz > maxAlloc then (Inl RuntimePanic, s1)
               else (case readFull (unat sz) s1 of
                       (Inl e, s2) \<Rightarrow> (Inl e, s2)
                     | (Inr b, s2) \<Rightarrow>
                         if sz = 1 \<and> hd b < 128 then (Inl ErrCanonSize, s2) else (Inr b, s2))
           | KList \<Rightarrow> (Inl ErrExpectedString, s1)))"

text \<open>
  \<^verbatim>\<open>Raw\<close> computes the size of its buffer in 64 bits; a sum that wraps below the header
  size makes the slice expression \<^verbatim>\<open>buf[start:]\<close> panic.
\<close>

definition Raw :: "Stream \<Rightarrow> (rlp_error + bytes) \<times> Stream" where
  "Raw s =
     (case Kind s of
        (Inl e, s1) \<Rightarrow> (Inl e, s1)
      | (Inr (k, sz), s1) \<Rightarrow>
          if k = KByte then (Inr [byteval s1], s1\<lparr>skind := None\<rparr>)
          else
            (let start = headsize sz;
                 buflen = of_nat start + sz
             in if buflen > maxAlloc \<or> unat buflen < start then (Inl RuntimePanic, s1)
                else (case readFull (unat buflen - start) s1 of
                        (Inl e, s2) \<Rightarrow> (Inl e, s2)
                      | (Inr b, s2) \<Rightarrow>
                          (Inr ((if k = KString then puthead 0x80 0xB7 sz
                                 else puthead 0xC0 0xF7 sz) @ b), s2))))"

definition Stream_uint :: "nat \<Rightarrow> Stream \<Rightarrow> (rlp_error + u64) \<times> Stream" where
  "Stream_uint maxbits s =
     (case Kind s of
        (Inl e, s1) \<Rightarrow> (Inl e, s1)
      | (Inr (k, sz), s1) \<Rightarrow>
          (case k of
             KByte \<Rightarrow>
               if byteval s1 = 0 then (Inl ErrCanonInt, s1)
               else (Inr (ucast (byteval s1)), s1\<lparr>skind := None\<rparr>)
           | KString \<Rightarrow>
               if unat sz > maxbits div 8 then (Inl ErrUintOverflow, s1)
               else (case readUint (ucast sz) s1 of
                       (Inl e, s2) \<Rightarrow> (Inl (if e = ErrCanonSize then ErrCanonInt else e), s2)
                     | (Inr v, s2) \<Rightarrow>
                         if sz > 0 \<and> v < 128 then (Inl ErrCanonSize, s2) else (Inr v, s2))
           | KList \<Rightarrow> (Inl ErrExpectedString, s1)))"

definition Uint :: "Stream \<Rightarrow> (rlp_error + u64) \<times> Stream" where
  "Uint s = Stream_uint 64 s"

definition Bool :: "Stream \<Rightarrow> (rlp_error + bool) \<times> Stream" where
  "Bool s =
     (case Stream_uint 8 s of
        (Inl e, s1) \<Rightarrow> (Inl e, s1)
      | (Inr num, s1) \<Rightarrow>
          if num = 0 then (Inr False, s1)
          else if num = 1 then (Inr True, s1)
          else (Inl (ErrInvalidBool num), s1))"

definition List :: "Stream \<Rightarrow> (rlp_error + u64) \<times> Stream" where
  "List s =
     (case Kind s of
        (Inl e, s1) \<Rightarrow> (Inl e, s1)
      | (Inr (k, sz), s1) \<Rightarrow>
          if k \<noteq> KList then (Inl ErrExpectedList, s1)
          else (Inr sz, s1\<lparr>stack := \<lparr>lpos = 0, lsize = sz\<rparr> # stack s1, skind := None, ssize := 0\<rparr>))"

definition ListEnd :: "Stream \<Rightarrow> (rlp_error + unit) \<times> Stream" where
  "ListEnd s =
     (case stack s of
        [] \<Rightarrow> (Inl ErrNotInList, s)
      | tos # st \<Rightarrow>
          if lpos tos \<noteq> lsize tos then (Inl ErrNotAtEOL, s)
          else (Inr (),
                s\<lparr>stack := (case st of
                               [] \<Rightarrow> []
                             | par # st' \<Rightarrow> par\<lparr>lpos := lpos par + lsize tos\<rparr> # st'),
                  skind := None, ssize := 0\<rparr>))"

end
