(* ===== verification/Rlp_Decode.thy ===== *)
theory Rlp_Decode
  imports Rlp_Stream
begin

text \<open>
  The decoders of \<^verbatim>\<open>rlp/decode.go\<close>, which read a value of a Go type from a stream, and the
  entry points \<^verbatim>\<open>Decode\<close>, \<^verbatim>\<open>DecodeBytes\<close> and \<^verbatim>\<open>Stream.Decode\<close>.

  A decoder is modelled as decoding into a fresh zero value: it returns the value it
  stores, or an error, with the stream it leaves behind. The loop over the elements of a
  slice has no bound of its own, so it runs on fuel; the outer \<^const>\<open>None\<close> means that the
  fuel ran out.
\<close>

type_synonym 'a dres = "((rlp_error + 'a) \<times> Stream) option"

section \<open>Errors\<close>

definition wrapStreamError :: "rlp_error \<Rightarrow> rtype \<Rightarrow> rlp_error" where
  "wrapStreamError e t =
     (case e of
        ErrCanonInt \<Rightarrow> DecodeError ''non-canonical integer (leading zero bytes)'' t []
      | ErrCanonSize \<Rightarrow> DecodeError ''non-canonical size information'' t []
      | ErrExpectedList \<Rightarrow> DecodeError ''expected input list'' t []
      | ErrExpectedString \<Rightarrow> DecodeError ''expected input string or byte'' t []
      | ErrUintOverflow \<Rightarrow> DecodeError ''input string too long'' t []
      | ErrNotAtEOL \<Rightarrow> DecodeError ''input list has too many elements'' t []
      | _ \<Rightarrow> e)"

fun addErrorContext :: "rlp_error \<Rightarrow> ectx \<Rightarrow> rlp_error" where
  "addErrorContext (DecodeError msg t ctx) c = DecodeError msg t (ctx @ [c])"
| "addErrorContext e c = e"

text \<open>What \<^verbatim>\<open>Stream.Decode\<close> adds to the error of a decoder.\<close>

fun addTargetType :: "rlp_error \<Rightarrow> rtype \<Rightarrow> rlp_error" where
  "addTargetType (DecodeError msg t ctx) target =
     (if ctx = [] then DecodeError msg t ctx else DecodeError msg t (ctx @ [CtxType target]))"
| "addTargetType e target = e"

definition map_err :: "(rlp_error \<Rightarrow> rlp_error) \<Rightarrow> (rlp_error + 'a) \<times> Stream \<Rightarrow> (rlp_error + 'a) \<times> Stream" where
  "map_err f r = (case r of (Inl e, s) \<Rightarrow> (Inl (f e), s) | (Inr x, s) \<Rightarrow> (Inr x, s))"

definition map_val :: "('a \<Rightarrow> 'b) \<Rightarrow> (rlp_error + 'a) \<times> Stream \<Rightarrow> (rlp_error + 'b) \<times> Stream" where
  "map_val f r = (case r of (Inl e, s) \<Rightarrow> (Inl e, s) | (Inr x, s) \<Rightarrow> (Inr (f x), s))"

section \<open>Zero values and types that cannot be decoded\<close>

function zeroValue :: "rtype \<Rightarrow> rval" where
  "zeroValue TRawValue = VBytes []"
| "zeroValue TBigInt = VBig 0"
| "zeroValue (TPtr t) = VNil"
| "zeroValue (TCoder bv t) = zeroValue t"
| "zeroValue (TUint n) = VUint 0"
| "zeroValue TBool = VBool False"
| "zeroValue TString = VBytes []"
| "zeroValue (TSlice t) = (if isByte t then VBytes [] else VList [])"
| "zeroValue (TArray n t) = (if isByte t then VBytes (replicate n 0) else VList (replicate n (zeroValue t)))"
| "zeroValue (TStruct nm fs) = VStruct (map (\<lambda>f. zeroValue (f_type f)) fs)"
| "zeroValue (TInterface e) = VNil"
| "zeroValue (TOther k) = VNil"
  by pat_completeness auto
termination
  by (relation "measure size") (simp_all add: size_field)

function makeDecoderErr :: "rtype \<Rightarrow> rlp_error option" where
  "makeDecoderErr TRawValue = None"
| "makeDecoderErr TBigInt = None"
| "makeDecoderErr (TPtr t) = (if t = TBigInt then None else makeDecoderErr t)"
| "makeDecoderErr (TCoder bv t) = None"
| "makeDecoderErr (TUint n) = None"
| "makeDecoderErr TBool = None"
| "makeDecoderErr TString = None"
| "makeDecoderErr (TSlice t) = (if isByte t then None else makeDecoderErr t)"
| "makeDecoderErr (TArray n t) = (if isByte t then None else makeDecoderErr t)"
| "makeDecoderErr (TStruct nm fs) =
     (case structFields fs of
        Inl e \<Rightarrow> Some e
      | Inr fl \<Rightarrow> first_field_err (TStruct nm fs)
                   (map (\<lambda>(i, n, ts, t). (i, makeDecoderErr t)) fl))"
| "makeDecoderErr (TInterface e) = None"
| "makeDecoderErr (TOther k) = Some (ErrNotSerializable (TOther k))"
  by pat_completeness auto
termination
  by (relation "measure size") (simp_all, blast intro: structFields_size [simplified])

section \<open>Decoders of the basic types\<close>

definition decodeRawValue :: "Stream \<Rightarrow> (rlp_error + rval) \<times> Stream" where
  "decodeRawValue s = map_val VBytes (Raw s)"

definition decodeUint :: "nat \<Rightarrow> Stream \<Rightarrow> (rlp_error + rval) \<times> Stream" where
  "decodeUint bits s =
     map_err (\<lambda>e. wrapStreamError e (TUint bits)) (map_val VUint (Stream_uint bits s))"

definition decodeBool :: "Stream \<Rightarrow> (rlp_error + rval) \<times> Stream" where
  "decodeBool s = map_err (\<lambda>e. wrapStreamError e TBool) (map_val VBool (Bool s))"

definition decodeString :: "Stream \<Rightarrow> (rlp_error + rval) \<times> Stream" where
  "decodeString s = map_err (\<lambda>e. wrapStreamError e TString) (map_val VBytes (Bytes s))"

definition decodeBigInt :: "Stream \<Rightarrow> (rlp_error + rval) \<times> Stream" where
  "decodeBigInt s =
     (case Bytes s of
        (Inl e, s1) \<Rightarrow> (Inl (wrapStreamError e (TPtr TBigInt)), s1)
      | (Inr b, s1) \<Rightarrow>
          if b \<noteq> [] \<and> hd b = 0 then (Inl (wrapStreamError ErrCanonInt (TPtr TBigInt)), s1)
          else (Inr (VBig (int (be_val b))), s1))"

definition decodeByteSlice :: "rtype \<Rightarrow> Stream \<Rightarrow> (rlp_error + rval) \<times> Stream" where
  "decodeByteSlice t s = map_err (\<lambda>e. wrapStreamError e t) (map_val VBytes (Bytes s))"

text \<open>
  \<^verbatim>\<open>decodeByteArray\<close>; in the first case the code drops the error of \<^verbatim>\<open>s.Uint()\<close> and stores
  the zero that comes with it.
\<close>

definition decodeByteArray :: "nat \<Rightarrow> rtype \<Rightarrow> Stream \<Rightarrow> (rlp_error + rval) \<times> Stream" where
  "decodeByteArray vlen t s =
     (case Kind s of
        (Inl e, s1) \<Rightarrow> (Inl e, s1)
      | (Inr (k, sz), s1) \<Rightarrow>
          (case k of
             KByte \<Rightarrow>
               if vlen = 0 then (Inl (DecodeError ''input string too long'' t []), s1)
               else if vlen > 1 then (Inl (DecodeError ''input string too short'' t []), s1)
               else (case Uint s1 of
                       (Inl e, s2) \<Rightarrow> (Inr (VBytes [0]), s2)
                     | (Inr bv, s2) \<Rightarrow> (Inr (VBytes [ucast bv]), s2))
           | KString \<Rightarrow>
               if vlen < unat sz then (Inl (DecodeError ''input string too long'' t []), s1)
               else if vlen > unat sz then (Inl (DecodeError ''input string too short'' t []), s1)
               else (case readFull vlen s1 of
                       (Inl e, s2) \<Rightarrow> (Inl e, s2)
                     | (Inr b, s2) \<Rightarrow>
                         if sz = 1 \<and> hd b < 128 then (Inl (wrapStreamError ErrCanonSize t), s2)
                         else (Inr (VBytes b), s2))
           | KList \<Rightarrow> (Inl (wrapStreamError ErrExpectedString t), s1)))"

section \<open>Decoders of lists\<close>

text \<open>The elements decoded so far are \<open>acc\<close>, so the index of the loop is its length.\<close>

fun decodeSliceElems ::
    "nat \<Rightarrow> (Stream \<Rightarrow> rval dres) \<Rightarrow> rval list \<Rightarrow> Stream \<Rightarrow> rval list dres" where
  "decodeSliceElems 0 elemdec acc s = None"
| "decodeSliceElems (Suc fuel) elemdec acc s =
     (case elemdec s of
        None \<Rightarrow> None
      | Some (Inl e, s1) \<Rightarrow>
          if e = EOL then Some (Inr acc, s1)
          else Some (Inl (addErrorContext e (CtxIndex (length acc))), s1)
      | Some (Inr v, s1) \<Rightarrow> decodeSliceElems fuel elemdec (acc @ [v]) s1)"

definition decodeListSlice ::
    "nat \<Rightarrow> rtype \<Rightarrow> (Stream \<Rightarrow> rval dres) \<Rightarrow> Stream \<Rightarrow> rval dres" where
  "decodeListSlice fuel t elemdec s =
     (case List s of
        (Inl e, s1) \<Rightarrow> Some (Inl (wrapStreamError e t), s1)
      | (Inr sz, s1) \<Rightarrow>
          if sz = 0 then Some (map_val (\<lambda>_. VList []) (ListEnd s1))
          else (case decodeSliceElems fuel elemdec [] s1 of
                  None \<Rightarrow> None
                | Some (Inl e, s2) \<Rightarrow> Some (Inl e, s2)
                | Some (Inr vs, s2) \<Rightarrow> Some (map_val (\<lambda>_. VList vs) (ListEnd s2))))"

text \<open>The loop of \<^verbatim>\<open>decodeListArray\<close> with \<open>n\<close> elements to go; it also tells whether it met EOL.\<close>

fun decodeArrayElems ::
    "nat \<Rightarrow> (Stream \<Rightarrow> rval dres) \<Rightarrow> rval list \<Rightarrow> Stream \<Rightarrow> (bool \<times> rval list) dres" where
  "decodeArrayElems 0 elemdec acc s = Some (Inr (False, acc), s)"
| "decodeArrayElems (Suc n) elemdec acc s =
     (case elemdec s of
        None \<Rightarrow> None
      | Some (Inl e, s1) \<Rightarrow>
          if e = EOL then Some (Inr (True, acc), s1)
          else Some (Inl (addErrorContext e (CtxIndex (length acc))), s1)
      | Some (Inr v, s1) \<Rightarrow> decodeArrayElems n elemdec (acc @ [v]) s1)"

definition decodeListArray ::
    "nat \<Rightarrow> rtype \<Rightarrow> (Stream \<Rightarrow> rval dres) \<Rightarrow> Stream \<Rightarrow> rval dres" where
  "decodeListArray vlen t elemdec s =
     (case List s of
        (Inl e, s1) \<Rightarrow> Some (Inl (wrapStreamError e t), s1)
      | (Inr sz, s1) \<Rightarrow>
          (case decodeArrayElems vlen elemdec [] s1 of
             None \<Rightarrow> None
           | Some (Inl e, s2) \<Rightarrow> Some (Inl e, s2)
           | Some (Inr (short, vs), s2) \<Rightarrow>
               if short then Some (Inl (DecodeError ''input list has too few elements'' t []), s2)
               else Some (map_err (\<lambda>e. wrapStreamError e t) (map_val (\<lambda>_. VList vs) (ListEnd s2)))))"

text \<open>
  \<^verbatim>\<open>decodeInterface\<close>; a list becomes a slice of empty interfaces, anything else a byte slice.
\<close>

fun decodeInterface :: "nat \<Rightarrow> bool \<Rightarrow> Stream \<Rightarrow> rval dres" where
  "decodeInterface 0 noMethods s = None"
| "decodeInterface (Suc fuel) noMethods s =
     (if \<not> noMethods then Some (Inl (ErrNotSerializable (TInterface noMethods)), s)
      else
        (case Kind s of
           (Inl e, s1) \<Rightarrow> Some (Inl e, s1)
         | (Inr (k, sz), s1) \<Rightarrow>
             if k = KList then
               (case decodeListSlice fuel (TSlice (TInterface True)) (decodeInterface fuel True) s1 of
                  None \<Rightarrow> None
                | Some r \<Rightarrow> Some (map_val (VIface (TSlice (TInterface True))) r))
             else Some (map_val (\<lambda>b. VIface (TSlice (TUint 8)) (VBytes b)) (Bytes s1))))"

section \<open>The decoder of a type\<close>

definition Kind_String :: "Kind \<Rightarrow> string" where
  "Kind_String k = (case k of KByte \<Rightarrow> ''Byte'' | KString \<Rightarrow> ''String'' | KList \<Rightarrow> ''List'')"

definition nilKindError :: "rtype \<Rightarrow> Kind \<Rightarrow> Kind \<Rightarrow> rlp_error" where
  "nilKindError t got want =
     DecodeError (''wrong kind of empty value (got '' @ Kind_String got @ '', want ''
                  @ Kind_String want @ '')'') t []"

function decodeValue :: "nat \<Rightarrow> rtype \<Rightarrow> tags \<Rightarrow> Stream \<Rightarrow> rval dres"
  and decodeFields :: "nat \<Rightarrow> rtype \<Rightarrow> field list \<Rightarrow> rval list \<Rightarrow> Stream \<Rightarrow> rval list dres"
where
  "decodeValue fuel TRawValue ts s = Some (decodeRawValue s)"
| "decodeValue fuel TBigInt ts s = Some (decodeBigInt s)"
| "decodeValue fuel (TPtr t) ts s =
     (if t = TBigInt then Some (map_val VPtr (decodeBigInt s))
      else if \<not> nilOK ts then map_option (map_val VPtr) (decodeValue fuel t no_tags s)
      else
        (case Kind s of
           (Inl e, s1) \<Rightarrow> Some (Inl (wrapStreamError e (TPtr t)), s1)
         | (Inr (k, sz), s1) \<Rightarrow>
             if k \<noteq> KByte \<and> sz = 0 then
               (if k \<noteq> nilKind ts then Some (Inl (nilKindError (TPtr t) k (nilKind ts)), s1)
                else Some (Inr VNil, s1\<lparr>skind := None\<rparr>))
             else map_option (map_val VPtr) (decodeValue fuel t no_tags s1)))"
| "decodeValue fuel (TCoder byValue t) ts s =
     (case makeDecoderErr t of
        Some e \<Rightarrow> Some (Inl e, s)
      | None \<Rightarrow> map_option (map_err (\<lambda>e. addTargetType e t)) (decodeValue fuel t no_tags s))"
| "decodeValue fuel (TUint n) ts s = Some (decodeUint n s)"
| "decodeValue fuel TBool ts s = Some (decodeBool s)"
| "decodeValue fuel TString ts s = Some (decodeString s)"
| "decodeValue fuel (TSlice t) ts s =
     (if isByte t then Some (decodeByteSlice (TSlice t) s)
      else if tail ts
      then map_option (map_val VList) (decodeSliceElems fuel (decodeValue fuel t no_tags) [] s)
      else decodeListSlice fuel (TSlice t) (decodeValue fuel t no_tags) s)"
| "decodeValue fuel (TArray n t) ts s =
     (if isByte t then Some (decodeByteArray n (TArray n t) s)
      else decodeListArray n (TArray n t) (decodeValue fuel t no_tags) s)"
| "decodeValue fuel (TStruct nm fs) ts s =
     (case structFields fs of
        Inl e \<Rightarrow> Some (Inl e, s)
      | Inr fl \<Rightarrow>
          (case List s of
             (Inl e, s1) \<Rightarrow> Some (Inl (wrapStreamError e (TStruct nm fs)), s1)
           | (Inr sz, s1) \<Rightarrow>
               (case decodeFields fuel (TStruct nm fs) fl
                       (map (\<lambda>f. zeroValue (f_type f)) fs) s1 of
                  None \<Rightarrow> None
                | Some (Inl e, s2) \<Rightarrow> Some (Inl e, s2)
                | Some (Inr vs, s2) \<Rightarrow>
                    Some (map_err (\<lambda>e. wrapStreamError e (TStruct nm fs))
                            (map_val (\<lambda>_. VStruct vs) (ListEnd s2))))))"
| "decodeValue fuel (TInterface e) ts s = decodeInterface fuel e s"
| "decodeValue fuel (TOther k) ts s = Some (Inl (ErrNotSerializable (TOther k)), s)"
| "decodeFields fuel typ [] vs s = Some (Inr vs, s)"
| "decodeFields fuel typ ((i, n, ts, t) # fl) vs s =
     (case decodeValue fuel t ts s of
        None \<Rightarrow> None
      | Some (Inl e, s1) \<Rightarrow>
          if e = EOL then Some (Inl (DecodeError ''too few elements'' typ []), s1)
          else Some (Inl (addErrorContext e (CtxField n)), s1)
      | Some (Inr v, s1) \<Rightarrow> decodeFields fuel typ fl (vs[i := v]) s1)"
  by pat_completeness auto
termination
  by (relation "measure (\<lambda>x. case x of Inl (fuel, t, ts, s) \<Rightarrow> size t
                          | Inr (fuel, typ, fl, vs, s) \<Rightarrow> size_list (\<lambda>(i, n, ts, t). size t) fl)")
    (simp_all add: structFields_size_list)

section \<open>Entry points\<close>

definition Stream_Decode :: "nat \<Rightarrow> rtype \<Rightarrow> Stream \<Rightarrow> rval dres" where
  "Stream_Decode fuel t s =
     (case makeDecoderErr t of
        Some e \<Rightarrow> Some (Inl e, s)
      | None \<Rightarrow> map_option (map_err (\<lambda>e. addTargetType e t)) (decodeValue fuel t no_tags s))"

definition Decode :: "nat \<Rightarrow> rtype \<Rightarrow> bool \<Rightarrow> bytes \<Rightarrow> (rlp_error + rval) option" where
  "Decode fuel t known b = map_option fst (Stream_Decode fuel t (Reset known b 0))"

definition DecodeBytes :: "nat \<Rightarrow> rtype \<Rightarrow> bytes \<Rightarrow> (rlp_error + rval) option" where
  "DecodeBytes fuel t b =
     (case Stream_Decode fuel t (Reset True b (of_nat (length b))) of
        None \<Rightarrow> None
      | Some (Inl e, s) \<Rightarrow> Some (Inl e)
      | Some (Inr v, s) \<Rightarrow> Some (if rd s \<noteq> [] then Inl ErrMoreThanOneValue else Inr v))"

end
