(* ===== verification/Rlp_Position.thy ===== *)
theory Rlp_Position
  imports Rlp_Stream
begin

text \<open>
  What the operations of a decoding stream do to its position: every successful read moves
  over exactly the canonical encoding of what it returns. A header that \<^verbatim>\<open>Kind\<close> read in
  advance counts as not consumed yet, so the facts do not depend on whether the caller has
  looked at the kind first.
\<close>

section \<open>Positions of a stream\<close>

text \<open>
  The part of a stream that reading moves: the input left, the limit and the stack of
  lists. \<open>eat n\<close> is the effect of reading \<open>n\<close> bytes on it.
\<close>

type_synonym pos = "bytes \<times> u64 \<times> bool \<times> listpos list"

fun bump :: "u64 \<Rightarrow> listpos list \<Rightarrow> listpos list" where
  "bump n [] = []"
| "bump n (t # st) = t\<lparr>lpos := lpos t + n\<rparr> # st"

lemma bump_bump [simp]: "bump m (bump n st) = bump (n + m) st"
  by (cases st) (simp_all add: add.assoc)

lemma bump_0 [simp]: "bump 0 st = st"
  by (cases st) simp_all

lemma bump_eq_Nil [simp]: "bump n st = [] \<longleftrightarrow> st = []"
  by (cases st) simp_all

fun eat :: "nat \<Rightarrow> pos \<Rightarrow> pos" where
  "eat n (b, r, l, st) = (drop n b, if l then r - of_nat n else r, l, bump (of_nat n) st)"

lemma eat_eat [simp]: "eat m (eat n p) = eat (n + m) p"
  by (cases p) (simp add: add.commute diff_diff_eq)

lemma eat_0 [simp]: "eat 0 p = p"
  by (cases p) simp

definition raw_pos :: "Stream \<Rightarrow> pos" where
  "raw_pos s = (rd s, remaining s, limited s, stack s)"

text \<open>The header that \<^verbatim>\<open>Kind\<close> has already read, and the position before it.\<close>

definition peeked :: "Stream \<Rightarrow> bytes" where
  "peeked s =
     (case skind s of
        None \<Rightarrow> []
      | Some KByte \<Rightarrow> [byteval s]
      | Some KString \<Rightarrow> puthead 0x80 0xB7 (ssize s)
      | Some KList \<Rightarrow> puthead 0xC0 0xF7 (ssize s))"

definition position :: "Stream \<Rightarrow> pos" where
  "position s =
     (let n = of_nat (length (peeked s))
      in (peeked s @ rd s, if limited s then remaining s + n else remaining s, limited s,
          bump (- n) (stack s)))"

definition ahead :: "Stream \<Rightarrow> bytes" where
  "ahead s = peeked s @ rd s"

lemma peeked_None [simp]: "skind s = None \<Longrightarrow> peeked s = []"
  by (simp add: peeked_def)

lemma position_None [simp]: "skind s = None \<Longrightarrow> position s = raw_pos s"
  by (simp add: position_def raw_pos_def)

lemma fst_position [simp]: "fst (position s) = ahead s"
  by (simp add: position_def ahead_def Let_def)

lemma eat_peeked: "eat (length (peeked s)) (position s) = raw_pos s"
  by (simp add: position_def raw_pos_def Let_def)

lemma peeked_nonempty: "skind s \<noteq> None \<Longrightarrow> peeked s \<noteq> []"
  by (auto simp: peeked_def puthead_def Let_def split: Kind.splits if_splits)

lemma position_unpeek:
  assumes "rd s0 = peeked s1 @ rd s1" "raw_pos s1 = eat (length (peeked s1)) (raw_pos s0)"
  shows "position s1 = raw_pos s0"
  using assms(2) unfolding position_def raw_pos_def assms(1) by (simp add: Let_def)

section \<open>What a successful read tells\<close>

lemma willRead_None:
  "willRead n s = (None, s1) \<Longrightarrow>
   s1 = s\<lparr>skind := None, remaining := (if limited s then remaining s - n else remaining s),
          stack := bump n (stack s)\<rparr>"
  by (auto simp: willRead_def Let_def split: list.splits if_splits)

lemma willRead_skind: "willRead n s = (e, s1) \<Longrightarrow> skind s1 = None"
  by (auto simp: willRead_def Let_def split: list.splits if_splits)

lemma readByte_Inr:
  assumes "readByte s = (Inr b, s1)"
  shows "rd s = b # rd s1" "raw_pos s1 = eat 1 (raw_pos s)" "skind s1 = None"
  using assms willRead_None [of 1 s]
  by (auto simp: readByte_def raw_pos_def split: prod.splits option.splits list.splits)

lemma readFull_Inr:
  assumes "readFull n s = (Inr b, s1)"
  shows "rd s = b @ rd s1" "length b = n" "raw_pos s1 = eat n (raw_pos s)" "skind s1 = None"
  using assms willRead_None [of "of_nat n" s]
  by (auto simp: readFull_def raw_pos_def split: prod.splits option.splits if_splits)

lemma unat_ucast_byte [simp]: "unat (ucast (b :: byte) :: u64) = unat b"
proof -
  have "unat b < 2 ^ 64" by (rule less_trans [OF unat_byte_less]) simp
  then show ?thesis by (simp add: unsigned_ucast_eq take_bit_eq_mod)
qed

lemma u64_of_nat_be_val: "length b \<le> 8 \<Longrightarrow> unat (of_nat (be_val b) :: u64) = be_val b"
proof -
  assume "length b \<le> 8"
  then have "(256 :: nat) ^ length b \<le> 256 ^ 8" by (rule power_increasing) simp
  then have "be_val b < 2 ^ 64" using be_val_less [of b] by simp
  then show ?thesis by (simp add: unat_of_nat)
qed

lemma readUint_Inr:
  assumes "readUint n s = (Inr v, s1)" "unat n \<le> 8"
  shows "\<exists>b. rd s = b @ rd s1 \<and> length b = unat n \<and> raw_pos s1 = eat (unat n) (raw_pos s)
     \<and> skind s1 = None \<and> unat v = be_val b \<and> (n > 1 \<longrightarrow> hd b \<noteq> 0)"
proof (cases "n = 0 \<or> n = 1")
  case True
  then show ?thesis using assms readByte_Inr [of s]
    by (auto simp: readUint_def raw_pos_def split: prod.splits sum.splits)
next
  case False
  then obtain b where b: "readFull (unat n) s = (Inr b, s1)" "hd b \<noteq> 0" "v = of_nat (be_val b)"
    using assms by (auto simp: readUint_def split: prod.splits sum.splits if_splits)
  then show ?thesis using readFull_Inr [OF b(1)] u64_of_nat_be_val [of b] assms(2)
    by (intro exI [of _ b]) simp
qed

lemma be_bytes_hd_be_val: "be_val b = n \<Longrightarrow> b = [] \<or> hd b \<noteq> 0 \<Longrightarrow> be_bytes n = b"
  using be_bytes_be_val [of b] by (cases b) auto

text \<open>The header of a value: what \<^verbatim>\<open>readKind\<close> accepts is exactly what the encoder writes.\<close>

definition kind_head :: "Kind \<Rightarrow> u64 \<Rightarrow> byte \<Rightarrow> bytes" where
  "kind_head k sz bv =
     (case k of KByte \<Rightarrow> [bv] | KString \<Rightarrow> puthead 0x80 0xB7 sz | KList \<Rightarrow> puthead 0xC0 0xF7 sz)"

lemma puthead_long:
  assumes "length b = n" "0 < n" "n \<le> 8" "unat sz = be_val b" "n > 1 \<longrightarrow> hd b \<noteq> 0" "\<not> sz < 56"
  shows "puthead small large sz = (large + of_nat n) # b"
proof -
  have ge: "56 \<le> unat sz" using assms(6) by (simp add: word_less_nat_alt)
  have "hd b \<noteq> 0"
  proof (cases "n = 1")
    case True
    then show ?thesis using assms ge by (cases b) auto
  qed (use assms in auto)
  then have "be_bytes (unat sz) = b" using assms(4) by (metis be_bytes_hd_be_val)
  moreover have "sz \<noteq> 0" using ge by auto
  ultimately show ?thesis using assms by (simp add: puthead_def Let_def putint_be_bytes)
qed

lemma unat_minus_byte: "(c :: byte) \<le> b \<Longrightarrow> unat (b - c) = unat b - unat c"
  by (rule unat_sub)

lemma readSized_None:
  assumes "readSized k n s = ((k', sz, None), s1)" "0 < unat n" "unat n \<le> 8"
  shows "k' = k \<and> (\<exists>p. puthead small large sz = (large + n) # p \<and> rd s = p @ rd s1
    \<and> raw_pos s1 = eat (length p) (raw_pos s)) \<and> skind s1 = None"
proof -
  from assms(1) have *: "readUint n s = (Inr sz, s1)" "k' = k" "\<not> sz < 56"
    by (auto simp: readSized_def split: prod.splits sum.splits if_splits)
  obtain b where b: "rd s = b @ rd s1" "length b = unat n" "raw_pos s1 = eat (unat n) (raw_pos s)"
      "skind s1 = None" "unat sz = be_val b" "n > 1 \<longrightarrow> hd b \<noteq> 0"
    using readUint_Inr [OF *(1) assms(3)] by auto
  have "puthead small large sz = (large + of_nat (unat n)) # b"
    using puthead_long [OF b(2) assms(2,3) b(5) _ *(3)] b(6) by (simp add: word_less_nat_alt)
  then show ?thesis using * b by simp
qed

lemma puthead_short:
  "unat sz < 56 \<Longrightarrow> puthead small large sz = [small + of_nat (unat sz)]"
  by (simp add: puthead_def word_less_nat_alt)

lemma ucast_byte_of_nat: "of_nat (unat (ucast (b :: byte) :: u64)) = b"
  by simp

lemma readKind_None:
  assumes "readKind s = ((k, sz, None), s1)"
  shows "rd s = kind_head k sz (byteval s1) @ rd s1
    \<and> raw_pos s1 = eat (length (kind_head k sz (byteval s1))) (raw_pos s) \<and> skind s1 = None
    \<and> (k = KByte \<longrightarrow> byteval s1 < 0x80 \<and> sz = 0)"
proof -
  from assms obtain b s' where b: "readByte s = (Inr b, s')"
    by (auto simp: readKind_def split: prod.splits sum.splits)
  note rb = readByte_Inr [OF b]
  let ?s = "s'\<lparr>byteval := 0\<rparr>"
  have raw: "raw_pos ?s = raw_pos s'" "rd ?s = rd s'" by (simp_all add: raw_pos_def)
  consider "b < 0x80" | "\<not> b < 0x80" "b < 0xB8" | "\<not> b < 0xB8" "b < 0xC0"
    | "\<not> b < 0xC0" "b < 0xF8" | "\<not> b < 0xF8" by blast
  then show ?thesis
  proof cases
    case 1
    then show ?thesis using assms b rb by (auto simp: readKind_def Let_def kind_head_def raw_pos_def)
  next
    case 2
    then have "unat (b - 0x80) < 56" by (simp add: unat_minus_byte word_less_nat_alt word_le_nat_alt)
    with 2 show ?thesis using assms b rb
      by (auto simp: readKind_def Let_def kind_head_def raw_pos_def puthead_short)
  next
    case 3
    then have n: "0 < unat (b - 0xB7)" "unat (b - 0xB7) \<le> 8"
      by (simp_all add: unat_minus_byte word_less_nat_alt word_le_nat_alt)
    from 3 have "\<not> b < 0x80" by (simp add: word_less_nat_alt)
    with 3 assms b have rs: "readSized KString (b - 0xB7) ?s = ((k, sz, None), s1)"
      by (simp add: readKind_def Let_def)
    show ?thesis using readSized_None [OF rs n, of "0x80" "0xB7"] rb raw
      by (auto simp: kind_head_def)
  next
    case 4
    then have "unat (b - 0xC0) < 56" by (simp add: unat_minus_byte word_less_nat_alt word_le_nat_alt)
    moreover from 4 have "\<not> b < 0x80" "\<not> b < 0xB8" by (simp_all add: word_less_nat_alt)
    ultimately show ?thesis using 4 assms b rb
      by (auto simp: readKind_def Let_def kind_head_def raw_pos_def puthead_short)
  next
    case 5
    then have n: "0 < unat (b - 0xF7)" "unat (b - 0xF7) \<le> 8"
      using unat_byte_less [of b]
      by (simp_all add: unat_minus_byte word_less_nat_alt word_le_nat_alt del: unat_byte_less)
    from 5 have "\<not> b < 0x80" "\<not> b < 0xB8" "\<not> b < 0xC0" by (simp_all add: word_less_nat_alt)
    with 5 assms b have rs: "readSized KList (b - 0xF7) ?s = ((k, sz, None), s1)"
      by (simp add: readKind_def Let_def)
    show ?thesis using readSized_None [OF rs n, of "0xC0" "0xF7"] rb raw
      by (auto simp: kind_head_def)
  qed
qed

text \<open>The invariant of a cached kind.\<close>

definition kind_ok :: "Stream \<Rightarrow> bool" where
  "kind_ok s \<longleftrightarrow> (skind s = Some KByte \<and> kinderr s = None \<longrightarrow> byteval s < 0x80)
     \<and> (skind s \<noteq> None \<longrightarrow> kinderr s \<noteq> Some EOL)"

lemma kind_ok_None [simp]: "skind s = None \<Longrightarrow> kind_ok s"
  by (simp add: kind_ok_def)

lemma Kind_Inr:
  assumes "Kind s = (Inr (k, sz), s1)" "kind_ok s"
  shows "position s1 = position s" "ahead s1 = ahead s" "skind s1 = Some k" "ssize s1 = sz" "kinderr s1 = None"
    "k = KByte \<longrightarrow> byteval s1 < 0x80" "kind_ok s1"
proof -
  have "position s1 = position s \<and> skind s1 = Some k \<and> ssize s1 = sz \<and> kinderr s1 = None
    \<and> (k = KByte \<longrightarrow> byteval s1 < 0x80)"
  proof (cases "skind s")
    case (Some k')
    with assms show ?thesis
      by (auto simp: Kind_def cachedKind_def kind_ok_def split: option.splits)
  next
    case None
    let ?s0 = "s\<lparr>kinderr := None\<rparr>"
    from None assms(1) obtain s2 where rk: "readKind ?s0 = ((k, sz, None), s2)"
      and s1: "s1 = s2\<lparr>skind := Some k, ssize := sz, kinderr := None\<rparr>"
      by (auto simp: Kind_def Let_def cachedKind_def split: if_splits prod.splits option.splits)
    note r = readKind_None [OF rk]
    have "peeked s1 = kind_head k sz (byteval s2)"
      by (simp add: s1 peeked_def kind_head_def split: Kind.split)
    moreover have "raw_pos s1 = raw_pos s2" "rd s1 = rd s2" by (simp_all add: s1 raw_pos_def)
    ultimately have "position s1 = raw_pos ?s0"
      using r by (intro position_unpeek) simp_all
    then have "position s1 = position s" using None by (simp add: raw_pos_def)
    moreover have "k = KByte \<longrightarrow> byteval s2 < 0x80" using r by blast
    ultimately show ?thesis by (simp add: s1)
  qed
  then show "position s1 = position s" "ahead s1 = ahead s" "skind s1 = Some k" "ssize s1 = sz" "kinderr s1 = None"
    "k = KByte \<longrightarrow> byteval s1 < 0x80" "kind_ok s1"
    by (auto simp: kind_ok_def simp flip: fst_position)
qed

section \<open>End of list\<close>

lemma willRead_Some: "willRead n s = (Some e, s1) \<Longrightarrow> e \<noteq> EOL"
  by (auto simp: willRead_def Let_def split: list.splits if_splits)

lemma readByte_Inl: "readByte s = (Inl e, s1) \<Longrightarrow> e \<noteq> EOL"
  by (auto simp: readByte_def split: prod.splits option.splits list.splits dest: willRead_Some)

lemma readFull_Inl: "readFull n s = (Inl e, s1) \<Longrightarrow> e \<noteq> EOL"
  by (auto simp: readFull_def split: prod.splits option.splits if_splits dest: willRead_Some)

lemma readUint_Inl: "readUint n s = (Inl e, s1) \<Longrightarrow> e \<noteq> EOL"
  by (auto simp: readUint_def split: prod.splits sum.splits if_splits
      dest: readByte_Inl readFull_Inl)

lemma readKind_Some: "readKind s = ((k, sz, Some e), s1) \<Longrightarrow> e \<noteq> EOL"
  by (auto simp: readKind_def readSized_def Let_def split: prod.splits sum.splits if_splits
      dest: readByte_Inl readUint_Inl)

lemma checkSize_not_EOL [simp]: "checkSize s \<noteq> Some EOL"
  by (simp add: checkSize_def split: list.splits)

section \<open>Consuming input\<close>

text \<open>
  \<open>consumes b s s'\<close>: going from \<open>s\<close> to \<open>s'\<close> the input moved over exactly the bytes \<open>b\<close>,
  those of a header read in advance included, and no header is read in advance in \<open>s'\<close>.
\<close>

definition consumes :: "bytes \<Rightarrow> Stream \<Rightarrow> Stream \<Rightarrow> bool" where
  "consumes b s s' \<longleftrightarrow>
     skind s' = None \<and> ahead s = b @ rd s' \<and> raw_pos s' = eat (length b) (position s)"

lemma consumes_trans:
  assumes "consumes b s s1" and "consumes c s1 s2"
  shows "consumes (b @ c) s s2"
  using assms by (simp add: consumes_def ahead_def)

lemma consumes_from: "position s1 = position s \<Longrightarrow> consumes b s1 s' = consumes b s s'"
  by (simp add: consumes_def flip: fst_position)

lemma consumes_refl: "skind s = None \<Longrightarrow> consumes [] s s"
  by (simp add: consumes_def ahead_def)

lemma consumes_kind_ok: "consumes b s s' \<Longrightarrow> kind_ok s'"
  by (simp add: consumes_def)

lemma consumes_ahead: "consumes b s s' \<Longrightarrow> ahead s = b @ ahead s'"
  by (simp add: consumes_def ahead_def)

lemma consumes_rearm: "consumes (peeked s) s (s\<lparr>skind := None\<rparr>)"
  using eat_peeked [of s] by (simp add: consumes_def ahead_def raw_pos_def)

lemma consumes_readFull: "readFull n s = (Inr b, s') \<Longrightarrow> consumes (peeked s @ b) s s'"
  using readFull_Inr [of n s b s'] eat_eat [of n "length (peeked s)" "position s"]
  by (simp add: consumes_def ahead_def eat_peeked)

lemma consumes_readUint:
  assumes "readUint n s = (Inr v, s')" "unat n \<le> 8"
  shows "\<exists>b. consumes (peeked s @ b) s s' \<and> length b = unat n \<and> unat v = be_val b
           \<and> (n > 1 \<longrightarrow> hd b \<noteq> 0)"
  using readUint_Inr [OF assms] eat_eat [of "unat n" "length (peeked s)" "position s"]
  by (fastforce simp: consumes_def ahead_def eat_peeked)

lemma Kind_EOL:
  assumes "Kind s = (Inl EOL, s1)" "kind_ok s"
  shows "consumes [] s s1"
proof (cases "skind s")
  case None
  let ?s0 = "s\<lparr>kinderr := None\<rparr>"
  have "at_list_end ?s0"
  proof (rule ccontr)
    assume "\<not> at_list_end ?s0"
    with None assms(1) show False
      by (auto simp: Kind_def Let_def cachedKind_def dest: readKind_Some
          split: if_splits prod.splits option.splits)
  qed
  then show ?thesis using None assms(1)
    by (auto simp: Kind_def consumes_def ahead_def raw_pos_def)
qed (use assms in \<open>auto simp: Kind_def cachedKind_def kind_ok_def split: option.splits\<close>)

end
