(* ===== verification/Rlp_Values.thy ===== *)
theory Rlp_Values
  imports Rlp_Position
begin

text \<open>
  The operations of a decoding stream that return a string, an integer, a raw value or
  enter and leave a list: each one that succeeds has moved over the canonical encoding of
  what it returned, and one that reports the end of the list has not moved.
\<close>

section \<open>Strings, integers and raw values\<close>

lemma peeked_Kind:
  "skind s = Some k \<Longrightarrow> peeked s = kind_head k (ssize s) (byteval s)"
  by (simp add: peeked_def kind_head_def split: Kind.split)

lemma unat_eq_Suc_0: "unat (x :: u64) = Suc 0 \<longleftrightarrow> x = 1"
  by (metis One_nat_def unat_1 word_unat_eq_iff)

lemma puthead_u64: "puthead small large sz = rlp_head small large (unat sz)"
  using puthead_rlp_head [of "unat sz" small large] u64_bound [of sz] by simp

lemma rlp_Str_head:
  "length b = unat sz \<Longrightarrow> \<not> (sz = 1 \<and> hd b < 128) \<Longrightarrow> puthead 0x80 0xB7 sz @ b = rlp (Str b)"
  by (auto simp: puthead_u64 unat_eq_Suc_0)

lemma Bytes_Inr:
  assumes "Bytes s = (Inr b, s')" "kind_ok s"
  shows "consumes (rlp (Str b)) s s'"
proof -
  from assms(1) obtain k sz s1 where K: "Kind s = (Inr (k, sz), s1)"
    by (auto simp: Bytes_def split: prod.splits sum.splits)
  note Ks = Kind_Inr [OF K assms(2)] peeked_Kind [OF Kind_Inr(3) [OF K assms(2)]]
  show ?thesis
  proof (cases k)
    case KByte
    then have "b = [byteval s1]" "s' = s1\<lparr>skind := None\<rparr>" "byteval s1 < 0x80" 
      "peeked s1 = [byteval s1]"
      using assms(1) K Ks by (simp_all add: Bytes_def kind_head_def)
    then show ?thesis using consumes_rearm [of s1] Ks(1) by (simp add: consumes_from [of s1 s])
  next
    case KString
    then have *: "readFull (unat sz) s1 = (Inr b, s')" "\<not> (sz = 1 \<and> hd b < 128)"
      using assms(1) K by (auto simp: Bytes_def split: prod.splits sum.splits if_splits)
    show ?thesis using consumes_readFull [OF *(1)] readFull_Inr(2) [OF *(1)] *(2) Ks KString
      by (simp add: kind_head_def consumes_from [of s1 s] rlp_Str_head del: rlp.simps)
  next
    case KList
    then show ?thesis using assms(1) K by (auto simp: Bytes_def)
  qed
qed

lemma Bytes_EOL: "Bytes s = (Inl EOL, s') \<Longrightarrow> kind_ok s \<Longrightarrow> consumes [] s s'"
  by (auto simp: Bytes_def dest: Kind_EOL readFull_Inl
      split: prod.splits sum.splits if_splits Kind.splits)

lemma headsize_bound: "headsize sz \<le> 9"
proof -
  have "length (putint sz) \<le> 8" by (simp add: putint_def)
  then show ?thesis using headsize_puthead [of sz 0 0] by (auto simp: puthead_def Let_def split: if_splits)
qed

lemma raw_buflen:
  assumes "headsize sz \<le> unat (of_nat (headsize sz) + sz :: u64)"
  shows "unat (of_nat (headsize sz) + sz :: u64) - headsize sz = unat sz"
proof -
  have h: "unat (of_nat (headsize sz) :: u64) = headsize sz"
    using headsize_bound [of sz] by (simp add: unat_of_nat)
  show ?thesis
  proof (cases "headsize sz + unat sz < 2 ^ 64")
    case True
    then show ?thesis by (simp add: unat_word_ariths h)
  next
    case False
    then have "unat (of_nat (headsize sz) + sz :: u64) = headsize sz + unat sz - 2 ^ 64"
      using h headsize_bound [of sz] u64_bound [of sz] by (simp add: unat_word_ariths mod_if)
    then show ?thesis using assms False u64_bound [of sz] headsize_bound [of sz] by simp
  qed
qed

lemma Raw_Inr:
  assumes "Raw s = (Inr b, s')" "kind_ok s"
  shows "consumes b s s' \<and> b \<noteq> []"
proof -
  from assms(1) obtain k sz s1 where K: "Kind s = (Inr (k, sz), s1)"
    by (auto simp: Raw_def split: prod.splits sum.splits)
  note Ks = Kind_Inr [OF K assms(2)] peeked_Kind [OF Kind_Inr(3) [OF K assms(2)]]
  have ne: "peeked s1 \<noteq> []" using peeked_nonempty Ks(3) by blast
  show ?thesis
  proof (cases "k = KByte")
    case True
    then have "b = [byteval s1]" "s' = s1\<lparr>skind := None\<rparr>" "peeked s1 = [byteval s1]"
      using assms(1) K Ks by (simp_all add: Raw_def kind_head_def)
    then show ?thesis using consumes_rearm [of s1] Ks(1) by (simp add: consumes_from [of s1 s])
  next
    case False
    then obtain c where *: "readFull (unat sz) s1 = (Inr c, s')" "b = peeked s1 @ c"
      using assms(1) K Ks
      by (auto simp: Raw_def Let_def raw_buflen kind_head_def split: prod.splits sum.splits if_splits Kind.splits)
    show ?thesis using consumes_readFull [OF *(1)] *(2) Ks ne
      by (simp add: consumes_from [of s1 s])
  qed
qed

lemma Raw_EOL: "Raw s = (Inl EOL, s') \<Longrightarrow> kind_ok s \<Longrightarrow> consumes [] s s'"
  by (auto simp: Raw_def Let_def dest: Kind_EOL readFull_Inl
      split: prod.splits sum.splits if_splits Kind.splits)

lemma Stream_uint_Inr:
  assumes "Stream_uint maxbits s = (Inr v, s')" "kind_ok s" "maxbits \<le> 64"
  shows "consumes (rlp (Str (be_bytes (unat v)))) s s'"
proof -
  from assms(1) obtain k sz s1 where K: "Kind s = (Inr (k, sz), s1)"
    by (auto simp: Stream_uint_def split: prod.splits sum.splits)
  note Ks = Kind_Inr [OF K assms(2)] peeked_Kind [OF Kind_Inr(3) [OF K assms(2)]]
  show ?thesis
  proof (cases k)
    case KByte
    then have v: "v = ucast (byteval s1)" "byteval s1 \<noteq> 0" "s' = s1\<lparr>skind := None\<rparr>"
      using assms(1) K by (auto simp: Stream_uint_def split: if_splits)
    then have "be_bytes (unat v) = [byteval s1]"
      using be_bytes_be_val [of "[byteval s1]"] by simp
    then show ?thesis using v KByte Ks consumes_rearm [of s1]
      by (simp add: kind_head_def consumes_from [of s1 s])
  next
    case KString
    then have *: "readUint (ucast sz) s1 = (Inr v, s')" "unat sz \<le> maxbits div 8" "\<not> (sz > 0 \<and> v < 128)"
      using assms(1) K by (auto simp: Stream_uint_def split: prod.splits sum.splits if_splits)
    have sz8: "unat sz \<le> 8" using *(2) assms(3) by simp
    then have u: "unat (ucast sz :: byte) = unat sz" by (simp add: unsigned_ucast_eq take_bit_eq_mod)
    obtain b where b: "consumes (peeked s1 @ b) s1 s'" "length b = unat sz" "unat v = be_val b"
        "unat sz > 1 \<longrightarrow> hd b \<noteq> 0"
      using consumes_readUint [OF *(1)] sz8 u by (auto simp: word_less_nat_alt)
    have one: "unat sz = 1 \<Longrightarrow> \<not> hd b < 128"
    proof -
      assume 1: "unat sz = 1"
      then obtain x where "b = [x]" using b(2) by (auto simp: length_Suc_conv)
      with 1 *(3) b(3) show "\<not> hd b < 128" by (simp add: word_less_nat_alt)
    qed
    have "b = [] \<or> hd b \<noteq> 0"
    proof (cases "unat sz \<le> 1")
      case True
      then show ?thesis using one b(2) by (cases b) (auto simp: word_less_nat_alt le_Suc_eq)
    qed (use b(4) in simp)
    then have "be_bytes (unat v) = b" using b(3) be_bytes_hd_be_val by metis
    then show ?thesis using b(1,2) Ks KString one
      by (simp add: kind_head_def consumes_from [of s1 s] rlp_Str_head unat_eq_Suc_0 del: rlp.simps)
  next
    case KList
    then show ?thesis using assms(1) K by (auto simp: Stream_uint_def)
  qed
qed

lemma Stream_uint_EOL: "Stream_uint n s = (Inl EOL, s') \<Longrightarrow> kind_ok s \<Longrightarrow> consumes [] s s'"
  by (auto simp: Stream_uint_def dest: Kind_EOL readUint_Inl
      split: prod.splits sum.splits if_splits Kind.splits)

section \<open>Lists\<close>

lemma List_Inr:
  assumes "List s = (Inr sz, s1)" "kind_ok s"
  shows "skind s1 = None" "ahead s = rlp_head 0xC0 0xF7 (unat sz) @ rd s1"
    "\<exists>st. eat (length (rlp_head 0xC0 0xF7 (unat sz))) (position s) = (rd s1, remaining s1, limited s1, st)
        \<and> stack s1 = \<lparr>lpos = 0, lsize = sz\<rparr> # st"
proof -
  from assms(1) obtain s0 where K: "Kind s = (Inr (KList, sz), s0)"
    and s1: "s1 = s0\<lparr>stack := \<lparr>lpos = 0, lsize = sz\<rparr> # stack s0, skind := None, ssize := 0\<rparr>"
    by (auto simp: List_def split: prod.splits sum.splits if_splits)
  note Ks = Kind_Inr [OF K assms(2)] peeked_Kind [OF Kind_Inr(3) [OF K assms(2)]]
  have p: "peeked s0 = rlp_head 0xC0 0xF7 (unat sz)"
    using Ks by (simp add: kind_head_def puthead_u64)
  show "skind s1 = None" by (simp add: s1)
  show "ahead s = rlp_head 0xC0 0xF7 (unat sz) @ rd s1"
    using Ks(2) p by (simp add: s1 ahead_def)
  show "\<exists>st. eat (length (rlp_head 0xC0 0xF7 (unat sz))) (position s) =
      (rd s1, remaining s1, limited s1, st) \<and> stack s1 = \<lparr>lpos = 0, lsize = sz\<rparr> # st"
    using eat_peeked [of s0] Ks(1) p by (simp add: s1 raw_pos_def)
qed

lemma List_EOL: "List s = (Inl EOL, s') \<Longrightarrow> kind_ok s \<Longrightarrow> consumes [] s s'"
  by (auto simp: List_def dest: Kind_EOL split: prod.splits sum.splits if_splits)

lemma ListEnd_not_EOL: "ListEnd s \<noteq> (Inl EOL, s')"
  by (auto simp: ListEnd_def split: list.splits)

lemma List_ListEnd:
  assumes "List s = (Inr sz, s1)" "kind_ok s" "consumes b s1 s2" "ListEnd s2 = (Inr u, s3)"
    "length (ahead s) < 2 ^ 64"
  shows "consumes (rlp_head 0xC0 0xF7 (length b) @ b) s s3"
proof -
  note l = List_Inr [OF assms(1,2)]
  obtain st where st: "eat (length (rlp_head 0xC0 0xF7 (unat sz))) (position s) =
      (rd s1, remaining s1, limited s1, st)" "stack s1 = \<lparr>lpos = 0, lsize = sz\<rparr> # st"
    using l(3) by blast
  have r2: "raw_pos s2 = eat (length b) (raw_pos s1)" "rd s1 = b @ rd s2"
    using assms(3) l(1) by (simp_all add: consumes_def ahead_def)
  then have stack2: "stack s2 = \<lparr>lpos = of_nat (length b), lsize = sz\<rparr> # st"
    using st(2) by (simp add: raw_pos_def)
  then have sz: "sz = of_nat (length b)"
    and s3: "s3 = s2\<lparr>stack := bump sz st, skind := None, ssize := 0\<rparr>"
    using assms(4) by (auto simp: ListEnd_def split: if_splits list.splits)
  have "length b < 2 ^ 64" using assms(5) l(2) r2(2) by simp
  then have len: "unat sz = length b" using sz by (simp add: unat_of_nat)
  have "raw_pos s3 = eat (length b) (rd s1, remaining s1, limited s1, st)"
    using r2 by (simp add: raw_pos_def s3 sz)
  also have "\<dots> = eat (length (rlp_head 0xC0 0xF7 (length b) @ b)) (position s)"
    unfolding st(1) [symmetric] len by simp
  finally show ?thesis using l(2) r2(2) len by (simp add: consumes_def s3)
qed

end
