(* ===== verification/Rlp_Sound.thy ===== *)
theory Rlp_Sound
  imports Rlp_Decode Rlp_Values
begin

text \<open>
  The decoders of \<^verbatim>\<open>rlp/decode.go\<close> against the encoding: a decoder that succeeds has moved
  over exactly the encoding of the value it returns. The lemmas on slices and arrays are
  proved once for any element decoder with that contract.
\<close>

section \<open>Sound decoders\<close>

lemma addErrorContext_EOL [simp]:
  "addErrorContext e c = EOL \<longleftrightarrow> e = EOL" "EOL = addErrorContext e c \<longleftrightarrow> e = EOL"
  by (cases e; simp)+

lemma addTargetType_EOL [simp]:
  "addTargetType e t = EOL \<longleftrightarrow> e = EOL" "EOL = addTargetType e t \<longleftrightarrow> e = EOL"
  by (cases e; simp)+

lemma wrapStreamError_EOL [simp]:
  "wrapStreamError e t = EOL \<longleftrightarrow> e = EOL" "EOL = wrapStreamError e t \<longleftrightarrow> e = EOL"
  by (cases e; simp add: wrapStreamError_def)+

lemma map_val_Inr [simp]: "map_val f r = (Inr y, s) \<longleftrightarrow> (\<exists>x. r = (Inr x, s) \<and> y = f x)"
  by (auto simp: map_val_def split: prod.splits sum.splits)

lemma map_val_Inl [simp]: "map_val f r = (Inl e, s) \<longleftrightarrow> r = (Inl e, s)"
  by (auto simp: map_val_def split: prod.splits sum.splits)

lemma map_err_Inr [simp]: "map_err f r = (Inr y, s) \<longleftrightarrow> r = (Inr y, s)"
  by (auto simp: map_err_def split: prod.splits sum.splits)

lemma map_err_Inl [simp]: "map_err f r = (Inl e, s) \<longleftrightarrow> (\<exists>e'. r = (Inl e', s) \<and> e = f e')"
  by (auto simp: map_err_def split: prod.splits sum.splits)

lemma consumes_less:
  "consumes b s s' \<Longrightarrow> length (ahead s) < n \<Longrightarrow> length (ahead s') < n"
  by (simp add: consumes_ahead)

text \<open>
  The contract between a decoder of values of type \<open>t\<close> and the loops that call it: a
  successful call moves over the encoding of the value it returns, which is not empty, and
  a call that meets the end of the list moves over nothing.
\<close>

locale sound_decoder =
  fixes dec :: "Stream \<Rightarrow> rval dres" and addr :: bool and t :: rtype
  assumes dec_Inr: "dec s = Some (Inr v, s') \<Longrightarrow> kind_ok s \<Longrightarrow> length (ahead s) < 2 ^ 64 \<Longrightarrow>
      \<exists>is. items_of addr t no_tags v = Inr is \<and> consumes (rlps is) s s' \<and> rlps is \<noteq> []"
    and dec_EOL: "dec s = Some (Inl EOL, s') \<Longrightarrow> kind_ok s \<Longrightarrow> length (ahead s) < 2 ^ 64 \<Longrightarrow>
      consumes [] s s'"
begin

lemma decodeSliceElems_Inr:
  "decodeSliceElems fuel dec acc s = Some (Inr vs, s') \<Longrightarrow> kind_ok s \<Longrightarrow> length (ahead s) < 2 ^ 64 \<Longrightarrow>
   \<exists>ws is. vs = acc @ ws \<and> items_elems addr t ws = Inr is \<and> consumes (rlps is) s s'"
proof (induction fuel arbitrary: acc s)
  case (Suc fuel)
  from Suc.prems(1) obtain r s1 where d: "dec s = Some (r, s1)" by (auto split: option.splits)
  show ?case
  proof (cases r)
    case (Inl e)
    then have "e = EOL" "vs = acc" "s' = s1" using Suc.prems(1) d by (auto split: if_splits)
    then show ?thesis using dec_EOL [of s s1] d Inl Suc.prems(2,3)
      by (intro exI [of _ "[]"]) simp
  next
    case (Inr v)
    obtain xs where xs: "items_of addr t no_tags v = Inr xs" "consumes (rlps xs) s s1"
      using dec_Inr d Inr Suc.prems by blast
    have "decodeSliceElems fuel dec (acc @ [v]) s1 = Some (Inr vs, s')"
      using Suc.prems(1) d Inr by simp
    from Suc.IH [OF this consumes_kind_ok [OF xs(2)] consumes_less [OF xs(2) Suc.prems(3)]]
    obtain ws ys where "vs = (acc @ [v]) @ ws" "items_elems addr t ws = Inr ys" "consumes (rlps ys) s1 s'"
      by blast
    then show ?thesis using xs consumes_trans [of "rlps xs" s s1 "rlps ys" s']
      by (intro exI [of _ "v # ws"]) simp
  qed
qed simp

lemma decodeArrayElems_Inr:
  "decodeArrayElems n dec acc s = Some (Inr (False, vs), s') \<Longrightarrow> kind_ok s \<Longrightarrow> skind s = None \<Longrightarrow>
   length (ahead s) < 2 ^ 64 \<Longrightarrow>
   \<exists>ws is. vs = acc @ ws \<and> length ws = n \<and> items_elems addr t ws = Inr is \<and> consumes (rlps is) s s'"
proof (induction n arbitrary: acc s)
  case 0
  then show ?case by (simp add: consumes_refl)
next
  case (Suc n)
  from Suc.prems(1) obtain v s1 where d: "dec s = Some (Inr v, s1)"
    by (auto split: option.splits sum.splits if_splits)
  obtain xs where xs: "items_of addr t no_tags v = Inr xs" "consumes (rlps xs) s s1"
    using dec_Inr d Suc.prems by blast
  have *: "decodeArrayElems n dec (acc @ [v]) s1 = Some (Inr (False, vs), s')"
    using Suc.prems(1) d by simp
  have "skind s1 = None" using xs(2) by (simp add: consumes_def)
  from Suc.IH [OF * consumes_kind_ok [OF xs(2)] this consumes_less [OF xs(2) Suc.prems(4)]]
  obtain ws ys where "vs = (acc @ [v]) @ ws" "length ws = n" "items_elems addr t ws = Inr ys"
      "consumes (rlps ys) s1 s'" by blast
  then show ?case using xs consumes_trans [of "rlps xs" s s1 "rlps ys" s']
    by (intro exI [of _ "v # ws"]) simp
qed

lemma decodeListSlice_Inr:
  assumes "decodeListSlice fuel lt dec s = Some (Inr v, s')" "kind_ok s" "length (ahead s) < 2 ^ 64"
  shows "\<exists>vs is. v = VList vs \<and> items_elems addr t vs = Inr is \<and> consumes (rlp (Lst is)) s s'"
proof -
  from assms(1) obtain sz s1 where l: "List s = (Inr sz, s1)"
    by (auto simp: decodeListSlice_def split: prod.splits sum.splits)
  note l' = List_Inr [OF l assms(2)]
  have len: "length (ahead s1) < 2 ^ 64" using l'(1,2) assms(3) by (simp add: ahead_def)
  show ?thesis
  proof (cases "sz = 0")
    case True
    then have "v = VList []" "ListEnd s1 = (Inr (), s')"
      using assms(1) l by (auto simp: decodeListSlice_def)
    then show ?thesis using List_ListEnd [OF l assms(2) consumes_refl [OF l'(1)] _ assms(3)]
      by simp
  next
    case False
    then obtain vs s2 where e: "decodeSliceElems fuel dec [] s1 = Some (Inr vs, s2)"
        "ListEnd s2 = (Inr (), s')" "v = VList vs"
      using assms(1) l
      by (auto simp: decodeListSlice_def split: option.splits sum.splits)
    obtain xs where xs: "items_elems addr t vs = Inr xs" "consumes (rlps xs) s1 s2"
      using decodeSliceElems_Inr [OF e(1) kind_ok_None [OF l'(1)] len] by auto
    then show ?thesis using List_ListEnd [OF l assms(2) xs(2) e(2) assms(3)] e(3) by simp
  qed
qed

lemma decodeListArray_Inr:
  assumes "decodeListArray n lt dec s = Some (Inr v, s')" "kind_ok s" "length (ahead s) < 2 ^ 64"
  shows "\<exists>vs is. v = VList vs \<and> length vs = n \<and> items_elems addr t vs = Inr is
           \<and> consumes (rlp (Lst is)) s s'"
proof -
  from assms(1) obtain sz s1 where l: "List s = (Inr sz, s1)"
    by (auto simp: decodeListArray_def split: prod.splits sum.splits)
  note l' = List_Inr [OF l assms(2)]
  have len: "length (ahead s1) < 2 ^ 64" using l'(1,2) assms(3) by (simp add: ahead_def)
  from assms(1) l obtain vs s2 where e: "decodeArrayElems n dec [] s1 = Some (Inr (False, vs), s2)"
      "ListEnd s2 = (Inr (), s')" "v = VList vs"
    by (auto simp: decodeListArray_def split: option.splits sum.splits prod.splits if_splits)
  obtain xs where xs: "length vs = n" "items_elems addr t vs = Inr xs" "consumes (rlps xs) s1 s2"
    using decodeArrayElems_Inr [OF e(1) kind_ok_None [OF l'(1)] l'(1) len] by auto
  then show ?thesis using List_ListEnd [OF l assms(2) xs(3) e(2) assms(3)] e(3) by simp
qed

end

lemma decodeSliceElems_not_EOL: "decodeSliceElems fuel dec acc s \<noteq> Some (Inl EOL, s')"
proof (induction fuel arbitrary: acc s)
  case (Suc fuel)
  then show ?case by (auto split: option.splits sum.splits)
qed simp

lemma decodeArrayElems_not_EOL: "decodeArrayElems n dec acc s \<noteq> Some (Inl EOL, s')"
proof (induction n arbitrary: acc s)
  case (Suc n)
  then show ?case by (auto split: option.splits sum.splits)
qed simp

lemma decodeListSlice_EOL:
  "decodeListSlice fuel lt dec s = Some (Inl EOL, s') \<Longrightarrow> kind_ok s \<Longrightarrow> consumes [] s s'"
  by (auto simp: decodeListSlice_def ListEnd_not_EOL decodeSliceElems_not_EOL dest: List_EOL
      split: prod.splits sum.splits option.splits if_splits)

lemma decodeListArray_EOL:
  "decodeListArray n lt dec s = Some (Inl EOL, s') \<Longrightarrow> kind_ok s \<Longrightarrow> consumes [] s s'"
  by (auto simp: decodeListArray_def ListEnd_not_EOL decodeArrayElems_not_EOL dest: List_EOL
      split: prod.splits sum.splits option.splits if_splits)

section \<open>The decoder of interface values\<close>

lemma rlp_head_nonempty [simp]: "rlp_head a b n \<noteq> []"
  by (simp add: rlp_head_def)

lemma rlp_Str_nonempty [simp]: "rlp (Str b) \<noteq> []"
  by auto

lemma decodeInterface_sound: "sound_decoder (decodeInterface fuel e) addr (TInterface e)"
proof (induction fuel arbitrary: e addr)
  case 0
  show ?case by unfold_locales simp_all
next
  case (Suc fuel)
  note IH = Suc.IH [of True True]
  show ?case
  proof
    fix s v s'
    assume a: "decodeInterface (Suc fuel) e s = Some (Inr v, s')" "kind_ok s" "length (ahead s) < 2 ^ 64"
    then obtain k sz s1 where K: "Kind s = (Inr (k, sz), s1)" and e: "e"
      by (auto split: if_splits prod.splits sum.splits)
    note Ks = Kind_Inr [OF K a(2)]
    show "\<exists>is. items_of addr (TInterface e) no_tags v = Inr is \<and> consumes (rlps is) s s' \<and> rlps is \<noteq> []"
    proof (cases "k = KList")
      case True
      with a(1) K e obtain u where
        u: "decodeListSlice fuel (TSlice (TInterface True)) (decodeInterface fuel True) s1 = Some (Inr u, s')"
          "v = VIface (TSlice (TInterface True)) u"
        by (auto split: option.splits)
      show ?thesis
        using sound_decoder.decodeListSlice_Inr [OF IH u(1) Ks(7)] a(3) Ks(1,2) u(2)
        by (auto simp: consumes_from [OF Ks(1)] no_tags_def as_list_def)
    next
      case False
      with a(1) K e obtain b where b: "Bytes s1 = (Inr b, s')"
          "v = VIface (TSlice (TUint 8)) (VBytes b)" by auto
      show ?thesis using Bytes_Inr [OF b(1) Ks(7)] b(2)
        by (simp add: consumes_from [OF Ks(1)] bytes_items_def del: rlp.simps)
    qed
  next
    fix s s'
    assume a: "decodeInterface (Suc fuel) e s = Some (Inl EOL, s')" "kind_ok s"
    show "consumes [] s s'"
    proof (cases "Kind s")
      case (Pair r s1)
      show ?thesis
      proof (cases r)
        case (Inl x)
        then show ?thesis using a Pair Kind_EOL [of s s'] by (auto split: if_splits)
      next
        case (Inr y)
        obtain k sz where y: "y = (k, sz)" by force
        note Ks = Kind_Inr [OF Pair [unfolded Inr y] a(2)]
        from a(1) Pair Inr y have "consumes [] s1 s'"
          using decodeListSlice_EOL Bytes_EOL Ks(7)
          by (auto split: if_splits option.splits)
        then show ?thesis by (simp add: consumes_from [OF Ks(1)])
      qed
    qed
  qed
qed

interpretation iface: sound_decoder "decodeInterface fuel e" addr "TInterface e"
  by (rule decodeInterface_sound)

section \<open>The decoder of a type\<close>

text \<open>
  Types without an array of one byte, whose decoder does not move over an encoded zero
  byte, and with integers of at most 64 bits, as in Go.
\<close>

function regular :: "rtype \<Rightarrow> bool" where
  "regular TRawValue = True"
| "regular TBigInt = True"
| "regular (TPtr t) = regular t"
| "regular (TCoder bv t) = regular t"
| "regular (TUint n) = (n \<le> 64)"
| "regular TBool = True"
| "regular TString = True"
| "regular (TSlice t) = regular t"
| "regular (TArray n t) = (regular t \<and> \<not> (n = 1 \<and> isByte t))"
| "regular (TStruct nm fs) = (\<forall>f \<in> set fs. regular (f_type f))"
| "regular (TInterface e) = True"
| "regular (TOther k) = True"
  by pat_completeness auto
termination
  by (relation "measure size") (simp_all add: size_field)

lemma makeDecoderErr_eq: "makeDecoderErr t = makeWriterErr t"
proof (induction t rule: makeDecoderErr.induct)
  case (10 nm fs)
  then show ?case
    by (auto split: sum.split intro!: arg_cong [where f = "first_field_err (TStruct nm fs)"])
qed simp_all

definition value_sound :: "rtype \<Rightarrow> tags \<Rightarrow> Stream \<Rightarrow> rlp_error + rval \<Rightarrow> Stream \<Rightarrow> bool" where
  "value_sound t ts s r s' =
     (case r of
        Inl e \<Rightarrow> e = EOL \<longrightarrow> consumes [] s s'
      | Inr v \<Rightarrow> \<exists>is. items_of True t ts v = Inr is \<and> consumes (rlps is) s s'
                    \<and> (tail ts \<or> rlps is \<noteq> []))"

lemma value_soundI:
  assumes "r = Inl EOL \<Longrightarrow> consumes [] s s'"
    and "\<And>v. r = Inr v \<Longrightarrow> \<exists>i. items_of True t ts v = Inr [i] \<and> consumes (rlp i) s s' \<and> rlp i \<noteq> []"
  shows "value_sound t ts s r s'"
  using assms by (cases r) (fastforce simp: value_sound_def)+

lemma sound_decoderI:
  assumes "\<And>s r s'. dec s = Some (r, s') \<Longrightarrow> kind_ok s \<Longrightarrow> length (ahead s) < 2 ^ 64 \<Longrightarrow>
      value_sound t no_tags s r s'"
  shows "sound_decoder dec True t"
  using assms by unfold_locales (force simp: value_sound_def no_tags_def)+

lemma decodeBigInt_sound:
  assumes "decodeBigInt s = (r, s')" "kind_ok s"
  shows "r = Inl EOL \<Longrightarrow> consumes [] s s'"
    and "r = Inr v \<Longrightarrow> \<exists>i. 0 \<le> i \<and> v = VBig i \<and> consumes (rlp (Str (be_bytes (nat i)))) s s'"
proof -
  show "consumes [] s s'" if "r = Inl EOL"
    using that assms by (auto simp: decodeBigInt_def Bytes_EOL split: prod.splits sum.splits if_splits)
  show "\<exists>i. 0 \<le> i \<and> v = VBig i \<and> consumes (rlp (Str (be_bytes (nat i)))) s s'" if "r = Inr v"
  proof -
    from that assms(1) obtain b where b: "Bytes s = (Inr b, s')" "b = [] \<or> hd b \<noteq> 0" "v = VBig (int (be_val b))"
      by (auto simp: decodeBigInt_def split: prod.splits sum.splits if_splits)
    then show ?thesis using Bytes_Inr [OF b(1) assms(2)] be_bytes_be_val [OF b(2)]
      by (intro exI [of _ "int (be_val b)"]) simp
  qed
qed

lemma decodeByteArray_sound:
  assumes "decodeByteArray n t s = (r, s')" "kind_ok s" "n \<noteq> 1"
  shows "r = Inl EOL \<Longrightarrow> consumes [] s s'"
    and "r = Inr v \<Longrightarrow> \<exists>b. v = VBytes b \<and> length b = n \<and> consumes (rlp (Str b)) s s'"
proof -
  show "consumes [] s s'" if "r = Inl EOL"
    using that assms
    by (auto simp: decodeByteArray_def split: prod.splits sum.splits if_splits Kind.splits
        dest: Kind_EOL readFull_Inl)
  show "\<exists>b. v = VBytes b \<and> length b = n \<and> consumes (rlp (Str b)) s s'" if v: "r = Inr v"
  proof -
    from v assms(1,3) obtain sz s1 b where K: "Kind s = (Inr (KString, sz), s1)" and n: "n = unat sz"
      and b: "readFull n s1 = (Inr b, s')" "\<not> (sz = 1 \<and> hd b < 128)" "v = VBytes b"
      by (auto simp: decodeByteArray_def split: prod.splits sum.splits if_splits Kind.splits)
    note Ks = Kind_Inr [OF K assms(2)] peeked_Kind [OF Kind_Inr(3) [OF K assms(2)]]
    show ?thesis using consumes_readFull [OF b(1)] readFull_Inr(2) [OF b(1)] b(2,3) n Ks
      by (simp add: kind_head_def consumes_from [OF Ks(1)] rlp_Str_head del: rlp.simps)
  qed
qed

lemma decodeBool_sound:
  assumes "Bool s = (r, s')" "kind_ok s"
  shows "r = Inl EOL \<Longrightarrow> consumes [] s s'"
    and "r = Inr b \<Longrightarrow> consumes (rlp (Str (if b then [1] else []))) s s'"
proof -
  show "consumes [] s s'" if "r = Inl EOL"
    using that assms by (auto simp: Bool_def Stream_uint_EOL split: prod.splits sum.splits if_splits)
  show "consumes (rlp (Str (if b then [1] else []))) s s'" if "r = Inr b"
  proof -
    from that assms(1) obtain u where u: "Stream_uint 8 s = (Inr u, s')" "u = (if b then 1 else 0)"
      by (auto simp: Bool_def split: prod.splits sum.splits if_splits)
    have "be_bytes (unat u) = (if b then [1] else [])"
      using u(2) be_bytes_be_val [of "[1]"] by auto
    then show ?thesis using Stream_uint_Inr [OF u(1) assms(2)] by simp
  qed
qed

definition fields_sound :: "field list \<Rightarrow> rval list \<Rightarrow> Stream \<Rightarrow> rval list \<Rightarrow> Stream \<Rightarrow> bool" where
  "fields_sound fl vs s vs' s' \<longleftrightarrow>
     length vs' = length vs \<and> (\<forall>j. j \<notin> fst ` set fl \<longrightarrow> vs' ! j = vs ! j)
     \<and> (\<exists>is. items_fields True fl vs' = Inr is \<and> consumes (rlps is) s s')"

definition fields_ok :: "field list \<Rightarrow> nat \<Rightarrow> bool" where
  "fields_ok fl n \<longleftrightarrow> distinct (map fst fl) \<and>
     (\<forall>(i, nm, ts, t) \<in> set fl. i < n \<and> regular t \<and> (tail ts \<longrightarrow> is_slice_kind t))"

lemma parseTagParts_tail:
  "parseTagParts f fi lp ps ts = Inr ts' \<Longrightarrow> tail ts' \<Longrightarrow> tail ts \<or> is_slice_kind (f_type f)"
proof (induction ps arbitrary: ts)
  case (Cons p ps)
  from Cons.prems show ?case by (auto simp: Let_def split: if_splits dest!: Cons.IH)
qed simp

lemma structFields_ok:
  assumes "structFields fs = Inr fl" "regular (TStruct nm fs)"
  shows "fields_ok fl (length fs)"
proof -
  have "distinct (map fst fl)" using structFields_sorted [OF assms(1)] 
    by (simp add: strict_sorted_iff)
  moreover have "i < length fs \<and> regular t \<and> (tail ts \<longrightarrow> is_slice_kind t)"
    if "(i, n, ts, t) \<in> set fl" for i n ts t
    using structFields_nth [OF assms(1) that] assms(2)
    by (auto simp: parseStructTag_def no_tags_def dest: parseTagParts_tail)
  ultimately show ?thesis by (auto simp: fields_ok_def)
qed

lemma fields_sound_Cons:
  assumes "items_of True t ts v = Inr xs" "consumes (rlps xs) s s1" "fields_ok ((i, n, ts, t) # fl) (length vs)"
    and "fields_sound fl (vs[i := v]) s1 vs' s'"
  shows "fields_sound ((i, n, ts, t) # fl) vs s vs' s'"
proof -
  from assms(4) obtain ys where ys: "items_fields True fl vs' = Inr ys" "consumes (rlps ys) s1 s'"
    and vs': "length vs' = length vs" "\<And>j. j \<notin> fst ` set fl \<Longrightarrow> vs' ! j = vs[i := v] ! j"
    by (auto simp: fields_sound_def)
  have i: "i \<notin> fst ` set fl" "i < length vs" using assms(3) by (auto simp: fields_ok_def)
  then have "vs' ! i = v" using vs' by simp
  then show ?thesis using assms(1) ys vs' i consumes_trans [OF assms(2) ys(2)]
    by (auto simp: fields_sound_def)
qed

lemma decodeFields_not_EOL: "decodeFields fuel tp fl vs s \<noteq> Some (Inl EOL, s')"
proof (induction fl arbitrary: vs s)
  case (Cons f fl)
  obtain i n ts t where "f = (i, n, ts, t)" by (cases f)
  then show ?case using Cons.IH by (auto split: option.splits sum.splits)
qed simp

lemma decodeStruct_sound:
  assumes "structFields fs = Inr fl" "regular (TStruct nm fs)"
    and IH: "\<And>s1 sz vs s2. List s = (Inr sz, s1) \<Longrightarrow>
      decodeFields fuel (TStruct nm fs) fl (map (\<lambda>f. zeroValue (f_type f)) fs) s1 = Some (Inr vs, s2) \<Longrightarrow>
      skind s1 = None \<Longrightarrow> length (ahead s1) < 2 ^ 64 \<Longrightarrow>
      fields_sound fl (map (\<lambda>f. zeroValue (f_type f)) fs) s1 vs s2"
    and "decodeValue fuel (TStruct nm fs) ts s = Some (r, s')" "kind_ok s" "length (ahead s) < 2 ^ 64"
  shows "value_sound (TStruct nm fs) ts s r s'"
proof (rule value_soundI)
  assume "r = Inl EOL"
  then show "consumes [] s s'" using assms(1,4,5)
    by (auto simp: decodeFields_not_EOL ListEnd_not_EOL dest: List_EOL
        split: prod.splits sum.splits option.splits)
next
  fix v assume v: "r = Inr v"
  with assms(1,4) obtain sz s1 vs s2 where *: "List s = (Inr sz, s1)"
      "decodeFields fuel (TStruct nm fs) fl (map (\<lambda>f. zeroValue (f_type f)) fs) s1 = Some (Inr vs, s2)"
      "ListEnd s2 = (Inr (), s')" "v = VStruct vs"
    by (auto split: prod.splits sum.splits option.splits)
  note l = List_Inr [OF *(1) assms(5)]
  have len: "length (ahead s1) < 2 ^ 64" using l(1,2) assms(6) by (simp add: ahead_def)
  obtain xs where xs: "items_fields True fl vs = Inr xs" "consumes (rlps xs) s1 s2"
    using IH [OF *(1,2) l(1) len] by (auto simp: fields_sound_def)
  show "\<exists>i. items_of True (TStruct nm fs) ts v = Inr [i] \<and> consumes (rlp i) s s' \<and> rlp i \<noteq> []"
    using List_ListEnd [OF *(1) assms(5) xs(2) *(3) assms(6)] xs(1) assms(1) *(4)
    by (simp add: as_list_def)
qed

lemma parseTagParts_Inl: "parseTagParts f fi lp ps ts \<noteq> Inl EOL" "parseTagParts f fi lp ps ts \<noteq> Inl RuntimePanic"
  by (induction ps arbitrary: ts; auto simp: Let_def)+

lemma structFieldsFrom_Inl:
  "structFieldsFrom lp i fs \<noteq> Inl EOL" "structFieldsFrom lp i fs \<noteq> Inl RuntimePanic"
  by (induction lp i fs rule: structFieldsFrom.induct;
      auto simp: parseStructTag_def parseTagParts_Inl split: sum.splits if_splits)+

lemma structFields_Inl: "structFields fs \<noteq> Inl EOL" "structFields fs \<noteq> Inl RuntimePanic"
  by (simp_all add: structFields_def structFieldsFrom_Inl)

lemma first_field_err_Some: "first_field_err t es \<noteq> Some EOL" "first_field_err t es \<noteq> Some RuntimePanic"
  by (induction t es rule: first_field_err.induct; simp)+

lemma makeDecoderErr_Some: "makeDecoderErr t \<noteq> Some EOL" "makeDecoderErr t \<noteq> Some RuntimePanic"
  by (induction t rule: makeDecoderErr.induct;
      auto simp: structFields_Inl first_field_err_Some split: sum.split)+

lemma map_val_eq: "map_val f (r, s) = (map_sum id f r, s)"
  by (cases r) (simp_all add: map_val_def)

lemma map_err_eq: "map_err f (r, s) = (map_sum f id r, s)"
  by (cases r) (simp_all add: map_err_def)

lemma value_sound_ptr:
  "t \<noteq> TBigInt \<Longrightarrow> value_sound t no_tags s r s' \<Longrightarrow> value_sound (TPtr t) ts s (map_sum id VPtr r) s'"
  by (cases r) (auto simp: value_sound_def no_tags_def)

lemma value_sound_from: "position s1 = position s \<Longrightarrow> value_sound t ts s1 r s' = value_sound t ts s r s'"
  by (cases r) (simp_all add: value_sound_def consumes_from [of s1 s])

lemma decodeNilPtr_sound:
  assumes "decodeValue fuel (TPtr t) ts s = Some (r, s')" "t \<noteq> TBigInt" "nilOK ts"
    "kind_ok s" "length (ahead s) < 2 ^ 64"
    and IH: "\<And>s1 k sz r'. Kind s = (Inr (k, sz), s1) \<Longrightarrow> \<not> (k \<noteq> KByte \<and> sz = 0) \<Longrightarrow>
      decodeValue fuel t no_tags s1 = Some (r', s') \<Longrightarrow> kind_ok s1 \<Longrightarrow>
      length (ahead s1) < 2 ^ 64 \<Longrightarrow> value_sound t no_tags s1 r' s'"
  shows "value_sound (TPtr t) ts s r s'"
proof (cases "Kind s")
  case (Pair k0 s1)
  show ?thesis
  proof (cases k0)
    case (Inl e)
    then show ?thesis using assms Pair Kind_EOL [of s s'] by (auto simp: value_sound_def)
  next
    case (Inr y)
    obtain k sz where y: "y = (k, sz)" by force
    note K = Pair [unfolded Inr y]
    note Ks = Kind_Inr [OF K assms(4)] peeked_Kind [OF Kind_Inr(3) [OF K assms(4)]]
    show ?thesis
    proof (cases "k \<noteq> KByte \<and> sz = 0")
      case True
      have "consumes (rlp (nil_items t ts)) s (s1\<lparr>skind := None\<rparr>)" if "k = nilKind ts"
        using consumes_rearm [of s1] Ks assms(3) True that
        by (cases k) (simp_all add: kind_head_def nil_items_def consumes_from [OF Ks(1)]
            puthead_short rlp_head_def)
      then show ?thesis using assms(1-3) K True
        by (auto simp: value_sound_def nil_items_def nilKindError_def split: if_splits)
    next
      case False
      with assms(1-3) K obtain r' where r': "decodeValue fuel t no_tags s1 = Some (r', s')"
        "r = map_sum id VPtr r'" by (auto simp: map_val_eq)
      have "value_sound t no_tags s1 r' s'"
        using IH [OF K False r'(1) Ks(7)] assms(5) Ks(2) by simp
      then show ?thesis using value_sound_ptr [OF assms(2)] r'(2) value_sound_from [OF Ks(1)] by blast
    qed
  qed
qed

lemma decodeValue_sound:
  "regular t \<Longrightarrow> decodeValue fuel t ts s = Some (r, s') \<Longrightarrow> kind_ok s \<Longrightarrow> length (ahead s) < 2 ^ 64 \<Longrightarrow>
   tail ts \<longrightarrow> is_slice_kind t \<Longrightarrow> value_sound t ts s r s'"
  "fields_ok fl (length vs) \<Longrightarrow> decodeFields fuel tp fl vs s = Some (Inr vs', s') \<Longrightarrow>
   skind s = None \<Longrightarrow> length (ahead s) < 2 ^ 64 \<Longrightarrow> fields_sound fl vs s vs' s'"
proof (induction fuel t ts s and fuel tp fl vs s arbitrary: r s' and vs' s'
    rule: decodeValue_decodeFields.induct)
  case (1 fuel ts s)
  then show ?case using Raw_EOL [of s] Raw_Inr [of s]
    by (auto intro!: value_soundI simp: decodeRawValue_def)
next
  case (2 fuel ts s)
  then have d: "decodeBigInt s = (r, s')" by simp
  show ?case using decodeBigInt_sound [OF d 2(3)]
    by (intro value_soundI) (auto simp: big_items_def simp del: rlp.simps)
next
  case (3 fuel t ts s)
  show ?case
  proof (cases "t = TBigInt")
    case True
    then obtain r' where d: "decodeBigInt s = (r', s')" "r = map_sum id VPtr r'"
      using "3.prems"(2) by (auto simp: map_val_def split: prod.splits sum.splits)
    show ?thesis using decodeBigInt_sound [OF d(1) "3.prems"(3)] True d(2)
      by (intro value_soundI; cases r') (auto simp: big_items_def simp del: rlp.simps)
  next
    case F: False
    show ?thesis
    proof (cases "nilOK ts")
      case False
      with F "3.prems"(2) obtain r' where r': "decodeValue fuel t no_tags s = Some (r', s')"
        "r = map_sum id VPtr r'" by (auto simp: map_val_eq)
      with F False "3.prems" have "value_sound t no_tags s r' s'" by (intro "3.IH"(1)) (simp_all add: no_tags_def)
      then show ?thesis unfolding r'(2) by (rule value_sound_ptr [OF F])
    next
      case True
      with F "3.prems" "3.IH"(2) show ?thesis by (intro decodeNilPtr_sound) (auto simp: no_tags_def)
    qed
  qed
next
  case (4 fuel byValue t ts s)
  show ?case
  proof (cases "makeDecoderErr t")
    case None
    with "4.prems"(2) obtain r' where r': "decodeValue fuel t no_tags s = Some (r', s')"
      "r = map_sum (\<lambda>e. addTargetType e t) id r'" by (auto simp: map_err_eq)
    have "value_sound t no_tags s r' s'" using "4.IH" [OF None] "4.prems" r'(1) by (simp add: no_tags_def)
    then show ?thesis using None r'(2) makeDecoderErr_eq [of t]
      by (cases r') (auto simp: value_sound_def no_tags_def)
  next
    case (Some e)
    then show ?thesis using "4.prems"(2) makeDecoderErr_Some [of t] by (auto simp: value_sound_def)
  qed
next
  case (5 fuel n ts s)
  then show ?case using Stream_uint_Inr [of n s] Stream_uint_EOL [of n s]
    by (auto intro!: value_soundI simp: decodeUint_def simp del: rlp.simps)
next
  case (6 fuel ts s)
  then show ?case using decodeBool_sound [of s]
    by (auto intro!: value_soundI simp: decodeBool_def simp del: rlp.simps)
next
  case (7 fuel ts s)
  then show ?case using Bytes_Inr [of s] Bytes_EOL [of s]
    by (auto intro!: value_soundI simp: decodeString_def bytes_items_def simp del: rlp.simps)
next
  case (8 fuel t ts s)
  show ?case
  proof (cases "isByte t")
    case True
    with 8 show ?thesis using Bytes_Inr [of s] Bytes_EOL [of s]
      by (auto intro!: value_soundI simp: decodeByteSlice_def bytes_items_def simp del: rlp.simps)
  next
    case F: False
    have snd: "sound_decoder (decodeValue fuel t no_tags) True t"
      using F "8.IH" "8.prems"(1) by (cases "tail ts") (auto intro!: sound_decoderI simp: no_tags_def)
    show ?thesis
    proof (cases "tail ts")
      case True
      show ?thesis using "8.prems" F True sound_decoder.decodeSliceElems_Inr [OF snd]
        by (cases r) (fastforce simp: value_sound_def decodeSliceElems_not_EOL)+
    next
      case False
      with F "8.prems" show ?thesis using sound_decoder.decodeListSlice_Inr [OF snd, of fuel "TSlice t" s]
        by (intro value_soundI) (auto simp: as_list_def dest: decodeListSlice_EOL)
    qed
  qed
next
  case (9 fuel n t ts s)
  show ?case
  proof (cases "isByte t")
    case True
    with "9.prems" have d: "decodeByteArray n (TArray n t) s = (r, s')" "n \<noteq> 1" by auto
    show ?thesis using decodeByteArray_sound [OF d(1) "9.prems"(3) d(2)] True
      by (intro value_soundI) (auto simp: bytes_items_def simp del: rlp.simps)
  next
    case F: False
    have snd: "sound_decoder (decodeValue fuel t no_tags) True t"
      using F "9.IH" "9.prems"(1) by (auto intro!: sound_decoderI simp: no_tags_def)
    show ?thesis using F "9.prems" sound_decoder.decodeListArray_Inr [OF snd, of n "TArray n t" s]
      by (intro value_soundI) (auto simp: as_list_def dest: decodeListArray_EOL)
  qed
next
  case (10 fuel nm fs ts s)
  show ?case
  proof (cases "structFields fs")
    case (Inl e)
    then show ?thesis using "10.prems"(2) by (auto simp: value_sound_def structFields_Inl)
  next
    case (Inr fl)
    have ok: "fields_ok fl (length (map (\<lambda>f. zeroValue (f_type f)) fs))"
      using structFields_ok [OF Inr "10.prems"(1)] by simp
    show ?thesis
      using "10.IH" [OF Inr _ _ ok]
      by (intro decodeStruct_sound [OF Inr "10.prems"(1) _ "10.prems"(2-4)]) simp
  qed
next
  case (11 fuel e ts s)
  then show ?case
    using iface.dec_Inr [where fuel = fuel and e = e and s = s and addr = True]
      iface.dec_EOL [where fuel = fuel and e = e and s = s]
    by (cases r) (fastforce simp: value_sound_def)+
next
  case (12 fuel k ts s)
  then show ?case by (auto simp: value_sound_def)
next
  case (13 fuel tp vs s)
  then show ?case by (simp add: fields_sound_def consumes_refl)
next
  case (14 fuel tp i n ts t fl vs s)
  from "14.prems"(2) obtain v s1 where v: "decodeValue fuel t ts s = Some (Inr v, s1)"
    "decodeFields fuel tp fl (vs[i := v]) s1 = Some (Inr vs', s')"
    by (auto split: option.splits sum.splits if_splits)
  have t: "regular t" and ok: "fields_ok fl (length vs)" using "14.prems"(1) by (auto simp: fields_ok_def)
  obtain xs where xs: "items_of True t ts v = Inr xs" "consumes (rlps xs) s s1"
    using "14.IH"(1) [OF t v(1)] "14.prems" by (auto simp: value_sound_def fields_ok_def)
  have "fields_sound fl (vs[i := v]) s1 vs' s'"
    using xs(2) v "14.prems"(4) ok consumes_less [OF xs(2)]
    by (intro "14.IH"(2) [OF v(1)]) (simp_all add: consumes_def)
  then show ?case by (rule fields_sound_Cons [OF xs "14.prems"(1)])
qed

end
