(* ===== verification/Rlp_Encode_Correct.thy ===== *)
theory Rlp_Encode_Correct
  imports Rlp_Spec
begin

text \<open>
  The encode buffer of \<^verbatim>\<open>rlp/encode.go\<close> against the specification of \<open>Rlp_Spec\<close>: the
  headers kept aside and spliced in at the end give the encoding of the items of the
  value, whichever way the buffer is written out.
\<close>

section \<open>Splicing headers into string data\<close>

fun splice_heads :: "nat \<Rightarrow> bytes \<Rightarrow> listhead list \<Rightarrow> bytes" where
  "splice_heads p s [] = s"
| "splice_heads p s (h # hs) =
     take (offset h - p) s @ listhead_encode h @ splice_heads (offset h) (drop (offset h - p) s) hs"

fun heads_ok :: "nat \<Rightarrow> nat \<Rightarrow> listhead list \<Rightarrow> bool" where
  "heads_ok lo hi [] = (lo \<le> hi)"
| "heads_ok lo hi (h # hs) = (lo \<le> offset h \<and> heads_ok (offset h) hi hs)"

definition heads_len :: "listhead list \<Rightarrow> nat" where
  "heads_len hs = sum_list (map (length \<circ> listhead_encode) hs)"

lemma heads_len_simps [simp]:
  "heads_len [] = 0" "heads_len (h # hs) = length (listhead_encode h) + heads_len hs"
  "heads_len (hs @ ks) = heads_len hs + heads_len ks"
  by (simp_all add: heads_len_def)

lemma heads_ok_le: "heads_ok lo hi hs \<Longrightarrow> lo \<le> hi"
  by (induction lo hi hs rule: heads_ok.induct) auto

lemma heads_ok_append: "heads_ok lo mid hs \<Longrightarrow> heads_ok mid hi ks \<Longrightarrow> heads_ok lo hi (hs @ ks)"
proof (induction lo mid hs rule: heads_ok.induct)
  case (1 lo mid)
  then show ?case by (cases ks) (auto dest: heads_ok_le)
qed auto

lemma splice_heads_append_str:
  "heads_ok p (p + length s) hs \<Longrightarrow> splice_heads p (s @ s') hs = splice_heads p s hs @ s'"
proof (induction p s hs rule: splice_heads.induct)
  case (2 p s h hs)
  then have le: "p \<le> offset h" "offset h \<le> p + length s" by (auto dest: heads_ok_le)
  then have "offset h + length (drop (offset h - p) s) = p + length s" by simp
  with 2 le show ?case by (simp add: add.commute)
qed simp

lemma splice_heads_append:
  "heads_ok p (p + length s) hs \<Longrightarrow> heads_ok (p + length s) (p + length s + length s') ks \<Longrightarrow>
   splice_heads p (s @ s') (hs @ ks) = splice_heads p s hs @ splice_heads (p + length s) s' ks"
proof (induction p s hs rule: splice_heads.induct)
  case (1 p s)
  then show ?case by (cases ks) auto
next
  case (2 p s h hs)
  then have le: "p \<le> offset h" "offset h \<le> p + length s" by (auto dest: heads_ok_le)
  then have "offset h + length (drop (offset h - p) s) = p + length s" by simp
  with 2 le show ?case by (simp add: add.commute)
qed

lemma length_splice_heads:
  "heads_ok p (p + length s) hs \<Longrightarrow> length (splice_heads p s hs) = length s + heads_len hs"
proof (induction p s hs rule: splice_heads.induct)
  case (2 p s h hs)
  then have le: "p \<le> offset h" "offset h \<le> p + length s" by (auto dest: heads_ok_le)
  then have "offset h + length (drop (offset h - p) s) = p + length s" by simp
  with 2 le show ?case by (simp add: add.commute)
qed simp

text \<open>\<open>extends w b w'\<close>: the buffer \<open>w'\<close> is \<open>w\<close> with data that flattens to the bytes \<open>b\<close>.\<close>

definition extends :: "encbuf \<Rightarrow> bytes \<Rightarrow> encbuf \<Rightarrow> bool" where
  "extends w b w' \<longleftrightarrow>
     (\<exists>s hs. w' = \<lparr>str = str w @ s, lheads = lheads w @ hs, lhsize = lhsize w + heads_len hs\<rparr>
        \<and> heads_ok (length (str w)) (length (str w) + length s) hs
        \<and> splice_heads (length (str w)) s hs = b)"

lemma extends_refl [simp]: "extends w [] w"
  unfolding extends_def by (intro exI [of _ "[]"]) simp

lemma extends_trans: 
  assumes "extends w b w1" and "extends w1 c w2"
  shows "extends w (b @ c) w2"
proof -
  from assms(1) obtain s hs where 1:
    "w1 = \<lparr>str = str w @ s, lheads = lheads w @ hs, lhsize = lhsize w + heads_len hs\<rparr>"
    "heads_ok (length (str w)) (length (str w) + length s) hs" "splice_heads (length (str w)) s hs = b"
    by (auto simp: extends_def)
  from assms(2) 1(1) obtain s' hs' where 2:
    "w2 = \<lparr>str = str w @ s @ s', lheads = lheads w @ hs @ hs', lhsize = lhsize w + heads_len (hs @ hs')\<rparr>"
    "heads_ok (length (str w) + length s) (length (str w) + length s + length s') hs'"
    "splice_heads (length (str w) + length s) s' hs' = c"
    by (auto simp: extends_def)
  show ?thesis
    unfolding extends_def using 1 2 heads_ok_append [OF 1(2) 2(2)] splice_heads_append [OF 1(2) 2(2)]
    by (intro exI [of _ "s @ s'"] exI [of _ "hs @ hs'"]) (simp add: add.assoc)
qed

lemma extends_add_str [simp]: "extends w b (add_str b w)"
  unfolding extends_def add_str_def by (intro exI [of _ b] exI [of _ "[]"]) simp

lemma extends_add_str': "extends w b w1 \<Longrightarrow> extends w (b @ c) (add_str c w1)"
  by (erule extends_trans) simp

lemma extends_list:
  assumes "extends (snd (list_start w)) b w2" and "length b < 2 ^ 64"
  shows "extends w (rlp_head 0xC0 0xF7 (length b) @ b) (listEnd (fst (list_start w)) w2)"
proof -
  let ?h = "\<lparr>offset = length (str w), hsize = length b\<rparr>"
  from assms(1) obtain s hs where w2:
    "w2 = \<lparr>str = str w @ s,
           lheads = lheads w @ \<lparr>offset = length (str w), hsize = lhsize w\<rparr> # hs,
           lhsize = lhsize w + heads_len hs\<rparr>"
    and ok: "heads_ok (length (str w)) (length (str w) + length s) hs"
    and b: "splice_heads (length (str w)) s hs = b"
    by (auto simp: extends_def list_start_def)
  have len: "length b = length s + heads_len hs" using length_splice_heads [OF ok] b by simp
  have enc: "listhead_encode ?h = rlp_head 0xC0 0xF7 (length b)"
    using assms(2) by (simp add: listhead_encode_def puthead_rlp_head)
  have hlen: "length (rlp_head 0xC0 0xF7 (length b)) = (if length b < 56 then 1 else 1 + intsize (of_nat (length b)))"
    using headsize_puthead [of "of_nat (length b)" "0xC0" "0xF7"] puthead_rlp_head [OF assms(2), of "0xC0" "0xF7"] assms(2)
    by (simp add: headsize_def word_less_nat_alt unat_of_nat)
  have fin: "listEnd (fst (list_start w)) w2 =
    \<lparr>str = str w @ s, lheads = lheads w @ (?h # hs), lhsize = lhsize w + heads_len (?h # hs)\<rparr>"
    by (simp add: listEnd_def list_start_def w2 encbuf_size_def Let_def len [symmetric] enc hlen nth_append)
  show ?thesis
    unfolding extends_def fin
    by (intro exI [of _ s] exI [of _ "?h # hs"]) (simp add: ok b enc)
qed

lemma rlp_Str_small: "length b = 1 \<Longrightarrow> b ! 0 \<le> 0x7F \<Longrightarrow> rlp (Str b) = b"
  by (cases b) (auto simp: word_le_nat_alt word_less_nat_alt)

lemma byte_le_7F: "(x :: byte) \<le> 0x7F \<longleftrightarrow> x < 0x80"
  by (simp add: word_le_nat_alt word_less_nat_alt) arith

lemma encodeStringHeader_eq:
  "n < 2 ^ 64 \<Longrightarrow> encodeStringHeader n w = add_str (rlp_head 0x80 0xB7 n) w"
proof -
  assume n: "n < 2 ^ 64"
  then have u: "unat (of_nat n :: u64) = n" by (simp add: unat_of_nat)
  have "\<not> n < 56 \<Longrightarrow> (of_nat n :: u64) \<noteq> 0" using u by (metis unat_0 zero_less_numeral)
  then show ?thesis
    by (auto simp: encodeStringHeader_def rlp_head_def putint_be_bytes u Let_def)
qed

lemma add_str_add_str [simp]: "add_str b (add_str a w) = add_str (a @ b) w"
  by (simp add: add_str_def)

lemma encodeString_eq: "length b < 2 ^ 64 \<Longrightarrow> encodeString b w = add_str (rlp (Str b)) w"
  by (cases b) (auto simp: encodeString_def encodeStringHeader_eq byte_le_7F)

lemma writeUint_eq: "writeUint (VUint u) w = Inr (add_str (rlp (Str (be_bytes (unat u)))) w)"
proof (cases "u = 0")
  case True
  then show ?thesis by (simp add: rlp_head_def)
next
  case False
  then have pos: "0 < unat u" by (simp add: unat_gt_0)
  have len: "length (be_bytes (unat u)) \<le> 8" using u64_bound [of u] length_be_bytes_le [of "unat u" 8] by simp
  show ?thesis
  proof (cases "u < 128")
    case True
    then have lt: "unat u < 128" by (simp add: word_less_nat_alt)
    then have "be_bytes (unat u) = [of_nat (unat u)]" using pos by (simp add: be_bytes_small)
    moreover have "of_nat (unat u) = (ucast u :: byte)" 
      by (simp add: word_unat_eq_iff unsigned_ucast_eq take_bit_eq_mod)
    moreover have "(of_nat (unat u) :: byte) < 0x80" using lt by (simp add: word_less_nat_alt unsigned_ucast_eq take_bit_eq_mod)
    ultimately show ?thesis using False True by simp
  next
    case big: False
    then have ge: "128 \<le> unat u" by (simp add: word_less_nat_alt)
    have "\<not> (length (be_bytes (unat u)) = 1 \<and> hd (be_bytes (unat u)) < 0x80)"
    proof
      assume a: "length (be_bytes (unat u)) = 1 \<and> hd (be_bytes (unat u)) < 0x80"
      then obtain x where x: "be_bytes (unat u) = [x]" by (auto simp: length_Suc_conv)
      then have "unat u = unat x" using be_val_be_bytes [of "unat u"] by simp
      with a x ge show False by (simp add: word_less_nat_alt)
    qed
    then show ?thesis using False big len
      by (auto simp: putint_be_bytes Let_def rlp_head_def)
  qed
qed

lemma writeBigInt_eq:
  "0 \<le> i \<Longrightarrow> length (be_bytes (nat i)) < 2 ^ 64 \<Longrightarrow>
   writeBigInt i w = Inr (add_str (rlp (Str (be_bytes (nat i)))) w)"
  by (auto simp: writeBigInt_def encodeString_eq rlp_head_def)

text \<open>What running a writer means in terms of the items of the value.\<close>

definition write_ok :: "rlp_error + item list \<Rightarrow> encbuf \<Rightarrow> rlp_error + encbuf \<Rightarrow> bool" where
  "write_ok spec w res =
     (case spec of
        Inl e \<Rightarrow> res = Inl e
      | Inr is \<Rightarrow> \<exists>w'. res = Inr w' \<and> (length (rlps is) < 2 ^ 64 \<longrightarrow> extends w (rlps is) w'))"

lemma write_ok_Inl [simp]: "write_ok (Inl e) w (Inl e)"
  by (simp add: write_ok_def)

lemma write_ok_add_str: "(length (rlp i) < 2 ^ 64 \<Longrightarrow> w' = add_str (rlp i) w) \<Longrightarrow> write_ok (Inr [i]) w (Inr w')"
  by (auto simp: write_ok_def)


lemma length_rlp_Str: "length b \<le> length (rlp (Str b))"
  by simp

lemma write_ok_encodeString: "write_ok (Inr [Str b]) w (Inr (encodeString b w))"
  using length_rlp_Str [of b] by (auto intro!: write_ok_add_str encodeString_eq simp del: rlp.simps)

lemma writeString_eq: "writeString v w = writeBytes v w"
  by (cases v) (simp_all add: encodeString_def)

lemma writeByteArray_eq: "writeByteArray v w = writeBytes v w"
  by (cases v) simp_all

lemma write_ok_bytes: "write_ok (bytes_items v) w (writeBytes v w)"
  by (cases v) (simp_all add: bytes_items_def write_ok_encodeString)

lemma write_ok_big: "write_ok (big_items i) w (writeBigInt i w)"
proof (cases "i < 0")
  case False
  then have "\<exists>w'. writeBigInt i w = Inr w'" by (simp add: writeBigInt_def)
  with False show ?thesis using length_rlp_Str [of "be_bytes (nat i)"] writeBigInt_eq [of i w]
    by (auto simp: big_items_def intro!: write_ok_add_str simp del: rlp.simps)
qed (simp add: big_items_def writeBigInt_def)

lemma write_ok_uint: "write_ok (Inr [Str (be_bytes (unat u))]) w (writeUint (VUint u) w)"
  unfolding writeUint_eq by (rule write_ok_add_str) simp

lemma write_ok_list:
  assumes "list_start w = (lh, w1)" and "write_ok spec w1 res"
  shows "write_ok (as_list spec) w
    (case res of Inl e \<Rightarrow> Inl e | Inr w2 \<Rightarrow> Inr (listEnd lh w2))"
  using assms extends_list [of w]
  by (auto simp: write_ok_def as_list_def rlp_Lst split: sum.splits)

lemma write_ok_seq:
  assumes "write_ok a w r" and "\<And>w1. r = Inr w1 \<Longrightarrow> write_ok b w1 (k w1)"
  shows "write_ok (case a of Inl e \<Rightarrow> Inl e
                   | Inr is \<Rightarrow> (case b of Inl e \<Rightarrow> Inl e | Inr js \<Rightarrow> Inr (is @ js))) w
          (case r of Inl e \<Rightarrow> Inl e | Inr w1 \<Rightarrow> k w1)"
proof (cases a)
  case (Inr xs)
  with assms(1) obtain w1 where r: "r = Inr w1"
    and w1: "length (rlps xs) < 2 ^ 64 \<longrightarrow> extends w (rlps xs) w1" by (auto simp: write_ok_def)
  show ?thesis using assms(2) [OF r] w1 extends_trans [of w "rlps xs" w1]
    by (cases b) (auto simp: write_ok_def Inr r)
qed (use assms(1) in \<open>simp add: write_ok_def\<close>)

lemma write_ok_nil: "write_ok (Inr [nil_items t ts]) w (writeNilPtr t ts w)"
proof -
  have "extends w [0xC0] (listEnd (fst (list_start w)) (snd (list_start w)))"
    using extends_list [of w "[]"] by (simp add: rlp_head_def)
  then show ?thesis
    by (auto simp: write_ok_def writeNilPtr_def nil_items_def rlp_head_def split: prod.splits)
qed

lemma writeValue_ok:
  "write_ok (items_of addr t ts v) w (writeValue addr t ts v w)"
  "write_ok (items_elems addr t vs) w (write_elems addr t vs w)"
  "write_ok (items_fields addr fl vs) w (write_fields addr fl vs w)"
proof (induction addr t ts v w and addr t vs w and addr fl vs w
    rule: writeValue_write_elems_write_fields.induct)
  case (1 addr ts v w)
  then show ?case by (cases v) (auto simp: write_ok_def)
next
  case (2 addr ts v w)
  then show ?case by (cases v) (simp_all add: write_ok_big)
next
  case (3 addr t ts v w)
  show ?case
  proof (cases "t = TBigInt")
    case True
    then show ?thesis
      by (cases v) (auto simp: write_ok_big write_ok_add_str rlp_head_def split: rval.splits)
  next
    case False
    with 3 show ?thesis by (cases v) (simp_all add: write_ok_nil)
  qed
next
  case (4 addr byValue t ts v w)
  then show ?case by (simp split: option.split)
next
  case (5 addr n ts v w)
  then show ?case by (cases v) (simp_all add: write_ok_uint del: writeUint.simps(1))
next
  case (6 addr ts v w)
  then show ?case by (cases v) (auto intro!: write_ok_add_str simp: rlp_head_def)
next
  case (7 addr ts v w)
  then show ?case by (simp add: write_ok_bytes writeString_eq writeByteArray_eq)
next
  case (8 addr t ts v w)
  show ?case
  proof (cases "isByte t")
    case False
    obtain lh w1 where ls: "list_start w = (lh, w1)" by force
    with False 8 show ?thesis
      by (cases v) (simp_all add: write_ok_list [OF ls])
  qed (simp add: write_ok_bytes writeString_eq writeByteArray_eq)
next
  case (9 addr n t ts v w)
  show ?case
  proof (cases "isByte t")
    case False
    obtain lh w1 where ls: "list_start w = (lh, w1)" by force
    with False 9 show ?thesis
      by (cases v) (simp_all add: write_ok_list [OF ls])
  qed (simp add: write_ok_bytes writeString_eq writeByteArray_eq)
next
  case (10 addr nm fs ts v w)
  obtain lh w1 where ls: "list_start w = (lh, w1)" by force
  with 10 show ?case
    by (cases v; cases "structFields fs") (simp_all add: write_ok_list [OF ls])
next
  case (11 addr e ts v w)
  then show ?case
    by (cases v) (auto simp: rlp_head_def write_ok_def split: option.splits)
next
  case (12 addr k ts v w)
  then show ?case by simp
next
  case (13 addr t w)
  then show ?case by (simp add: write_ok_def)
next
  case (14 addr t v vs w)
  then show ?case by (simp add: write_ok_seq)
next
  case (15 addr vs w)
  then show ?case by (simp add: write_ok_def)
next
  case (16 addr i n ts t fl vs w)
  then show ?case by (simp add: write_ok_seq)
qed

section \<open>Writing the buffer out\<close>

text \<open>A buffer whose headers lie in order within the string data and whose header size is right.\<close>

definition buf_ok :: "encbuf \<Rightarrow> bool" where
  "buf_ok w \<longleftrightarrow> heads_ok 0 (length (str w)) (lheads w) \<and> lhsize w = heads_len (lheads w)"

definition flatten :: "encbuf \<Rightarrow> bytes" where
  "flatten w = splice_heads 0 (str w) (lheads w)"

lemma extends_reset: "extends reset b w \<Longrightarrow> buf_ok w \<and> flatten w = b"
  by (auto simp: extends_def reset_def buf_ok_def flatten_def)

lemma go_copy_fresh:
  "length src \<le> k \<Longrightarrow>
   go_copy (length d) src (d @ replicate k 0) = (length src, (d @ src) @ replicate (k - length src) 0)"
  by (simp add: go_copy_def Let_def)

lemma toBytesLoop_step:
  assumes "pos \<le> length out" "p \<le> offset h" "offset h \<le> length s"
    and "go_copy pos (take (offset h - p) (drop p s)) out = (n, out1)"
    and "pos + n + length (listhead_encode h) \<le> length out1"
    and "go_copy (pos + n) (listhead_encode h) out1 = (m, out2)"
  shows "toBytesLoop s (h # hs) p pos out =
    toBytesLoop s hs (p + n) (pos + n + length (listhead_encode h)) out2"
  using assms by (simp add: Let_def)

lemma toBytesLoop_fresh:
  assumes "heads_ok p (length s) hs" and "length s - p + heads_len hs = k"
  shows "\<exists>q d' k'. toBytesLoop s hs p (length d) (d @ replicate k 0) =
           Some (q, length d', d' @ replicate k' 0) \<and> q \<le> length s \<and> k' = length s - q
           \<and> d' @ drop q s = d @ splice_heads p (drop p s) hs"
  using assms
proof (induction hs arbitrary: p d k)
  case Nil
  show ?case by (rule exI [of _ p], rule exI [of _ d], rule exI [of _ k]) (use Nil in simp)
next
  case (Cons h hs)
  let ?src = "take (offset h - p) (drop p s)"
  let ?e = "listhead_encode h"
  have le: "p \<le> offset h" "offset h \<le> length s" using Cons.prems(1) by (auto dest: heads_ok_le)
  then have len: "length ?src = offset h - p" by simp
  have k: "length ?src \<le> k" "length ?e \<le> k - length ?src" using Cons.prems(2) le by auto
  have rest: "length s - offset h + heads_len hs = k - length ?src - length ?e"
    using Cons.prems(2) le by simp
  have ok: "heads_ok (offset h) (length s) hs" using Cons.prems(1) by simp
  have c1: "go_copy (length d) ?src (d @ replicate k 0) =
      (length ?src, (d @ ?src) @ replicate (k - length ?src) 0)" by (rule go_copy_fresh [OF k(1)])
  have c2: "go_copy (length (d @ ?src)) ?e ((d @ ?src) @ replicate (k - length ?src) 0) =
      (length ?e, (d @ ?src @ ?e) @ replicate (k - length ?src - length ?e) 0)"
    using go_copy_fresh [OF k(2), of "d @ ?src"] by simp
  have step: "toBytesLoop s (h # hs) p (length d) (d @ replicate k 0) =
      toBytesLoop s hs (offset h) (length (d @ ?src @ ?e))
        ((d @ ?src @ ?e) @ replicate (k - length ?src - length ?e) 0)"
    using toBytesLoop_step [OF _ le c1 _ c2 [unfolded length_append], of hs] k len le
    by (simp add: add.assoc)
  have "drop (offset h - p) (drop p s) = drop (offset h) s" using le by simp
  then show ?case unfolding step using Cons.IH [OF ok rest, of "d @ ?src @ ?e"] by simp
qed

lemma toBytes_flatten: "buf_ok w \<Longrightarrow> toBytes w = Some (flatten w)"
proof -
  assume ok: "buf_ok w"
  then obtain q d' where 1: "toBytesLoop (str w) (lheads w) 0 0 (replicate (encbuf_size w) 0) =
        Some (q, length d', d' @ replicate (length (str w) - q) 0)" "q \<le> length (str w)"
      "d' @ drop q (str w) = flatten w"
    using toBytesLoop_fresh [of 0 "str w" "lheads w" _ "[]"]
    by (auto simp: buf_ok_def encbuf_size_def flatten_def)
  then show ?thesis using go_copy_fresh [of "drop q (str w)" "length (str w) - q" d']
    by (simp add: toBytes_def)
qed

text \<open>
  What the encoder asks of an \<^verbatim>\<open>io.Writer\<close>: a write takes all its bytes, reports no error,
  and writing in two parts is the same as writing the parts together.
\<close>

locale io_writer =
  fixes wr :: "('s, 'e) io_write" and absorb :: "'s \<Rightarrow> bytes \<Rightarrow> 's"
  assumes wr_all: "wr st b = (length b, None, absorb st b)"
    and absorb_Nil: "absorb st [] = st"
    and absorb_append: "absorb (absorb st b) c = absorb st (b @ c)"
begin

lemma toWriterLoop_absorb:
  assumes "heads_ok p (length s) hs"
  shows "\<exists>q st'. toWriterLoop wr s hs p st = (None, q, st') \<and> q \<le> length s
           \<and> absorb st' (drop q s) = absorb st (splice_heads p (drop p s) hs)"
  using assms
proof (induction hs arbitrary: p st)
  case Nil
  then show ?case by simp
next
  case (Cons h hs)
  have le: "p \<le> offset h" "offset h \<le> length s" and ok: "heads_ok (offset h) (length s) hs"
    using Cons.prems by (auto dest: heads_ok_le)
  let ?st = "absorb (absorb st (take (offset h - p) (drop p s))) (listhead_encode h)"
  have "toWriterLoop wr s (h # hs) p st = toWriterLoop wr s hs (offset h) ?st"
    using le by (cases "p = offset h") (simp_all add: wr_all absorb_Nil)
  then show ?case using Cons.IH [OF ok, of ?st] le by (simp add: absorb_append)
qed

lemma toWriter_absorb: "buf_ok w \<Longrightarrow> toWriter wr w st = (None, absorb st (flatten w))"
  using toWriterLoop_absorb [of 0 "str w" "lheads w" st]
  by (auto simp: toWriter_def buf_ok_def flatten_def wr_all absorb_Nil)

end

text \<open>\<^verbatim>\<open>EncodeRLP\<close> methods are handed an encode buffer, which is such a writer.\<close>

interpretation ebw: io_writer encbuf_Write "\<lambda>w b. add_str b w"
  by unfold_locales (simp_all add: encbuf_Write_def add_str_def)

section \<open>Reading the buffer\<close>

text \<open>The bytes that a reader has still to deliver.\<close>

definition unread :: "encReader \<Rightarrow> bytes" where
  "unread r =
     (case rbuf r of
        None \<Rightarrow> []
      | Some w \<Rightarrow> (case piece r of None \<Rightarrow> [] | Some p \<Rightarrow> p)
                    @ splice_heads (rstrpos r) (drop (rstrpos r) (str w)) (drop (lhpos r) (lheads w)))"

definition reader_ok :: "encReader \<Rightarrow> bool" where
  "reader_ok r =
     (case rbuf r of
        None \<Rightarrow> piece r = None
      | Some w \<Rightarrow> heads_ok (rstrpos r) (length (str w)) (drop (lhpos r) (lheads w)) \<and> piece r \<noteq> Some [])"

lemma listhead_encode_nonempty [simp]: "listhead_encode h \<noteq> []"
  by (simp add: listhead_encode_def puthead_def Let_def)

lemma encReader_next_cases:
  assumes "reader_ok r"
  shows "(\<exists>r1. encReader_next r = Some (None, r1) \<and> unread r = [])
     \<or> (\<exists>p r1. encReader_next r = Some (Some p, r1) \<and> p \<noteq> [] \<and> reader_ok (r1\<lparr>piece := None\<rparr>)
          \<and> rbuf r1 \<noteq> None \<and> unread r = p @ unread (r1\<lparr>piece := None\<rparr>))"
proof (cases "rbuf r")
  case None
  with assms show ?thesis by (simp add: encReader_next_def reader_ok_def unread_def)
next
  case (Some w)
  note w = Some
  show ?thesis
  proof (cases "piece r")
    case None
    show ?thesis
    proof (cases "lhpos r < length (lheads w)")
      case True
      then have d: "drop (lhpos r) (lheads w) = lheads w ! lhpos r # drop (Suc (lhpos r)) (lheads w)"
        by (rule Cons_nth_drop_Suc [symmetric])
      have "offset (lheads w ! lhpos r) \<le> length (str w)" 
        using assms d w by (auto simp: reader_ok_def dest: heads_ok_le)
      then show ?thesis using assms w None True d
        by (auto simp: encReader_next_def reader_ok_def unread_def Let_def)
    next
      case False
      with assms w None show ?thesis
        by (auto simp: encReader_next_def reader_ok_def unread_def)
    qed
  next
    case (Some p)
    with assms w show ?thesis
      by (auto simp: encReader_next_def reader_ok_def unread_def)
  qed
qed

lemma encReader_Read_unread:
  assumes "reader_ok r" and "length acc \<le> k"
  shows "\<exists>r'. encReader_Read k acc r =
             Some (acc @ take (k - length acc) (unread r), length acc + length (unread r) \<le> k, r')
           \<and> reader_ok r' \<and> unread r' = drop (k - length acc) (unread r)"
  using assms
proof (induction k acc r rule: encReader_Read.induct)
  case (1 k acc r)
  from encReader_next_cases [OF 1(2)] show ?case
  proof (elim disjE exE conjE)
    fix r1 assume "encReader_next r = Some (None, r1)" "unread r = []"
    then show ?thesis using 1(3) by (subst encReader_Read.simps) (auto simp: reader_ok_def unread_def)
  next
    fix p r1 assume n: "encReader_next r = Some (Some p, r1)" "p \<noteq> []" "reader_ok (r1\<lparr>piece := None\<rparr>)"
      "rbuf r1 \<noteq> None" and u: "unread r = p @ unread (r1\<lparr>piece := None\<rparr>)"
    show ?thesis
    proof (cases "k - length acc < length p")
      case True
      then have "reader_ok (r1\<lparr>piece := Some (drop (k - length acc) p)\<rparr>)"
        using n by (auto simp: reader_ok_def)
      then show ?thesis using True n u 1(3)
        by (subst encReader_Read.simps) (auto simp: Let_def unread_def)
    next
      case False
      then have "length acc + length p \<le> k" using 1(3) by simp
      then show ?thesis using 1(1) [OF n(1)] False n u
        by (subst encReader_Read.simps) (simp add: Let_def add.assoc)
    qed
  qed
qed

text \<open>A sequence of \<^verbatim>\<open>Read\<close> calls: all the data, and whether the last call reported EOF.\<close>

fun encReader_Reads :: "nat list \<Rightarrow> encReader \<Rightarrow> (bytes \<times> bool) option" where
  "encReader_Reads [] r = Some ([], False)"
| "encReader_Reads (k # ks) r =
     (case encReader_Read k [] r of
        None \<Rightarrow> None
      | Some (d, eof, r') \<Rightarrow>
          if ks = [] then Some (d, eof)
          else (case encReader_Reads ks r' of
                  None \<Rightarrow> None
                | Some (d', eof') \<Rightarrow> Some (d @ d', eof')))"

lemma encReader_Reads_unread:
  "reader_ok r \<Longrightarrow> encReader_Reads ks r =
     Some (take (sum_list ks) (unread r), ks \<noteq> [] \<and> length (unread r) \<le> sum_list ks)"
proof (induction ks arbitrary: r)
  case (Cons k ks)
  obtain r' where r': "encReader_Read k [] r = Some (take k (unread r), length (unread r) \<le> k, r')"
      "reader_ok r'" "unread r' = drop k (unread r)"
    using encReader_Read_unread [OF Cons.prems, of "[]" k] by auto
  have "length (unread r) - k \<le> sum_list ks \<longleftrightarrow> length (unread r) \<le> k + sum_list ks" by arith
  then show ?case using Cons.IH [OF r'(2)] r'(1,3) by (simp add: take_add)
qed simp

section \<open>The encoder implements the specification\<close>

lemma encode_ok: "write_ok (encode_spec t v) w (encode t v w)"
  by (simp add: encode_def encode_spec_def writeValue_ok split: option.split)

lemma encode_reset:
  assumes "encode_spec t v = Inr is" and "length (rlps is) < 2 ^ 64"
  obtains w where "encode t v reset = Inr w" "buf_ok w" "flatten w = rlps is"
  using encode_ok [of t v reset] assms extends_reset by (auto simp: write_ok_def)

lemma EncodeToBytes_Inr:
  "encode_spec t v = Inr is \<Longrightarrow> length (rlps is) < 2 ^ 64 \<Longrightarrow> EncodeToBytes t v = Inr (Some (rlps is))"
  by (auto elim: encode_reset simp: EncodeToBytes_def toBytes_flatten)


definition cat_dog :: rval where
  "cat_dog = VList [VBytes [99, 97, 116], VBytes [100, 111, 103]]"


text \<open>
  C13: \<^verbatim>\<open>EncodeToReader\<close> reports the length of the encoding, and any sequence of \<^verbatim>\<open>Read\<close>
  calls, with buffers of any sizes, delivers the encoding in order without loss; EOF is
  reported exactly when a call reaches the end.
\<close>

theorem EncodeToReader_spec:
  assumes "encode_spec t v = Inr is" and "length (rlps is) < 2 ^ 64"
  shows "\<exists>r. EncodeToReader t v = Inr (length (rlps is), r) \<and>
           encReader_Reads ks r =
             Some (take (sum_list ks) (rlps is), ks \<noteq> [] \<and> length (rlps is) \<le> sum_list ks)"
proof -
  obtain w where w: "encode t v reset = Inr w" "buf_ok w" "flatten w = rlps is"
    using encode_reset [OF assms] .
  let ?r = "\<lparr>rbuf = Some w, lhpos = 0, rstrpos = 0, piece = None\<rparr>"
  have ok: "reader_ok ?r" "unread ?r = rlps is"
    using w by (simp_all add: buf_ok_def flatten_def reader_ok_def unread_def)
  have "encbuf_size w = length (rlps is)"
    using w(2) length_splice_heads [of 0 "str w" "lheads w"]
    by (simp add: buf_ok_def flatten_def encbuf_size_def flip: w(3))
  then show ?thesis using w(1) encReader_Reads_unread [OF ok(1), of ks] ok(2)
    by (simp add: EncodeToReader_def)
qed

theorem EncodeToReader_spec_witness:
  "\<exists>r. EncodeToReader (TSlice TString) cat_dog = Inr (9, r) \<and>
     encReader_Reads [2, 5, 4] r = Some ([0xC8, 0x83, 99, 97, 116, 0x83, 100, 111, 103], True)"
proof -
  have s: "encode_spec (TSlice TString) cat_dog =
      Inr [Lst [Str [99, 97, 116], Str [100, 111, 103]]]" by code_simp
  have r: "rlps [Lst [Str [99, 97, 116], Str [100, 111, 103]]] =
      [0xC8, 0x83, 99, 97, 116, 0x83, 100, 111, 103]" by code_simp
  have l: "length [0xC8 :: byte, 0x83, 99, 97, 116, 0x83, 100, 111, 103] = 9" by simp
  show ?thesis using EncodeToReader_spec [OF s, of "[2, 5, 4]"] unfolding r l by simp
qed

end
