(* ===== verification/Rlp_Canonical.thy ===== *)
theory Rlp_Canonical
  imports Rlp_Sound Rlp_Encode_Correct
begin

text \<open>
  The entry point \<^verbatim>\<open>DecodeBytes\<close>: what it accepts is exactly what the encoder writes, it
  always returns, and what goes wrong with arrays of one byte.
\<close>

section \<open>What DecodeBytes accepts\<close>

lemma Reset_facts [simp]:
  "rd (Reset known b n) = b" "skind (Reset known b n) = None" "stack (Reset known b n) = []"
  "kind_ok (Reset known b n)" "ahead (Reset known b n) = b"
  by (simp_all add: Reset_def ahead_def)

lemma Stream_Decode_Inr:
  assumes "Stream_Decode fuel t s = Some (Inr v, s')" "regular t" "kind_ok s" "length (ahead s) < 2 ^ 64"
  obtains xs where "makeWriterErr t = None" "items_of True t no_tags v = Inr xs" "consumes (rlps xs) s s'"
proof -
  from assms(1) have "makeDecoderErr t = None" "decodeValue fuel t no_tags s = Some (Inr v, s')"
    by (auto simp: Stream_Decode_def split: option.splits)
  then show ?thesis using decodeValue_sound(1) [of t fuel no_tags s] assms(2-4) that
    by (auto simp: value_sound_def makeDecoderErr_eq no_tags_def)
qed

lemma encode_spec_ptr:
  assumes "makeWriterErr t = None" "items_of True t no_tags v = Inr is"
  shows "encode_spec (TPtr t) (VPtr v) = Inr is"
  using assms by (cases "t = TBigInt") (auto simp: encode_spec_def)

lemma decode_canonical:
  assumes "DecodeBytes fuel t b = Some (Inr v)" and "regular t" and "length b < 2 ^ 64"
  shows "EncodeToBytes (TPtr t) (VPtr v) = Inr (Some b)"
proof -
  from assms(1) obtain s' where s': "Stream_Decode fuel t (Reset True b (of_nat (length b))) = Some (Inr v, s')"
      "rd s' = []"
    by (auto simp: DecodeBytes_def split: option.splits sum.splits if_splits)
  obtain xs where xs: "makeWriterErr t = None" "items_of True t no_tags v = Inr xs"
      "consumes (rlps xs) (Reset True b (of_nat (length b))) s'"
    using Stream_Decode_Inr [OF s'(1) assms(2)] assms(3) by auto
  have "rlps xs = b" using xs(3) s'(2) by (simp add: consumes_def)
  then show ?thesis using EncodeToBytes_Inr [OF encode_spec_ptr [OF xs(1,2)]] assms(3) by simp
qed


definition cat_dog_bytes :: bytes where
  "cat_dog_bytes = [0xC8, 0x83, 99, 97, 116, 0x83, 100, 111, 103]"


section \<open>Decoding ends\<close>

lemma decodeSliceElems_mono:
  assumes "decodeSliceElems fuel dec acc s = Some x" "fuel \<le> fuel'"
    and "\<And>s x. dec s = Some x \<Longrightarrow> dec' s = Some x"
  shows "decodeSliceElems fuel' dec' acc s = Some x"
  using assms(1,2)
proof (induction fuel arbitrary: fuel' acc s)
  case (Suc fuel)
  then obtain f' where "fuel' = Suc f'" "fuel \<le> f'" by (cases fuel') auto
  moreover from Suc.prems(1) obtain y where "dec s = Some y" by (auto split: option.splits)
  ultimately show ?case using Suc.IH Suc.prems(1) assms(3) by (auto split: sum.splits prod.splits)
qed simp

lemma decodeArrayElems_mono:
  assumes "decodeArrayElems n dec acc s = Some x" and "\<And>s x. dec s = Some x \<Longrightarrow> dec' s = Some x"
  shows "decodeArrayElems n dec' acc s = Some x"
  using assms(1)
proof (induction n arbitrary: acc s)
  case (Suc n)
  from Suc.prems(1) obtain y where "dec s = Some y" by (auto split: option.splits)
  then show ?case using Suc.IH Suc.prems(1) assms(2) by (auto split: sum.splits prod.splits)
qed simp

lemma decodeListSlice_mono:
  assumes "decodeListSlice fuel t dec s = Some x" "fuel \<le> fuel'"
    and "\<And>s x. dec s = Some x \<Longrightarrow> dec' s = Some x"
  shows "decodeListSlice fuel' t dec' s = Some x"
  using assms decodeSliceElems_mono [OF _ assms(2,3)]
  by (fastforce simp: decodeListSlice_def split: prod.splits sum.splits if_splits option.splits)

lemma decodeListArray_mono:
  assumes "decodeListArray n t dec s = Some x" and "\<And>s x. dec s = Some x \<Longrightarrow> dec' s = Some x"
  shows "decodeListArray n t dec' s = Some x"
  using assms decodeArrayElems_mono [OF _ assms(2)]
  by (fastforce simp: decodeListArray_def split: prod.splits sum.splits if_splits option.splits)

lemma decodeInterface_mono:
  "decodeInterface fuel e s = Some x \<Longrightarrow> fuel \<le> fuel' \<Longrightarrow> decodeInterface fuel' e s = Some x"
proof (induction fuel arbitrary: fuel' e s x)
  case (Suc fuel)
  then obtain f' where f': "fuel' = Suc f'" "fuel \<le> f'" by (cases fuel') auto
  have "decodeListSlice fuel t (decodeInterface fuel True) s1 = Some y \<Longrightarrow>
      decodeListSlice f' t (decodeInterface f' True) s1 = Some y" for t s1 y
    using decodeListSlice_mono [OF _ f'(2)] Suc.IH [OF _ f'(2)] by blast
  then show ?case using Suc.prems(1) f'(1)
    by (fastforce split: prod.splits sum.splits if_splits option.splits)
qed simp

lemma decodeValue_mono:
  "decodeValue fuel t ts s = Some x \<Longrightarrow> fuel \<le> fuel' \<Longrightarrow> decodeValue fuel' t ts s = Some x"
  "decodeFields fuel tp fl vs s = Some y \<Longrightarrow> fuel \<le> fuel' \<Longrightarrow> decodeFields fuel' tp fl vs s = Some y"
proof (induction fuel t ts s and fuel tp fl vs s arbitrary: x and y
    rule: decodeValue_decodeFields.induct)
  case (3 fuel t ts s)
  then show ?case by (auto split: if_splits prod.splits sum.splits)
next
  case (8 fuel t ts s)
  show ?case
  proof (cases "isByte t")
    case F: False
    then have IH: "decodeValue fuel t no_tags s = Some x \<Longrightarrow> decodeValue fuel' t no_tags s = Some x" for s x
      using "8.IH" "8.prems"(2) by (cases "tail ts") auto
    show ?thesis
      using F "8.prems" decodeSliceElems_mono [OF _ "8.prems"(2) IH] decodeListSlice_mono [OF _ "8.prems"(2) IH]
      by (auto split: if_splits)
  qed (use "8.prems" in simp)
next
  case (9 fuel n t ts s)
  show ?case
  proof (cases "isByte t")
    case F: False
    then have IH: "decodeValue fuel t no_tags s = Some x \<Longrightarrow> decodeValue fuel' t no_tags s = Some x" for s x
      using "9.IH" "9.prems"(2) by auto
    show ?thesis using F "9.prems" decodeListArray_mono [OF _ IH] by auto
  qed (use "9.prems" in simp)
next
  case (10 fuel nm fs ts s)
  then show ?case by (fastforce split: prod.splits sum.splits option.splits)
next
  case (11 fuel e ts s)
  then show ?case using decodeInterface_mono [of fuel e s x fuel'] by simp
next
  case (14 fuel tp i n ts t fl vs s)
  from "14.prems"(1) obtain r s1 where d: "decodeValue fuel t ts s = Some (r, s1)"
    by (auto split: option.splits)
  then have d': "decodeValue fuel' t ts s = Some (r, s1)" using "14.IH"(1) "14.prems"(2) by blast
  show ?case
  proof (cases r)
    case (Inr v)
    then show ?thesis using "14.prems" "14.IH"(2) [OF d [unfolded Inr]] d d' by simp
  qed (use "14.prems" d d' in simp)
qed (auto split: option.splits)

text \<open>
  The same contract with the amount of fuel that is always enough: more than the number of
  bytes ahead.
\<close>

locale total_decoder = sound_decoder +
  fixes fuel :: nat
  assumes dec_total: "kind_ok s \<Longrightarrow> length (ahead s) < 2 ^ 64 \<Longrightarrow> length (ahead s) < fuel \<Longrightarrow> dec s \<noteq> None"
begin

lemma decodeSliceElems_total:
  "kind_ok s \<Longrightarrow> length (ahead s) < 2 ^ 64 \<Longrightarrow> length (ahead s) < fuel \<Longrightarrow> length (ahead s) < n \<Longrightarrow>
   decodeSliceElems n dec acc s \<noteq> None"
proof (induction n arbitrary: acc s)
  case (Suc n)
  obtain r s1 where d: "dec s = Some (r, s1)" using dec_total [OF Suc.prems(1-3)] by auto
  show ?case
  proof (cases r)
    case (Inr v)
    obtain xs where xs: "consumes (rlps xs) s s1" "rlps xs \<noteq> []"
      using dec_Inr [OF d [unfolded Inr] Suc.prems(1,2)] by blast
    then have "length (ahead s1) < length (ahead s)" by (simp add: consumes_ahead)
    then show ?thesis using Suc.IH [of s1] Suc.prems d Inr consumes_kind_ok [OF xs(1)] by simp
  qed (use d in simp)
qed simp

lemma decodeArrayElems_total:
  "kind_ok s \<Longrightarrow> length (ahead s) < 2 ^ 64 \<Longrightarrow> length (ahead s) < fuel \<Longrightarrow> decodeArrayElems n dec acc s \<noteq> None"
proof (induction n arbitrary: acc s)
  case (Suc n)
  obtain r s1 where d: "dec s = Some (r, s1)" using dec_total [OF Suc.prems(1-3)] by auto
  show ?case
  proof (cases r)
    case (Inr v)
    obtain xs where xs: "consumes (rlps xs) s s1"
      using dec_Inr [OF d [unfolded Inr] Suc.prems(1,2)] by blast
    then show ?thesis using Suc.IH [of s1] Suc.prems d Inr consumes_kind_ok [OF xs] consumes_less [OF xs]
      by simp
  qed (use d in simp)
qed simp

lemma decodeListSlice_total:
  assumes "kind_ok s" "length (ahead s) < 2 ^ 64" "length (ahead s) \<le> fuel"
  shows "decodeListSlice fuel lt dec s \<noteq> None"
proof (cases "List s")
  case (Pair r s1)
  show ?thesis
  proof (cases r)
    case (Inr sz)
    note l = List_Inr [OF Pair [unfolded Inr] assms(1)]
    have "length (ahead s1) < length (ahead s)" using l(1,2) by (simp add: ahead_def)
    then show ?thesis using decodeSliceElems_total [of s1 fuel "[]"] assms l(1) Pair Inr
      by (auto simp: decodeListSlice_def split: option.splits sum.splits)
  qed (use Pair in \<open>simp add: decodeListSlice_def\<close>)
qed

lemma decodeListArray_total:
  assumes "kind_ok s" "length (ahead s) < 2 ^ 64" "length (ahead s) \<le> fuel"
  shows "decodeListArray n lt dec s \<noteq> None"
proof (cases "List s")
  case (Pair r s1)
  show ?thesis
  proof (cases r)
    case (Inr sz)
    note l = List_Inr [OF Pair [unfolded Inr] assms(1)]
    have "length (ahead s1) < length (ahead s)" using l(1,2) by (simp add: ahead_def)
    then show ?thesis using decodeArrayElems_total [of s1 n "[]"] assms l(1) Pair Inr
      by (auto simp: decodeListArray_def split: option.splits sum.splits)
  qed (use Pair in \<open>simp add: decodeListArray_def\<close>)
qed

end

lemma decodeInterface_total: "total_decoder (decodeInterface fuel e) addr (TInterface e) fuel"
proof (induction fuel arbitrary: e addr)
  case 0
  show ?case by unfold_locales simp_all
next
  case (Suc fuel)
  show ?case
  proof
    fix s assume a: "kind_ok s" "length (ahead s) < 2 ^ 64" "length (ahead s) < Suc fuel"
    show "decodeInterface (Suc fuel) e s \<noteq> None"
    proof (cases "Kind s")
      case (Pair r s1)
      show ?thesis
      proof (cases r)
        case (Inr y)
        obtain k sz where y: "y = (k, sz)" by force
        note Ks = Kind_Inr [OF Pair [unfolded Inr y] a(1)]
        show ?thesis
          using total_decoder.decodeListSlice_total [OF Suc.IH [of True True] Ks(7), of "TSlice (TInterface True)"]
            a Ks(2) Pair Inr y
          by (auto split: option.splits)
      qed (use Pair in simp)
    qed
  qed
qed

interpretation iface: total_decoder "decodeInterface fuel e" addr "TInterface e" fuel
  by (rule decodeInterface_total)

lemma total_decoderI:
  assumes "regular t" and "\<And>s. kind_ok s \<Longrightarrow> length (ahead s) < 2 ^ 64 \<Longrightarrow> length (ahead s) < fuel \<Longrightarrow>
      decodeValue fuel t no_tags s \<noteq> None"
  shows "total_decoder (decodeValue fuel t no_tags) True t fuel"
  using assms decodeValue_sound(1) [OF assms(1), of fuel no_tags]
  by (intro total_decoder.intro sound_decoderI total_decoder_axioms.intro) auto

lemma decodeValue_total:
  "regular t \<Longrightarrow> kind_ok s \<Longrightarrow> length (ahead s) < 2 ^ 64 \<Longrightarrow> length (ahead s) < fuel \<Longrightarrow>
   tail ts \<longrightarrow> is_slice_kind t \<Longrightarrow> decodeValue fuel t ts s \<noteq> None"
  "fields_ok fl (length vs) \<Longrightarrow> skind s = None \<Longrightarrow> length (ahead s) < 2 ^ 64 \<Longrightarrow> length (ahead s) < fuel \<Longrightarrow>
   decodeFields fuel tp fl vs s \<noteq> None"
proof (induction fuel t ts s and fuel tp fl vs s rule: decodeValue_decodeFields.induct)
  case (3 fuel t ts s)
  show ?case
  proof (cases "Kind s")
    case (Pair r s1)
    show ?thesis
    proof (cases r)
      case (Inl e)
      then show ?thesis using 3 Pair by (auto simp: map_val_eq)
    next
      case (Inr y)
      obtain k sz where y: "y = (k, sz)" by force
      note Ks = Kind_Inr [OF Pair [unfolded Inr y] "3.prems"(2)]
      show ?thesis using 3 Pair Inr y Ks
        by (cases "decodeValue fuel t no_tags s1"; cases "decodeValue fuel t no_tags s") auto
    qed
  qed
next
  case (4 fuel byValue t ts s)
  then show ?case by (auto split: option.splits)
next
  case (8 fuel t ts s)
  show ?case
  proof (cases "isByte t")
    case F: False
    have tot: "total_decoder (decodeValue fuel t no_tags) True t fuel"
      using F "8.IH" "8.prems"(1) by (intro total_decoderI; cases "tail ts") auto
    show ?thesis
      using F "8.prems" total_decoder.decodeListSlice_total [OF tot, of s "TSlice t"]
        total_decoder.decodeSliceElems_total [OF tot, of s fuel "[]"] by auto
  qed simp
next
  case (9 fuel n t ts s)
  show ?case
  proof (cases "isByte t")
    case F: False
    have tot: "total_decoder (decodeValue fuel t no_tags) True t fuel"
      using F "9.IH" "9.prems"(1) by (intro total_decoderI) auto
    show ?thesis
      using F "9.prems" total_decoder.decodeListArray_total [OF tot, of s n "TArray n t"] by auto
  qed simp
next
  case (10 fuel nm fs ts s)
  show ?case
  proof (cases "structFields fs")
    case (Inr fl)
    have ok: "fields_ok fl (length (map (\<lambda>f. zeroValue (f_type f)) fs))"
      using structFields_ok [OF Inr "10.prems"(1)] by simp
    show ?thesis
    proof (cases "List s")
      case (Pair r s1)
      show ?thesis
      proof (cases r)
        case sz: (Inr sz)
        note l = List_Inr [OF Pair [unfolded sz] "10.prems"(2)]
        have "ahead s1 = rd s1" using l(1) by (simp add: ahead_def)
        then have "decodeFields fuel (TStruct nm fs) fl (map (\<lambda>f. zeroValue (f_type f)) fs) s1 \<noteq> None"
          using "10.prems"(3,4) l(2) by (intro "10.IH" [OF Inr Pair [symmetric] sz ok l(1)]) simp_all
        then show ?thesis using Inr Pair sz by (auto split: option.splits sum.splits)
      qed (use Inr Pair in simp)
    qed
  qed simp
next
  case (11 fuel e ts s)
  then show ?case using iface.dec_total [where fuel = fuel and e = e and s = s] by simp
next
  case (14 fuel tp i n ts t fl vs s)
  have t: "regular t" "tail ts \<longrightarrow> is_slice_kind t" and ok: "fields_ok fl (length vs)"
    using "14.prems"(1) by (auto simp: fields_ok_def)
  obtain r s1 where d: "decodeValue fuel t ts s = Some (r, s1)"
    using "14.IH"(1) [OF t(1)] "14.prems" t(2) by auto
  show ?case
  proof (cases r)
    case (Inr v)
    obtain xs where xs: "consumes (rlps xs) s s1"
      using decodeValue_sound(1) [OF t(1) d] "14.prems" t(2) Inr by (auto simp: value_sound_def)
    have "decodeFields fuel tp fl (vs[i := v]) s1 \<noteq> None"
      using xs "14.prems"(3,4) ok consumes_less [OF xs]
      by (intro "14.IH"(2) [OF d]) (simp_all add: Inr consumes_def)
    then show ?thesis using d Inr by simp
  qed (use d in simp)
qed simp_all

text \<open>
  C4: \<^verbatim>\<open>DecodeBytes\<close> always returns, on every input, for every type without an array of
  one byte: the element loop makes progress, so an amount of fuel above the length of the
  input is enough, and the result does not depend on it.
\<close>

theorem DecodeBytes_terminates:
  assumes "regular t" and "length b < 2 ^ 64"
  shows "\<exists>r. \<forall>fuel. length b < fuel \<longrightarrow> DecodeBytes fuel t b = Some r"
proof -
  let ?s = "Reset True b (of_nat (length b))"
  have "DecodeBytes (Suc (length b)) t b \<noteq> None"
    using decodeValue_total(1) [OF assms(1), of ?s "Suc (length b)" no_tags] assms(2)
    by (auto simp: DecodeBytes_def Stream_Decode_def no_tags_def split: option.splits sum.splits)
  then obtain r where r: "DecodeBytes (Suc (length b)) t b = Some r" by blast
  have "DecodeBytes fuel t b = Some r" if "length b < fuel" for fuel
  proof -
    have "decodeValue (Suc (length b)) t no_tags ?s = Some x \<Longrightarrow> decodeValue fuel t no_tags ?s = Some x" for x
      using decodeValue_mono(1) that by (metis Suc_leI)
    then show ?thesis using r
      by (fastforce simp: DecodeBytes_def Stream_Decode_def split: option.splits sum.splits)
  qed
  then show ?thesis by blast
qed

theorem DecodeBytes_terminates_witness:
  "\<exists>r. \<forall>fuel. 9 < fuel \<longrightarrow> DecodeBytes fuel (TSlice TString) cat_dog_bytes = Some r"
proof -
  have l: "length cat_dog_bytes = 9" by (simp add: cat_dog_bytes_def)
  show ?thesis using DecodeBytes_terminates [of "TSlice TString" cat_dog_bytes] unfolding l by simp
qed

section \<open>Arrays of one byte\<close>

definition byte1 :: rtype where
  "byte1 = TArray 1 (TUint 8)"

lemma decodeByteArray_stuck:
  "skind s = Some KByte \<Longrightarrow> kinderr s = None \<Longrightarrow> byteval s = 0 \<Longrightarrow>
   decodeByteArray (Suc 0) t s = (Inr (VBytes [0]), s)"
  by (simp add: decodeByteArray_def Kind_def cachedKind_def Uint_def Stream_uint_def)

lemma decodeSliceElems_stuck:
  "skind s = Some KByte \<Longrightarrow> kinderr s = None \<Longrightarrow> byteval s = 0 \<Longrightarrow>
   decodeSliceElems fuel (decodeValue n byte1 no_tags) acc s = None"
  by (induction fuel arbitrary: acc) (simp_all add: byte1_def decodeByteArray_stuck)

text \<open>
  C19: the exception is real. Decoding the two bytes \<open>C1 00\<close>, a list of one zero byte, into
  a slice of one-byte arrays never ends: the element decoder drops the error of
  \<^verbatim>\<open>s.Uint()\<close>, which has not moved past the zero byte, so the loop decodes it again
  forever.
\<close>

theorem DecodeBytes_byte1_diverges: "DecodeBytes fuel (TSlice byte1) [0xC1, 0x00] = None"
proof -
  let ?s1 = "\<lparr>rd = [0], remaining = 1, limited = True, skind = None, ssize = 0, byteval = 0,
    kinderr = None, stack = [\<lparr>lpos = 0, lsize = 1\<rparr>]\<rparr>"
  let ?s2 = "\<lparr>rd = [], remaining = 0, limited = True, skind = Some KByte, ssize = 0, byteval = 0,
    kinderr = None, stack = [\<lparr>lpos = 1, lsize = 1\<rparr>]\<rparr>"
  have l: "List (Reset True [0xC1, 0x00] 2) = (Inr 1, ?s1)" by code_simp
  have d: "decodeByteArray 1 (TArray 1 (TUint 8)) ?s1 = (Inr (VBytes [0]), ?s2)" by code_simp
  have "decodeSliceElems fuel (decodeValue fuel byte1 no_tags) [] ?s1 = None"
  proof (cases fuel)
    case (Suc n)
    then show ?thesis using d decodeSliceElems_stuck [of ?s2 n "Suc n" "[VBytes [0]]"]
      by (simp add: byte1_def)
  qed simp
  then show ?thesis
    by (simp add: DecodeBytes_def Stream_Decode_def l decodeListSlice_def byte1_def)
qed

text \<open>
  For the same reason one zero byte in the input fills two elements: \<open>C1 00\<close> is
  accepted as an array of two one-byte arrays, although encoding that value gives
  \<open>C2 00 00\<close>.
\<close>

theorem DecodeBytes_byte1_not_canonical:
  "DecodeBytes fuel (TArray 2 byte1) [0xC1, 0x00] = Some (Inr (VList [VBytes [0], VBytes [0]])) \<and>
   EncodeToBytes (TArray 2 byte1) (VList [VBytes [0], VBytes [0]]) = Inr (Some [0xC2, 0x00, 0x00])"
proof
  have "DecodeBytes 0 (TArray 2 byte1) [0xC1, 0x00] = Some (Inr (VList [VBytes [0], VBytes [0]]))"
    by code_simp
  then show "DecodeBytes fuel (TArray 2 byte1) [0xC1, 0x00] = Some (Inr (VList [VBytes [0], VBytes [0]]))"
    using decodeValue_mono(1) [of 0 "TArray 2 byte1" no_tags _ _ fuel]
    by (fastforce simp: DecodeBytes_def Stream_Decode_def split: option.splits sum.splits)
  show "EncodeToBytes (TArray 2 byte1) (VList [VBytes [0], VBytes [0]]) = Inr (Some [0xC2, 0x00, 0x00])"
    by code_simp
qed

end
