(* ===== verification/Rlp_Safe.thy ===== *)
theory Rlp_Safe
  imports Rlp_Sound
begin

text \<open>
  The decoding stream on hostile input: an invariant of the stack of lists and of the
  input limit that every operation keeps, on success and on failure, and from which it
  follows that no size taken from a header makes an allocation or a slice expression
  panic.
\<close>

section \<open>Invariant\<close>

text \<open>
  \<open>chain c st\<close>: every list of the stack has room for what was read of it and for the list
  above it, which takes \<open>c\<close> bytes. \<open>room c st\<close> is what the lists together still allow to be
  read.
\<close>

fun chain :: "nat \<Rightarrow> listpos list \<Rightarrow> bool" where
  "chain c [] = True"
| "chain c (t # st) = (unat (lpos t) + c \<le> unat (lsize t) \<and> chain (unat (lsize t)) st)"

fun room :: "nat \<Rightarrow> listpos list \<Rightarrow> nat" where
  "room c [] = 0"
| "room c (t # st) = (unat (lsize t) - unat (lpos t) - c) + room (unat (lsize t)) st"

definition stream_inv :: "nat \<Rightarrow> Stream \<Rightarrow> bool" where
  "stream_inv L s \<longleftrightarrow>
     limited s \<and> chain 0 (stack s) \<and> room 0 (stack s) \<le> unat (remaining s) \<and> unat (remaining s) \<le> L
     \<and> (skind s \<noteq> None \<longrightarrow> kinderr s \<noteq> Some RuntimePanic \<and> (kinderr s = None \<longrightarrow> checkSize s = None))"

lemma unat_diff_le: "(p :: u64) \<le> q \<Longrightarrow> unat (q - p) = unat q - unat p"
  by (rule unat_sub)

lemma unat_add_le:
  assumes "unat (p :: u64) + unat n \<le> unat (q :: u64)"
  shows "unat (p + n) = unat p + unat n"
  using assms u64_bound [of q] by (simp add: unat_word_ariths)

lemma stream_inv_cong:
  "limited s' = limited s \<Longrightarrow> stack s' = stack s \<Longrightarrow> remaining s' = remaining s \<Longrightarrow>
   (skind s' \<noteq> None \<longrightarrow> kinderr s' \<noteq> Some RuntimePanic \<and> (kinderr s' = None \<longrightarrow> checkSize s' = None)) \<Longrightarrow>
   stream_inv L s \<Longrightarrow> stream_inv L s'"
  by (simp add: stream_inv_def)

lemma willRead_inv:
  assumes "willRead n s = (e, s')" "stream_inv L s"
  shows "stream_inv L s'" and "e \<noteq> Some RuntimePanic"
proof -
  show "e \<noteq> Some RuntimePanic" using assms(1)
    by (auto simp: willRead_def Let_def split: list.splits if_splits)
  show "stream_inv L s'"
  proof (cases "stack s")
    case Nil
    then show ?thesis using assms
      by (auto simp: willRead_def Let_def stream_inv_def unat_diff_le split: if_splits)
  next
    case (Cons t st)
    have c: "unat (lpos t) \<le> unat (lsize t)" using assms(2) Cons by (simp add: stream_inv_def)
    show ?thesis
    proof (cases "n > lsize t - lpos t")
      case True
      then show ?thesis using assms Cons by (auto simp: willRead_def stream_inv_def)
    next
      case False
      then have n: "unat (lpos t) + unat n \<le> unat (lsize t)"
        using c by (simp add: word_less_nat_alt unat_diff_le word_le_nat_alt)
      note add = unat_add_le [OF n]
      show ?thesis using assms Cons False n add
        by (auto simp: willRead_def Let_def stream_inv_def unat_diff_le word_less_nat_alt not_less
            word_le_nat_alt split: if_splits)
    qed
  qed
qed

lemma readByte_inv:
  assumes "readByte s = (r, s')" "stream_inv L s"
  shows "stream_inv L s'" "r \<noteq> Inl RuntimePanic" "skind s' = None"
  using assms willRead_inv [of 1 s _ _ L] willRead_skind [of 1 s]
  by (auto simp: readByte_def split: prod.splits option.splits list.splits intro: stream_inv_cong)

lemma readFull_inv:
  assumes "readFull n s = (r, s')" "stream_inv L s"
  shows "stream_inv L s'" "r \<noteq> Inl RuntimePanic" "skind s' = None"
  using assms willRead_inv [of "of_nat n" s _ _ L] willRead_skind [of "of_nat n" s]
  by (auto simp: readFull_def split: prod.splits option.splits if_splits intro: stream_inv_cong)

lemma stream_inv_rearm [simp]: "stream_inv L s \<Longrightarrow> stream_inv L (s\<lparr>skind := None\<rparr>)"
  by (simp add: stream_inv_def)

lemma readUint_inv:
  assumes "readUint n s = (r, s')" "stream_inv L s"
  shows "stream_inv L s'" "r \<noteq> Inl RuntimePanic" "skind s' = None"
  using assms readByte_inv [of s _ _ L] readFull_inv [of "unat n" s _ _ L]
  by (auto simp: readUint_def split: prod.splits sum.splits if_splits)

lemma readSized_inv:
  assumes "readSized k n s = ((k', sz, e), s')" "stream_inv L s"
  shows "stream_inv L s'" "e \<noteq> Some RuntimePanic"
  using assms readUint_inv [of n s _ _ L]
  by (auto simp: readSized_def split: prod.splits sum.splits if_splits)

lemma readKind_inv:
  assumes "readKind s = ((k, sz, e), s')" "stream_inv L s"
  shows "stream_inv L s'" "e \<noteq> Some RuntimePanic"
proof -
  obtain r s1 where r: "readByte s = (r, s1)" by force
  note inv = readByte_inv [OF r assms(2)]
  have "stream_inv L s' \<and> e \<noteq> Some RuntimePanic"
  proof (cases r)
    case (Inl x)
    then show ?thesis using assms(1) r inv by (auto simp: readKind_def split: if_splits)
  next
    case (Inr b)
    have "stream_inv L (s1\<lparr>byteval := c\<rparr>)" for c using inv by (auto intro: stream_inv_cong)
    then show ?thesis using assms(1) r Inr readSized_inv [of _ _ "s1\<lparr>byteval := 0\<rparr>" k sz e s' L]
      by (auto simp: readKind_def Let_def split: if_splits)
  qed
  then show "stream_inv L s'" "e \<noteq> Some RuntimePanic" by blast+
qed

lemma Kind_inv:
  assumes "Kind s = (r, s')" "stream_inv L s"
  shows "stream_inv L s'" "r \<noteq> Inl RuntimePanic"
    "r = Inr (k, sz) \<Longrightarrow> skind s' = Some k \<and> ssize s' = sz \<and> kinderr s' = None"
proof -
  have "stream_inv L s' \<and> r \<noteq> Inl RuntimePanic \<and>
      (r = Inr (k, sz) \<longrightarrow> skind s' = Some k \<and> ssize s' = sz \<and> kinderr s' = None)"
  proof (cases "skind s")
    case None
    let ?s0 = "s\<lparr>kinderr := None\<rparr>"
    have inv0: "stream_inv L ?s0" using assms(2) None by (simp add: stream_inv_def)
    obtain k' sz' e s1 where rk: "readKind ?s0 = ((k', sz', e), s1)" by (metis prod_cases3 surj_pair)
    note rk_inv = readKind_inv [OF rk inv0]
    have c: "checkSize (s1\<lparr>skind := a, ssize := b, kinderr := c\<rparr>) \<noteq> Some RuntimePanic" for a b c
      by (simp add: checkSize_def split: list.splits)
    have c2: "checkSize (s1\<lparr>skind := a, ssize := b, kinderr := c\<rparr>) = checkSize (s1\<lparr>ssize := b\<rparr>)" for a b c
      by (simp add: checkSize_def split: list.splits)
    show ?thesis using assms(1) None inv0 rk rk_inv c
      by (auto simp: Kind_def Let_def cachedKind_def stream_inv_def c2 split: if_splits option.splits)
  next
    case (Some k')
    then show ?thesis using assms by (auto simp: Kind_def cachedKind_def stream_inv_def split: option.splits)
  qed
  then show "stream_inv L s'" "r \<noteq> Inl RuntimePanic"
    "r = Inr (k, sz) \<Longrightarrow> skind s' = Some k \<and> ssize s' = sz \<and> kinderr s' = None" by blast+
qed

lemma Kind_size:
  assumes "Kind s = (Inr (k, sz), s')" "stream_inv L s"
  shows "unat sz \<le> L" "case stack s' of [] \<Rightarrow> True | t # st \<Rightarrow> unat (lpos t) + unat sz \<le> unat (lsize t)"
proof -
  note K = Kind_inv(1) [OF assms] Kind_inv(3) [OF assms refl]
  then have "checkSize s' = None" by (simp add: stream_inv_def)
  then have "unat sz \<le> L \<and> (case stack s' of [] \<Rightarrow> True | t # st \<Rightarrow> unat (lpos t) + unat sz \<le> unat (lsize t))"
    using K by (cases "stack s'") (auto simp: checkSize_def stream_inv_def word_less_nat_alt
        unat_diff_le word_le_nat_alt split: if_splits)
  then show "unat sz \<le> L" "case stack s' of [] \<Rightarrow> True | t # st \<Rightarrow> unat (lpos t) + unat sz \<le> unat (lsize t)"
    by auto
qed

section \<open>Operations\<close>

text \<open>The limit below which no allocation can fail: room for a header above the input.\<close>

definition allocLimit :: nat where
  "allocLimit = unat maxAlloc - 9"

lemma unat_maxAlloc: "unat maxAlloc = 2 ^ 48"
  by (simp add: maxAlloc_def)

lemma Bytes_inv:
  assumes "Bytes s = (r, s')" "stream_inv L s" "L \<le> allocLimit"
  shows "stream_inv L s'" "r \<noteq> Inl RuntimePanic"
proof -
  obtain k0 s1 where K: "Kind s = (k0, s1)" by force
  note Ki = Kind_inv(1,2) [OF K assms(2)]
  have sz: "\<not> sz > maxAlloc" if "k0 = Inr (k, sz)" for k sz
    using Kind_size(1) [OF K [unfolded that] assms(2)] assms(3)
    by (simp add: word_less_nat_alt allocLimit_def)
  have "stream_inv L s' \<and> r \<noteq> Inl RuntimePanic"
    using assms(1) K Ki sz readFull_inv [OF _ Ki(1)]
    by (auto simp: Bytes_def split: sum.splits prod.splits Kind.splits if_splits)
  then show "stream_inv L s'" "r \<noteq> Inl RuntimePanic" by blast+
qed

lemma Raw_inv:
  assumes "Raw s = (r, s')" "stream_inv L s" "L \<le> allocLimit"
  shows "stream_inv L s'" "r \<noteq> Inl RuntimePanic"
proof -
  obtain k0 s1 where K: "Kind s = (k0, s1)" by force
  note Ki = Kind_inv(1,2) [OF K assms(2)]
  have sz: "\<not> (of_nat (headsize sz) + sz > maxAlloc \<or> unat (of_nat (headsize sz) + sz :: u64) < headsize sz)"
    if "k0 = Inr (k, sz)" for k sz
  proof -
    have le: "unat sz + 9 \<le> 2 ^ 48"
      using Kind_size(1) [OF K [unfolded that] assms(2)] assms(3)
      by (simp add: allocLimit_def unat_maxAlloc)
    have "unat (of_nat (headsize sz) + sz :: u64) = headsize sz + unat sz"
      using le headsize_bound [of sz] by (simp add: unat_word_ariths unat_of_nat)
    then show ?thesis using le headsize_bound [of sz] by (simp add: word_less_nat_alt unat_maxAlloc)
  qed
  have "stream_inv L s' \<and> r \<noteq> Inl RuntimePanic"
    using assms(1) K Ki sz readFull_inv [OF _ Ki(1)]
    by (auto simp: Raw_def Let_def split: sum.splits prod.splits Kind.splits if_splits)
  then show "stream_inv L s'" "r \<noteq> Inl RuntimePanic" by blast+
qed

lemma Stream_uint_inv:
  assumes "Stream_uint n s = (r, s')" "stream_inv L s"
  shows "stream_inv L s'" "r \<noteq> Inl RuntimePanic"
proof -
  obtain k0 s1 where K: "Kind s = (k0, s1)" by force
  note Ki = Kind_inv(1,2) [OF K assms(2)]
  have "stream_inv L s' \<and> r \<noteq> Inl RuntimePanic"
    using assms(1) K Ki readUint_inv [OF _ Ki(1)]
    by (auto simp: Stream_uint_def split: sum.splits prod.splits Kind.splits if_splits)
  then show "stream_inv L s'" "r \<noteq> Inl RuntimePanic" by blast+
qed

lemma Bool_inv:
  assumes "Bool s = (r, s')" "stream_inv L s"
  shows "stream_inv L s'" "r \<noteq> Inl RuntimePanic"
  using assms Stream_uint_inv [of 8 s _ _ L]
  by (auto simp: Bool_def split: sum.splits prod.splits if_splits)

lemma List_inv:
  assumes "List s = (r, s')" "stream_inv L s"
  shows "stream_inv L s'" "r \<noteq> Inl RuntimePanic"
proof -
  obtain k0 s1 where K: "Kind s = (k0, s1)" by force
  note Ki = Kind_inv(1,2) [OF K assms(2)]
  have push: "stream_inv L (s1\<lparr>stack := \<lparr>lpos = 0, lsize = sz\<rparr> # stack s1, skind := None, ssize := 0\<rparr>)"
    if "k0 = Inr (k, sz)" for k sz
  proof -
    note sz = Kind_size(2) [OF K [unfolded that] assms(2)]
    have cs: "checkSize s1 = None" "ssize s1 = sz"
      using Ki(1) Kind_inv(3) [OF K assms(2) that] by (simp_all add: stream_inv_def)
    show ?thesis
    proof (cases "stack s1")
      case Nil
      then show ?thesis using Ki(1) cs
        by (auto simp: stream_inv_def checkSize_def word_less_nat_alt split: if_splits)
    next
      case (Cons t st)
      then show ?thesis using Ki(1) sz by (simp add: stream_inv_def)
    qed
  qed
  have "stream_inv L s' \<and> r \<noteq> Inl RuntimePanic"
    using assms(1) K Ki push by (auto simp: List_def split: sum.splits prod.splits if_splits)
  then show "stream_inv L s'" "r \<noteq> Inl RuntimePanic" by blast+
qed

lemma ListEnd_inv:
  assumes "ListEnd s = (r, s')" "stream_inv L s"
  shows "stream_inv L s'" "r \<noteq> Inl RuntimePanic"
proof -
  show "r \<noteq> Inl RuntimePanic" using assms(1) by (auto simp: ListEnd_def split: list.splits if_splits)
  show "stream_inv L s'"
  proof (cases "stack s")
    case Nil
    then show ?thesis using assms by (simp add: ListEnd_def)
  next
    case (Cons t st)
    show ?thesis
    proof (cases st)
      case Nil
      then show ?thesis using assms Cons by (auto simp: ListEnd_def stream_inv_def split: if_splits)
    next
      case st: (Cons p st')
      have "unat (lpos p) + unat (lsize t) \<le> unat (lsize p)"
        using assms(2) Cons st by (simp add: stream_inv_def)
      note add = unat_add_le [OF this]
      show ?thesis using assms Cons st add by (auto simp: ListEnd_def stream_inv_def split: if_splits)
    qed
  qed
qed

lemma ListEnd_no_panic: "ListEnd s \<noteq> (Inl RuntimePanic, s')"
  by (auto simp: ListEnd_def split: list.splits)

lemma readFull_no_panic: "readFull n s \<noteq> (Inl RuntimePanic, s')"
  by (auto simp: readFull_def willRead_def Let_def split: list.splits)

section \<open>Decoders\<close>

lemma error_map_panic [simp]:
  "addErrorContext e c = RuntimePanic \<longleftrightarrow> e = RuntimePanic" "RuntimePanic = addErrorContext e c \<longleftrightarrow> e = RuntimePanic"
  "addTargetType e t = RuntimePanic \<longleftrightarrow> e = RuntimePanic" "RuntimePanic = addTargetType e t \<longleftrightarrow> e = RuntimePanic"
  "wrapStreamError e t = RuntimePanic \<longleftrightarrow> e = RuntimePanic" "RuntimePanic = wrapStreamError e t \<longleftrightarrow> e = RuntimePanic"
  by (cases e; simp add: wrapStreamError_def)+

text \<open>The contract of a decoder that keeps the invariant and never panics.\<close>

locale safe_decoder =
  fixes dec :: "Stream \<Rightarrow> rval dres" and L :: nat
  assumes limit: "L \<le> allocLimit"
    and dec_safe: "dec s = Some (r, s') \<Longrightarrow> stream_inv L s \<Longrightarrow> stream_inv L s' \<and> r \<noteq> Inl RuntimePanic"
begin

lemma decodeSliceElems_safe:
  "decodeSliceElems fuel dec acc s = Some (r, s') \<Longrightarrow> stream_inv L s \<Longrightarrow>
   stream_inv L s' \<and> r \<noteq> Inl RuntimePanic"
proof (induction fuel arbitrary: acc s)
  case (Suc fuel)
  from Suc.prems(1) obtain r1 s1 where "dec s = Some (r1, s1)" by (auto split: option.splits)
  with Suc.prems Suc.IH dec_safe show ?case by (cases r1) (fastforce split: if_splits)+
qed simp

lemma decodeArrayElems_safe:
  "decodeArrayElems n dec acc s = Some (r, s') \<Longrightarrow> stream_inv L s \<Longrightarrow>
   stream_inv L s' \<and> r \<noteq> Inl RuntimePanic"
proof (induction n arbitrary: acc s)
  case (Suc n)
  from Suc.prems(1) obtain r1 s1 where "dec s = Some (r1, s1)" by (auto split: option.splits)
  with Suc.prems Suc.IH dec_safe show ?case by (cases r1) (fastforce split: if_splits)+
qed auto

lemma decodeListSlice_safe:
  assumes "decodeListSlice fuel t dec s = Some (r, s')" "stream_inv L s"
  shows "stream_inv L s' \<and> r \<noteq> Inl RuntimePanic"
proof -
  obtain l s1 where l: "List s = (l, s1)" by force
  note li = List_inv [OF l assms(2)]
  show ?thesis using assms(1) l li
    by (auto simp: decodeListSlice_def map_val_def ListEnd_inv ListEnd_no_panic
        split: sum.splits prod.splits option.splits if_splits
        dest!: decodeSliceElems_safe [OF _ li(1)])
qed

lemma decodeListArray_safe:
  assumes "decodeListArray n t dec s = Some (r, s')" "stream_inv L s"
  shows "stream_inv L s' \<and> r \<noteq> Inl RuntimePanic"
proof -
  obtain l s1 where l: "List s = (l, s1)" by force
  note li = List_inv [OF l assms(2)]
  show ?thesis using assms(1) l li
    by (auto simp: decodeListArray_def map_val_def map_err_def ListEnd_inv ListEnd_no_panic
        split: sum.splits prod.splits option.splits if_splits
        dest!: decodeArrayElems_safe [OF _ li(1)])
qed

end

lemma decodeInterface_safe: "L \<le> allocLimit \<Longrightarrow> safe_decoder (decodeInterface fuel e) L"
proof (induction fuel arbitrary: e)
  case 0
  then show ?case by unfold_locales simp_all
next
  case (Suc fuel)
  show ?case
  proof
    fix s r s' assume a: "decodeInterface (Suc fuel) e s = Some (r, s')" "stream_inv L s"
    obtain k0 s1 where K: "Kind s = (k0, s1)" by force
    note Ki = Kind_inv(1,2) [OF K a(2)]
    show "stream_inv L s' \<and> r \<noteq> Inl RuntimePanic"
      using a K Ki Bytes_inv [OF _ Ki(1) Suc.prems]
        safe_decoder.decodeListSlice_safe [OF Suc.IH [OF Suc.prems, of True] _ Ki(1)]
      by (fastforce simp: map_val_def split: sum.splits prod.splits option.splits if_splits)
  qed (rule Suc.prems)
qed

interpretation iface: safe_decoder "decodeInterface fuel e" allocLimit
  by (rule decodeInterface_safe) simp

lemma decodeBigInt_safe:
  "decodeBigInt s = (r, s') \<Longrightarrow> stream_inv L s \<Longrightarrow> L \<le> allocLimit \<Longrightarrow> stream_inv L s' \<and> r \<noteq> Inl RuntimePanic"
  using Bytes_inv [of s _ _ L]
  by (auto simp: decodeBigInt_def split: prod.splits sum.splits if_splits)

lemma decodeByteArray_safe:
  assumes "decodeByteArray n t s = (r, s')" "stream_inv L s"
  shows "stream_inv L s' \<and> r \<noteq> Inl RuntimePanic"
proof -
  obtain k0 s1 where K: "Kind s = (k0, s1)" by force
  note Ki = Kind_inv(1,2) [OF K assms(2)]
  show ?thesis
    using assms(1) K Ki Stream_uint_inv [OF _ Ki(1)] readFull_inv [OF _ Ki(1)]
    by (auto simp: decodeByteArray_def Uint_def readFull_no_panic split: sum.splits prod.splits Kind.splits if_splits)
qed

lemma decodeValue_safe:
  "decodeValue fuel t ts s = Some (r, s') \<Longrightarrow> stream_inv L s \<Longrightarrow> L \<le> allocLimit \<Longrightarrow>
   stream_inv L s' \<and> r \<noteq> Inl RuntimePanic"
  "decodeFields fuel tp fl vs s = Some (q, s') \<Longrightarrow> stream_inv L s \<Longrightarrow> L \<le> allocLimit \<Longrightarrow>
   stream_inv L s' \<and> q \<noteq> Inl RuntimePanic"
proof (induction fuel t ts s and fuel tp fl vs s arbitrary: r s' and q s'
    rule: decodeValue_decodeFields.induct)
  case (1 fuel ts s)
  then show ?case using Raw_inv [of s _ _ L] by (auto simp: decodeRawValue_def map_val_def split: sum.splits prod.splits)
next
  case (2 fuel ts s)
  then show ?case using decodeBigInt_safe [of s r s' L] by simp
next
  case (3 fuel t ts s)
  obtain k0 s1 where K: "Kind s = (k0, s1)" by force
  note Ki = Kind_inv(1,2) [OF K "3.prems"(2)]
  consider "t = TBigInt" | "t \<noteq> TBigInt" "\<not> nilOK ts" | e where "t \<noteq> TBigInt" "nilOK ts" "k0 = Inl e"
    | k sz where "t \<noteq> TBigInt" "nilOK ts" "k0 = Inr (k, sz)" by (cases k0) auto
  then show ?case
  proof cases
    case 1
    then show ?thesis using "3.prems" decodeBigInt_safe [of s _ s' L]
      by (auto simp: map_val_def split: sum.splits prod.splits)
  next
    case 2
    then obtain r' where "decodeValue fuel t no_tags s = Some (r', s')" "r = map_sum id VPtr r'"
      using "3.prems"(1) by (auto simp: map_val_eq)
    then show ?thesis using "3.IH"(1) [OF 2] "3.prems" by (cases r') auto
  next
    case 3
    then show ?thesis using "3.prems" K Ki by auto
  next
    case 4
    show ?thesis
    proof (cases "k \<noteq> KByte \<and> sz = 0")
      case True
      then show ?thesis using 4 K Ki "3.prems"(1) by (auto simp: nilKindError_def split: if_splits)
    next
      case False
      then obtain r' where "decodeValue fuel t no_tags s1 = Some (r', s')" "r = map_sum id VPtr r'"
        using 4 K "3.prems"(1) by (auto simp: map_val_eq)
      then show ?thesis using "3.IH"(2) [OF 4(1) _ K [symmetric] 4(3) refl False] 4(2) Ki(1) "3.prems"(3)
        by (cases r') auto
    qed
  qed
next
  case (4 fuel byValue t ts s)
  show ?case
  proof (cases "makeDecoderErr t")
    case None
    with "4.prems"(1) obtain r' where "decodeValue fuel t no_tags s = Some (r', s')"
      "r = map_sum (\<lambda>e. addTargetType e t) id r'" by (auto simp: map_err_eq)
    then show ?thesis using "4.IH" [OF None] "4.prems" by (cases r') auto
  qed (use "4.prems" makeDecoderErr_Some [of t] in auto)
next
  case (5 fuel n ts s)
  then show ?case using Stream_uint_inv [of n s _ _ L]
    by (auto simp: decodeUint_def map_val_def map_err_def split: sum.splits prod.splits)
next
  case (6 fuel ts s)
  then show ?case using Bool_inv [of s _ _ L]
    by (auto simp: decodeBool_def map_val_def map_err_def split: sum.splits prod.splits)
next
  case (7 fuel ts s)
  then show ?case using Bytes_inv [of s _ _ L]
    by (auto simp: decodeString_def map_val_def map_err_def split: sum.splits prod.splits)
next
  case (8 fuel t ts s)
  show ?case
  proof (cases "isByte t")
    case True
    with 8 show ?thesis using Bytes_inv [of s _ _ L]
      by (auto simp: decodeByteSlice_def map_val_def map_err_def split: sum.splits prod.splits)
  next
    case F: False
    have safe: "safe_decoder (decodeValue fuel t no_tags) L"
      using F 8 by unfold_locales (cases "tail ts"; blast)+
    show ?thesis
    proof (cases "tail ts")
      case True
      then obtain r' where "decodeSliceElems fuel (decodeValue fuel t no_tags) [] s = Some (r', s')"
        "r = map_sum id VList r'" using F "8.prems"(1) by (auto simp: map_val_eq)
      then show ?thesis using safe_decoder.decodeSliceElems_safe [OF safe] "8.prems"(2)
        by (cases r') fastforce+
    next
      case False
      then show ?thesis using F "8.prems" safe_decoder.decodeListSlice_safe [OF safe] by fastforce
    qed
  qed
next
  case (9 fuel n t ts s)
  show ?case
  proof (cases "isByte t")
    case True
    with 9 show ?thesis using decodeByteArray_safe [of n "TArray n t" s r s' L] by simp
  next
    case F: False
    have safe: "safe_decoder (decodeValue fuel t no_tags) L"
      using F 9 by unfold_locales blast+
    show ?thesis using "9.prems" F safe_decoder.decodeListArray_safe [OF safe] by fastforce
  qed
next
  case (10 fuel nm fs ts s)
  obtain l s1 where l: "List s = (l, s1)" by force
  note li = List_inv [OF l "10.prems"(2)]
  show ?case
  proof (cases "structFields fs")
    case (Inr fl)
    show ?thesis
    proof (cases l)
      case sz: (Inr sz)
      obtain q s2 where q: "decodeFields fuel (TStruct nm fs) fl (map (\<lambda>f. zeroValue (f_type f)) fs) s1 = Some (q, s2)"
        using "10.prems"(1) Inr l sz by (auto split: option.splits)
      have "stream_inv L s2 \<and> q \<noteq> Inl RuntimePanic"
        using "10.IH" [OF Inr l [symmetric] sz q li(1) "10.prems"(3)] .
      then show ?thesis using "10.prems"(1) Inr l sz q ListEnd_inv [of s2 _ _ L] ListEnd_no_panic
        by (cases q) (auto simp: map_val_def map_err_def split: sum.splits prod.splits)
    qed (use "10.prems"(1) Inr l li in auto)
  qed (use "10.prems" structFields_Inl [of fs] in auto)
next
  case (11 fuel e ts s)
  then show ?case using safe_decoder.dec_safe [OF decodeInterface_safe] by fastforce
next
  case (14 fuel tp i n ts t fl vs s)
  from "14.prems"(1) obtain r1 s1 where d: "decodeValue fuel t ts s = Some (r1, s1)"
    by (auto split: option.splits)
  then have "stream_inv L s1 \<and> r1 \<noteq> Inl RuntimePanic" using "14.IH"(1) "14.prems" by blast
  then show ?case using 14 d by (cases r1) (auto split: if_splits)
qed auto

lemma Reset_inv: "unat n \<le> L \<Longrightarrow> (n > 0 \<or> length b \<le> L \<and> L < 2 ^ 64 \<and> known) \<Longrightarrow> stream_inv L (Reset known b n)"
  by (auto simp: Reset_def stream_inv_def unat_of_nat)



end
