(* ===== verification/Rlp_Complete.thy ===== *)
theory Rlp_Complete
  imports Rlp_Safe
begin

text \<open>
  The operations of a decoding stream on well-formed input: when the encoding of a value
  lies ahead and fits into the enclosing list and the limit, the operation that reads such
  a value succeeds and returns it.
\<close>

section \<open>Looking ahead does not change what is decoded\<close>

lemma Kind_idem: "Kind s = (Inr x, s1) \<Longrightarrow> Kind s1 = (Inr x, s1)"
  by (auto simp: Kind_def Let_def cachedKind_def split: if_splits prod.splits option.splits)

lemma op_peek:
  assumes "Kind s = (Inr x, s1)"
  shows "Bytes s1 = Bytes s" "Raw s1 = Raw s" "Stream_uint n s1 = Stream_uint n s" "Bool s1 = Bool s"
    "List s1 = List s" "decodeBigInt s1 = decodeBigInt s" "decodeByteArray n t s1 = decodeByteArray n t s"
    "decodeListSlice fuel t dec s1 = decodeListSlice fuel t dec s"
    "decodeListArray n t dec s1 = decodeListArray n t dec s"
proof -
  note K = assms Kind_idem [OF assms]
  show b: "Bytes s1 = Bytes s" and "Raw s1 = Raw s" and u: "\<And>n. Stream_uint n s1 = Stream_uint n s"
    and l: "List s1 = List s" "decodeByteArray n t s1 = decodeByteArray n t s"
    by (simp_all add: Bytes_def Raw_def Stream_uint_def List_def decodeByteArray_def K)
  show "Bool s1 = Bool s" by (simp add: Bool_def u)
  show "decodeBigInt s1 = decodeBigInt s" by (simp add: decodeBigInt_def b)
  show "decodeListSlice fuel t dec s1 = decodeListSlice fuel t dec s" by (simp add: decodeListSlice_def l)
  show "decodeListArray n t dec s1 = decodeListArray n t dec s" by (simp add: decodeListArray_def l)
qed

lemma decodeValue_peek:
  assumes "Kind s = (Inr x, s1)"
  shows "decodeValue fuel t ts s = Some (Inr v, s') \<Longrightarrow> \<not> tail ts \<Longrightarrow> decodeValue fuel t ts s1 = Some (Inr v, s')"
proof (induction t arbitrary: ts v)
  case (TPtr t)
  then show ?case using Kind_idem [OF assms] assms by (auto simp: op_peek [OF assms] split: if_splits)
next
  case (TCoder bv t)
  then show ?case by (auto split: option.splits)
next
  case (TInterface e)
  then show ?case using Kind_idem [OF assms] assms by (cases fuel) (auto simp: op_peek [OF assms] split: if_splits)
qed (auto simp: decodeRawValue_def decodeUint_def decodeBool_def decodeString_def decodeByteSlice_def
      op_peek [OF assms] split: sum.splits)

section \<open>Reading what fits\<close>

definition fits :: "nat \<Rightarrow> Stream \<Rightarrow> bool" where
  "fits n s \<longleftrightarrow> (limited s \<longrightarrow> n \<le> unat (remaining s)) \<and>
     (case stack s of [] \<Rightarrow> True | t # st \<Rightarrow> unat (lpos t) + n \<le> unat (lsize t))"

lemma fits_mono: "fits n s \<Longrightarrow> m \<le> n \<Longrightarrow> fits m s"
  by (auto simp: fits_def split: list.splits)

lemma fits_eat:
  assumes "raw_pos s' = eat m (raw_pos s)" "fits (m + n) s"
  shows "fits n s'"
proof -
  have m: "unat (of_nat m :: u64) = m" if "m \<le> unat (q :: u64)" for q
    using that u64_bound [of q] by (simp add: unat_of_nat)
  have rem: "n \<le> unat (remaining s - of_nat m)" if "limited s"
  proof -
    have le: "m + n \<le> unat (remaining s)" using assms(2) that by (simp add: fits_def)
    then show ?thesis using m [of "remaining s"] by (simp add: unat_diff_le word_le_nat_alt)
  qed
  have pos: "unat (lpos t + of_nat m) + n \<le> unat (lsize t)" if "stack s = t # st" for t st
  proof -
    have le: "unat (lpos t) + (m + n) \<le> unat (lsize t)" using assms(2) that by (simp add: fits_def)
    then show ?thesis using m [of "lsize t"] unat_add_le [of "lpos t" "of_nat m" "lsize t"] by simp
  qed
  show ?thesis using assms(1) rem pos
    by (cases "stack s") (auto simp: raw_pos_def fits_def)
qed

lemma consumes_fits:
  "consumes b s s' \<Longrightarrow> skind s = None \<Longrightarrow> fits (length b + n) s \<Longrightarrow> fits n s'"
  using fits_eat [of s' "length b" s n] by (simp add: consumes_def)

lemma willRead_fits:
  assumes "fits (unat n) s"
  shows "willRead n s = (None, s\<lparr>skind := None, remaining := (if limited s then remaining s - n else remaining s),
          stack := bump n (stack s)\<rparr>)"
proof (cases "stack s")
  case Nil
  then show ?thesis using assms
    by (auto simp: willRead_def Let_def fits_def word_less_nat_alt)
next
  case (Cons t st)
  then have "\<not> n > lsize t - lpos t" using assms
    by (auto simp: fits_def word_less_nat_alt unat_diff_le word_le_nat_alt)
  then show ?thesis using assms Cons by (auto simp: willRead_def Let_def fits_def word_less_nat_alt)
qed

lemma readByte_fits:
  "fits 1 s \<Longrightarrow> rd s = b # bs \<Longrightarrow> \<exists>s1. readByte s = (Inr b, s1)"
  by (simp add: readByte_def willRead_fits)

lemma readFull_fits:
  "fits (length b) s \<Longrightarrow> length b < 2 ^ 64 \<Longrightarrow> rd s = b @ bs \<Longrightarrow> \<exists>s1. readFull (length b) s = (Inr b, s1)"
  by (simp add: readFull_def willRead_fits unat_of_nat)


lemma readUint_fits:
  assumes "fits (length b) s" "rd s = b @ bs" "length b = unat n" "0 < unat n" "unat n \<le> 8" "hd b \<noteq> 0"
  shows "\<exists>s1. readUint n s = (Inr (of_nat (be_val b)), s1)"
proof (cases "n = 1")
  case True
  then obtain x where x: "b = [x]" using assms(3) by (auto simp: length_Suc_conv)
  have "(of_nat (unat x) :: u64) = ucast x" by simp
  then show ?thesis using True x readByte_fits [of s x bs] assms(1,2) by (auto simp: readUint_def)
next
  case False
  have "n \<noteq> 0" using assms(4) by auto
  with False show ?thesis using readFull_fits [of b s bs] assms by (auto simp: readUint_def)
qed

lemma fits_cong: "raw_pos s' = raw_pos s \<Longrightarrow> fits n s' = fits n s"
  by (simp add: fits_def raw_pos_def)

lemma readSized_fits:
  assumes "fits (length b) s" "rd s = b @ bs" "b = be_bytes (unat sz)" "\<not> sz < 56" "unat n = length b"
  shows "\<exists>s1. readSized k n s = ((k, sz, None), s1)"
proof -
  have sz: "56 \<le> unat sz" using assms(4) by (simp add: word_less_nat_alt)
  have b: "be_val b = unat sz" using assms(3) by simp
  have ne: "b \<noteq> []" using assms(3) sz by auto
  have "hd b \<noteq> 0" using be_bytes_hd [of "unat sz"] assms(3) sz by simp
  moreover have "length b \<le> 8"
    using assms(3) length_be_bytes_le [of "unat sz" 8] u64_bound [of sz] by simp
  ultimately obtain s1 where "readUint n s = (Inr sz, s1)"
    using readUint_fits [OF assms(1,2) assms(5) [symmetric]] ne b assms(5) by fastforce
  then show ?thesis using assms(4) by (simp add: readSized_def)
qed

lemma kind_head_long:
  assumes "\<not> sz < 56"
  shows "puthead small large sz = (large + of_nat (length (be_bytes (unat sz)))) # be_bytes (unat sz)"
    and "0 < length (be_bytes (unat sz))" and "length (be_bytes (unat sz)) \<le> 8"
proof -
  have sz: "56 \<le> unat sz" using assms by (simp add: word_less_nat_alt)
  then show "0 < length (be_bytes (unat sz))" by auto
  show "length (be_bytes (unat sz)) \<le> 8"
    using length_be_bytes_le [of "unat sz" 8] u64_bound [of sz] by simp
  have "sz \<noteq> 0" using sz by auto
  then show "puthead small large sz = (large + of_nat (length (be_bytes (unat sz)))) # be_bytes (unat sz)"
    using assms by (simp add: puthead_def Let_def putint_be_bytes)
qed

lemma unat_add_byte: "c + n < 256 \<Longrightarrow> unat (of_nat c + of_nat n :: byte) = c + n"
  by (simp add: unat_of_nat flip: of_nat_add)

lemma readKind_fits:
  assumes "fits (length (kind_head k sz bv)) s" "rd s = kind_head k sz bv @ bs"
    "k = KByte \<longrightarrow> bv < 0x80 \<and> sz = 0" "skind s = None"
  shows "\<exists>s1. readKind s = ((k, sz, None), s1)"
proof -
  have len: "0 < length (kind_head k sz bv)"
    by (simp add: kind_head_def puthead_def Let_def split: Kind.split)
  define h t where ht: "h = hd (kind_head k sz bv)" "t = tl (kind_head k sz bv)"
  then have kh: "kind_head k sz bv = h # t" using len by (cases "kind_head k sz bv") auto
  obtain s' where rb: "readByte s = (Inr h, s')"
    using readByte_fits [of s h "t @ bs"] fits_mono [OF assms(1), of 1] assms(2) kh by auto
  note s' = readByte_Inr [OF rb]
  let ?s = "s'\<lparr>byteval := 0\<rparr>"
  have rd': "rd ?s = t @ bs" using s'(1) assms(2) kh by simp
  have f': "fits (length t) ?s"
    using fits_eat [OF s'(2), of "length t"] assms(1) kh fits_cong [of ?s s'] by (simp add: raw_pos_def)
  consider "k = KByte" | "k \<noteq> KByte" "sz < 56" | "k \<noteq> KByte" "\<not> sz < 56" by blast
  then show ?thesis
  proof cases
    case 1
    then show ?thesis using assms(3) kh rb by (simp add: kind_head_def readKind_def Let_def)
  next
    case 2
    obtain m where m: "unat sz = m" by blast
    have lt: "m < 56" using 2(2) m by (simp add: word_less_nat_alt)
    have h: "h = (if k = KString then 0x80 else 0xC0) + of_nat m"
      using 2 m kh by (cases k) (simp_all add: kind_head_def puthead_short lt)
    have ub: "unat (0x80 + of_nat m :: byte) = 0x80 + m" "unat (0xC0 + of_nat m :: byte) = 0xC0 + m"
      using lt unat_add_byte [of "0x80" m] unat_add_byte [of "0xC0" m] by simp_all
    have u: "(ucast (of_nat m :: byte) :: u64) = sz"
      using lt m by (simp add: word_unat_eq_iff unat_of_nat)
    show ?thesis using 2(1) h rb u lt ub
      by (cases k) (simp_all add: readKind_def Let_def word_less_nat_alt)
  next
    case 3
    note long = kind_head_long [OF 3(2)]
    let ?n = "length (be_bytes (unat sz))"
    have t: "t = be_bytes (unat sz)" and h: "h = (if k = KString then 0xB7 else 0xF7) + of_nat ?n"
      using 3(1) kh long(1) by (cases k; auto simp: kind_head_def)+
    have un: "unat (of_nat ?n :: byte) = ?n" using long(3) by (simp add: unat_of_nat)
    obtain s1 where rs: "readSized k (of_nat ?n) ?s = ((k, sz, None), s1)"
      using readSized_fits [OF f' rd' t 3(2), of "of_nat ?n" k] un t by metis
    have "unat (0xB7 + of_nat ?n :: byte) = 0xB7 + ?n" "unat (0xF7 + of_nat ?n :: byte) = 0xF7 + ?n"
      using unat_add_byte [of ?n "0xB7"] unat_add_byte [of ?n "0xF7"] long(3) by (simp_all add: add.commute)
    then show ?thesis using 3(1) h rb rs long(2,3)
      by (cases k) (auto simp: readKind_def Let_def word_less_nat_alt)
  qed
qed

lemma Kind_fits:
  assumes "skind s = None" "rd s = kind_head k sz bv @ bs" "k = KByte \<longrightarrow> bv < 0x80 \<and> sz = 0"
    "fits (length (kind_head k sz bv) + unat sz) s"
  obtains s1 where "Kind s = (Inr (k, sz), s1)" "fits (unat sz) s1" "rd s1 = bs" "byteval s1 = (if k = KByte then bv else byteval s1)"
proof -
  let ?h = "kind_head k sz bv" and ?s0 = "s\<lparr>kinderr := None\<rparr>"
  have len: "0 < length ?h" by (simp add: kind_head_def puthead_def Let_def split: Kind.split)
  have f0: "fits (length ?h) ?s0" using fits_mono [OF assms(4)] fits_cong [of ?s0 s] by (simp add: raw_pos_def)
  obtain s2 where rk: "readKind ?s0 = ((k, sz, None), s2)"
    using readKind_fits [OF f0 _ assms(3)] assms(1,2) by auto
  note s2 = readKind_None [OF rk]
  have eq: "kind_head k sz (byteval s2) @ rd s2 = ?h @ bs" using s2 assms(2) by simp
  then have h: "kind_head k sz (byteval s2) = ?h" and rd2: "rd s2 = bs"
    by (cases k; simp add: kind_head_def)+
  have rp: "raw_pos s2 = eat (length ?h) (raw_pos ?s0)" using s2 h by metis
  have "fits (length ?h + unat sz) ?s0" using assms(4) fits_cong [of ?s0 s] by (simp add: raw_pos_def)
  note f2 = fits_eat [OF rp this]
  let ?s3 = "s2\<lparr>skind := Some k, ssize := sz, kinderr := None\<rparr>"
  have nend: "\<not> at_list_end ?s0"
    using assms(4) len by (auto simp: at_list_end_def fits_def split: list.splits)
  have cs: "checkSize ?s3 = None"
    using f2 by (cases "stack s2")
      (auto simp: checkSize_def fits_def word_less_nat_alt unat_diff_le word_le_nat_alt)
  have "Kind s = (Inr (k, sz), ?s3)"
    using assms(1) nend rk cs by (simp add: Kind_def Let_def cachedKind_def)
  moreover have "fits (unat sz) ?s3" using f2 fits_cong [of ?s3 s2] by (simp add: raw_pos_def)
  moreover have "k = KByte \<Longrightarrow> byteval s2 = bv" using h by (simp add: kind_head_def)
  ultimately show ?thesis using that [of ?s3] rd2 by simp
qed

section \<open>Values that survive encoding and decoding\<close>

lemma Bytes_fits:
  assumes "skind s = None" "rd s = rlp (Str b) @ bs" "fits (length (rlp (Str b))) s" "length b \<le> allocLimit"
  obtains s' where "Bytes s = (Inr b, s')"
proof (cases "length b = 1 \<and> hd b < 0x80")
  case True
  then obtain x where x: "b = [x]" "x < 0x80" by (cases b) auto
  obtain s1 where "Kind s = (Inr (KByte, 0), s1)" "byteval s1 = x"
    using Kind_fits [OF assms(1), of KByte 0 x bs] assms(2,3) x by (auto simp: kind_head_def)
  then show ?thesis using that x(1) by (simp add: Bytes_def)
next
  case False
  let ?sz = "of_nat (length b) :: u64"
  have len: "length b < 2 ^ 64" using assms(4) by (simp add: allocLimit_def unat_maxAlloc)
  then have u: "unat ?sz = length b" by (simp add: unat_of_nat)
  have enc: "rlp (Str b) = kind_head KString ?sz 0 @ b"
    using False u by (auto simp: kind_head_def puthead_u64)
  obtain s1 where K: "Kind s = (Inr (KString, ?sz), s1)" "fits (unat ?sz) s1" "rd s1 = b @ bs"
    using Kind_fits [OF assms(1), of KString ?sz 0 "b @ bs"] assms(2,3) enc u by auto
  obtain s2 where "readFull (length b) s1 = (Inr b, s2)"
    using readFull_fits [of b s1 bs] K u len by auto
  moreover have "\<not> ?sz > maxAlloc" using assms(4) u by (simp add: word_less_nat_alt allocLimit_def)
  moreover have "\<not> (?sz = 1 \<and> hd b < 128)" using False u by (metis One_nat_def unat_eq_Suc_0)
  ultimately show ?thesis using that K(1) u by (auto simp: Bytes_def)
qed

lemma be_bytes_small_u64: "0 < unat v \<Longrightarrow> unat v < 128 \<Longrightarrow> be_bytes (unat v) = [ucast v]"
  by (simp add: be_bytes_small word_unat_eq_iff unsigned_ucast_eq take_bit_eq_mod)

lemma Stream_uint_fits:
  assumes "skind s = None" "rd s = rlp (Str (be_bytes (unat v))) @ bs"
    "fits (length (rlp (Str (be_bytes (unat v))))) s" "length (be_bytes (unat v)) \<le> maxbits div 8"
  obtains s' where "Stream_uint maxbits s = (Inr v, s')"
proof -
  let ?b = "be_bytes (unat v)"
  have len8: "length ?b \<le> 8" using length_be_bytes_le [of "unat v" 8] u64_bound [of v] by simp
  consider "unat v = 0" | "0 < unat v" "unat v < 128" | "128 \<le> unat v" by linarith
  then show ?thesis
  proof cases
    case 1
    then obtain s1 where K: "Kind s = (Inr (KString, 0), s1)"
      using Kind_fits [OF assms(1), of KString 0 0 bs] assms(2,3)
      by (auto simp: kind_head_def puthead_short rlp_head_def)
    from 1 have "v = 0" by (simp add: unat_eq_zero)
    then show ?thesis using that K by (simp add: Stream_uint_def readUint_def)
  next
    case 2
    note b = be_bytes_small_u64 [OF 2]
    have lt: "(ucast v :: byte) < 0x80" and u: "unat (ucast v :: byte) = unat v"
      using 2 by (simp_all add: word_less_nat_alt unsigned_ucast_eq take_bit_eq_mod)
    obtain s1 where K: "Kind s = (Inr (KByte, 0), s1)" "byteval s1 = ucast v"
      using Kind_fits [OF assms(1), of KByte 0 "ucast v" bs] assms(2,3) lt
      by (auto simp: kind_head_def b)
    have "(ucast v :: byte) \<noteq> 0" using 2 u by (metis less_irrefl unat_0)
    moreover have "(ucast (ucast v :: byte) :: u64) = v" using u by (simp only: word_unat_eq_iff unat_ucast_byte)
    ultimately show ?thesis using that K by (simp add: Stream_uint_def)
  next
    case 3
    let ?sz = "of_nat (length ?b) :: u64"
    have u: "unat ?sz = length ?b" using len8 by (simp add: unat_of_nat)
    have ne: "0 < length ?b" using 3 by auto
    have nb: "\<not> (length ?b = 1 \<and> hd ?b < 0x80)"
    proof
      assume a: "length ?b = 1 \<and> hd ?b < 0x80"
      then obtain x where "?b = [x]" by (auto simp: length_Suc_conv)
      then show False using be_val_be_bytes [of "unat v"] a 3 by (simp add: word_less_nat_alt)
    qed
    then have enc: "rlp (Str ?b) = kind_head KString ?sz 0 @ ?b"
      using u by (auto simp: kind_head_def puthead_u64)
    obtain s1 where K: "Kind s = (Inr (KString, ?sz), s1)" "fits (unat ?sz) s1" "rd s1 = ?b @ bs"
      using Kind_fits [OF assms(1), of KString ?sz 0 "?b @ bs"] assms(2,3) enc u by auto
    have ub: "unat (ucast ?sz :: byte) = length ?b"
      using len8 u by (simp add: unsigned_ucast_eq take_bit_eq_mod)
    obtain s2 where r: "readUint (ucast ?sz) s1 = (Inr v, s2)"
      using readUint_fits [of ?b s1 bs "ucast ?sz"] K u ub ne len8 be_bytes_hd [of "unat v"] 3 by auto
    have "\<not> v < 128" using 3 by (simp add: word_less_nat_alt)
    then show ?thesis using that K(1) r u assms(4) by (simp add: Stream_uint_def)
  qed
qed

lemma List_fits:
  assumes "skind s = None" "rd s = rlp_head 0xC0 0xF7 (length c) @ c @ bs"
    "fits (length (rlp_head 0xC0 0xF7 (length c)) + length c) s" "length c < 2 ^ 64"
  obtains s1 st where "List s = (Inr (of_nat (length c)), s1)" "fits (length c) s1" "rd s1 = c @ bs"
    "skind s1 = None" "stack s1 = \<lparr>lpos = 0, lsize = of_nat (length c)\<rparr> # st"
proof -
  let ?sz = "of_nat (length c) :: u64"
  have u: "unat ?sz = length c" using assms(4) by (simp add: unat_of_nat)
  obtain s0 where K: "Kind s = (Inr (KList, ?sz), s0)" "fits (unat ?sz) s0" "rd s0 = c @ bs"
    using Kind_fits [OF assms(1), of KList ?sz 0 "c @ bs"] assms(2,3) u
    by (auto simp: kind_head_def puthead_u64)
  let ?s1 = "s0\<lparr>stack := \<lparr>lpos = 0, lsize = ?sz\<rparr> # stack s0, skind := None, ssize := 0\<rparr>"
  have "fits (length c) ?s1" using K(2) u by (simp add: fits_def)
  then show ?thesis using that [of ?s1 "stack s0"] K by (simp add: List_def)
qed

text \<open>A list with exactly \<open>n\<close> bytes to go.\<close>

definition exact :: "nat \<Rightarrow> Stream \<Rightarrow> bool" where
  "exact n s = (case stack s of [] \<Rightarrow> False | t # st \<Rightarrow> unat (lpos t) + n = unat (lsize t))"

lemma exact_0: "exact 0 s = at_list_end s"
  by (simp add: exact_def at_list_end_def word_unat_eq_iff split: list.split)

lemma exact_eat:
  assumes "raw_pos s' = eat m (raw_pos s)" "exact (m + n) s"
  shows "exact n s'"
proof (cases "stack s")
  case (Cons t st)
  have le: "unat (lpos t) + (m + n) = unat (lsize t)" using assms(2) Cons by (simp add: exact_def)
  then have "unat (of_nat m :: u64) = m" using u64_bound [of "lsize t"] by (simp add: unat_of_nat)
  then have "unat (lpos t + of_nat m) = unat (lpos t) + m"
    using le unat_add_le [of "lpos t" "of_nat m" "lsize t"] by simp
  then show ?thesis using assms(1) Cons le by (simp add: raw_pos_def exact_def)
qed (use assms(2) in \<open>simp add: exact_def\<close>)

lemma consumes_exact:
  "consumes b s s' \<Longrightarrow> skind s = None \<Longrightarrow> exact (length b + n) s \<Longrightarrow> exact n s'"
  using exact_eat [of s' "length b" s n] by (simp add: consumes_def)

lemma ListEnd_exact: "exact 0 s \<Longrightarrow> \<exists>s'. ListEnd s = (Inr (), s')"
  by (auto simp: exact_0 at_list_end_def ListEnd_def split: list.splits)

end
