(* ===== verification/Rlp_Roundtrip.thy ===== *)
theory Rlp_Roundtrip
  imports Rlp_Canonical Rlp_Complete
begin

text \<open>
  Decoding gives back what was encoded.  The theory singles out the values a decoder can
  return (\<open>rt_ok\<close>), shows decoder by decoder that the encoding of such a value is accepted and
  yields the value (the list loops once, in the locale \<open>complete_decoder\<close>), and closes with the
  round trip of \<open>EncodeToBytes\<close> and \<open>DecodeBytes\<close> of \<^verbatim>\<open>src/rlp\<close>.
\<close>

section \<open>Values that survive encoding and decoding\<close>

text \<open>
  \<open>eol_ok t\<close>: the decoder of the type looks at the stream before anything else, so at the
  end of a list it reports just that.
\<close>

fun eol_ok :: "rtype \<Rightarrow> bool" where
  "eol_ok (TPtr t) = (t = TBigInt \<or> eol_ok t)"
| "eol_ok (TCoder bv t) = (makeDecoderErr t = None \<and> eol_ok t)"
| "eol_ok (TStruct nm fs) = (case structFields fs of Inl e \<Rightarrow> False | Inr fl \<Rightarrow> True)"
| "eol_ok (TInterface e) = e"
| "eol_ok (TOther k) = False"
| "eol_ok _ = True"

text \<open>A raw value must be one encoded value; its content is not looked at.\<close>

definition raw_ok :: "bytes \<Rightarrow> bool" where
  "raw_ok b \<longleftrightarrow> (\<exists>x < 0x80. b = [x]) \<or> (\<exists>c. b = rlp_head 0x80 0xB7 (length c) @ c)
     \<or> (\<exists>c. b = rlp_head 0xC0 0xF7 (length c) @ c)"

fun iface_ok :: "rval \<Rightarrow> bool" where
  "iface_ok (VIface t (VBytes b)) = (t = TSlice (TUint 8))"
| "iface_ok (VIface t (VList vs)) = (t = TSlice (TInterface True) \<and> (\<forall>u \<in> set vs. iface_ok u))"
| "iface_ok _ = False"

text \<open>
  The values that decoding can give back: no nil pointer where the tags do not allow it
  (it comes back as a pointer to a zero value), no pointer to an empty value where they do
  (it comes back as nil), skipped struct fields at their zero value, numbers within their
  width, and in interfaces only byte slices and lists of such values.
\<close>

function rt_ok :: "rtype \<Rightarrow> tags \<Rightarrow> rval \<Rightarrow> bool" where
  "rt_ok TRawValue ts v = (case v of VBytes b \<Rightarrow> raw_ok b | _ \<Rightarrow> False)"
| "rt_ok TBigInt ts v = True"
| "rt_ok (TPtr t) ts v =
     (if t = TBigInt then v \<noteq> VNil
      else (case v of
              VNil \<Rightarrow> nilOK ts \<and> nilKind ts \<noteq> KByte
            | VPtr u \<Rightarrow> rt_ok t no_tags u \<and>
                (nilOK ts \<longrightarrow> (case items_of True t no_tags u of
                                Inl e \<Rightarrow> True
                              | Inr is \<Rightarrow> hd (rlps is) \<noteq> 0x80 \<and> hd (rlps is) \<noteq> 0xC0))
            | _ \<Rightarrow> False))"
| "rt_ok (TCoder bv t) ts v = rt_ok t no_tags v"
| "rt_ok (TUint n) ts v = (case v of VUint u \<Rightarrow> length (be_bytes (unat u)) \<le> n div 8 | _ \<Rightarrow> False)"
| "rt_ok TBool ts v = True"
| "rt_ok TString ts v = True"
| "rt_ok (TSlice t) ts v =
     (isByte t \<or> eol_ok t \<and> (case v of VList vs \<Rightarrow> \<forall>u \<in> set vs. rt_ok t no_tags u | _ \<Rightarrow> False))"
| "rt_ok (TArray n t) ts v =
     (if isByte t then (case v of VBytes b \<Rightarrow> length b = n | _ \<Rightarrow> False)
      else (case v of VList vs \<Rightarrow> length vs = n \<and> (\<forall>u \<in> set vs. rt_ok t no_tags u) | _ \<Rightarrow> False))"
| "rt_ok (TStruct nm fs) ts v =
     (case v of
        VStruct vs \<Rightarrow>
          length vs = length fs \<and>
          (case structFields fs of
             Inl e \<Rightarrow> False
           | Inr fl \<Rightarrow> (\<forall>x \<in> set fl. case x of (i, n, ts, t) \<Rightarrow> rt_ok t ts (vs ! i)) \<and>
               (\<forall>j \<in> set [0..<length fs]. j \<notin> fst ` set fl \<longrightarrow> vs ! j = zeroValue (f_type (fs ! j))))
      | _ \<Rightarrow> False)"
| "rt_ok (TInterface e) ts v = (e \<and> iface_ok v)"
| "rt_ok (TOther k) ts v = False"
  by pat_completeness auto
termination
  by (relation "measure (\<lambda>(t, ts, v). size t)") (simp_all, blast intro: structFields_size [simplified])

section \<open>Decoders at the end of a list\<close>

lemma Kind_at_end: "skind s = None \<Longrightarrow> at_list_end s \<Longrightarrow> Kind s = (Inl EOL, s\<lparr>kinderr := None\<rparr>)"
  by (simp add: Kind_def at_list_end_def)

lemma ops_at_end:
  assumes "skind s = None" "at_list_end s"
  shows "Bytes s = (Inl EOL, s\<lparr>kinderr := None\<rparr>)" "Raw s = (Inl EOL, s\<lparr>kinderr := None\<rparr>)"
    "Stream_uint n s = (Inl EOL, s\<lparr>kinderr := None\<rparr>)" "Bool s = (Inl EOL, s\<lparr>kinderr := None\<rparr>)"
    "List s = (Inl EOL, s\<lparr>kinderr := None\<rparr>)" "decodeBigInt s = (Inl EOL, s\<lparr>kinderr := None\<rparr>)"
    "decodeByteArray n t s = (Inl EOL, s\<lparr>kinderr := None\<rparr>)"
  using Kind_at_end [OF assms]
  by (simp_all add: Bytes_def Raw_def Stream_uint_def Bool_def List_def decodeBigInt_def
      decodeByteArray_def wrapStreamError_def)

lemma decodeValue_at_end:
  assumes "skind s = None" "at_list_end s"
  shows "eol_ok t \<Longrightarrow> 0 < fuel \<Longrightarrow> decodeValue fuel t no_tags s = Some (Inl EOL, s\<lparr>kinderr := None\<rparr>)"
proof (induction t)
  case (TInterface e)
  then show ?case using Kind_at_end [OF assms] by (cases fuel) simp_all
qed (auto simp: decodeRawValue_def decodeUint_def decodeBool_def decodeString_def decodeByteSlice_def
      decodeListSlice_def decodeListArray_def map_val_def map_err_def wrapStreamError_def
      ops_at_end [OF assms] split: sum.splits)

lemma consumes_rd:
  assumes "consumes b s s'" "skind s = None" "rd s = b @ rest"
  shows "rd s' = rest" "skind s' = None"
proof -
  have "ahead s = rd s" using assms(2) by (simp add: ahead_def)
  then have "b @ rd s' = b @ rest" using assms(1,3) unfolding consumes_def by metis
  then show "rd s' = rest" by simp
  show "skind s' = None" using assms(1) by (simp add: consumes_def)
qed

lemma allocLimit_less: "n \<le> allocLimit \<Longrightarrow> n < 2 ^ 64"
  by (simp add: allocLimit_def unat_maxAlloc)

text \<open>Entering a list whose encoding lies ahead.\<close>

lemma enter_list:
  assumes "skind s = None" "rd s = rlp (Lst xs) @ rest" "fits (length (rlp (Lst xs))) s"
    "length (rd s) \<le> allocLimit" "length (rd s) \<le> fuel"
  obtains s1 where "List s = (Inr (of_nat (length (rlps xs))), s1)" "fits (length (rlps xs)) s1"
    "rd s1 = rlps xs @ rest" "skind s1 = None" "exact (length (rlps xs)) s1"
    "length (rd s1) \<le> allocLimit" "length (rd s1) < fuel"
proof -
  let ?c = "rlps xs" and ?h = "rlp_head 0xC0 0xF7 (length (rlps xs))"
  have rd: "rd s = ?h @ ?c @ rest" and f: "fits (length ?h + length ?c) s" and c64: "length ?c < 2 ^ 64"
    using assms(2-4) allocLimit_less [of "length (rd s)"] by simp_all
  obtain x h where h: "?h = x # h" by (metis neq_Nil_conv rlp_head_nonempty)
  obtain s1 st where l: "List s = (Inr (of_nat (length ?c)), s1)" "fits (length ?c) s1" "rd s1 = ?c @ rest"
    "skind s1 = None" "stack s1 = \<lparr>lpos = 0, lsize = of_nat (length ?c)\<rparr> # st"
    using List_fits [OF assms(1) rd f c64] .
  have "unat (of_nat (length ?c) :: u64) = length ?c" using c64 by (simp add: unat_of_nat)
  then have "exact (length ?c) s1" using l(5) by (simp add: exact_def)
  moreover have "length (rd s1) \<le> allocLimit" "length (rd s1) < fuel"
    using assms(4,5) rd l(3) h by simp_all
  ultimately show ?thesis using that l(1-4) by blast
qed

section \<open>Complete decoders\<close>

text \<open>
  The contract of a sound decoder that also succeeds whenever the encoding of an admissible
  value lies ahead.
\<close>

locale complete_decoder = sound_decoder +
  fixes ok :: "rval \<Rightarrow> bool" and fuel :: nat
  assumes dec_complete:
    "ok v \<Longrightarrow> items_of addr t no_tags v = Inr xs \<Longrightarrow> skind s = None \<Longrightarrow> rd s = rlps xs @ rest \<Longrightarrow>
     fits (length (rlps xs)) s \<Longrightarrow> length (rd s) \<le> allocLimit \<Longrightarrow> length (rd s) < fuel \<Longrightarrow>
     \<exists>s'. dec s = Some (Inr v, s')"
begin

lemma dec_step:
  assumes "ok v" "items_of addr t no_tags v = Inr xs" "skind s = None" "rd s = rlps xs @ rest"
    "fits (length (rlps xs)) s" "length (rd s) \<le> allocLimit" "length (rd s) < fuel"
  obtains s' where "dec s = Some (Inr v, s')" "consumes (rlps xs) s s'" "rlps xs \<noteq> []" "rd s' = rest"
    "skind s' = None"
proof -
  obtain s' where d: "dec s = Some (Inr v, s')" using dec_complete [OF assms] by blast
  then have c: "consumes (rlps xs) s s'" "rlps xs \<noteq> []"
    using dec_Inr [OF d] assms(2,3,6) allocLimit_less [OF assms(6)] by (auto simp: ahead_def)
  show ?thesis by (rule that [OF d c consumes_rd [OF c(1) assms(3,4)]])
qed

lemma decodeSliceElems_complete:
  assumes "\<And>s. skind s = None \<Longrightarrow> at_list_end s \<Longrightarrow> \<exists>s'. dec s = Some (Inl EOL, s')"
  shows "\<forall>u \<in> set vs. ok u \<Longrightarrow> items_elems addr t vs = Inr xs \<Longrightarrow> skind s = None \<Longrightarrow>
    rd s = rlps xs @ rest \<Longrightarrow> fits (length (rlps xs)) s \<Longrightarrow> exact (length (rlps xs)) s \<Longrightarrow>
    length (rd s) \<le> allocLimit \<Longrightarrow> length (rd s) < fuel \<Longrightarrow> length (rlps xs) < n \<Longrightarrow>
    \<exists>s'. decodeSliceElems n dec acc s = Some (Inr (acc @ vs), s')"
proof (induction vs arbitrary: n acc s xs)
  case Nil
  then obtain m where "n = Suc m" by (cases n) auto
  then show ?case using assms [of s] Nil by (auto simp: exact_0)
next
  case (Cons v vs)
  from Cons.prems(2) obtain ys zs where ys: "items_of addr t no_tags v = Inr ys"
    "items_elems addr t vs = Inr zs" "xs = ys @ zs" by (auto split: sum.splits)
  have rd: "rd s = rlps ys @ (rlps zs @ rest)" using Cons.prems(4) ys(3) by simp
  obtain s1 where d: "dec s = Some (Inr v, s1)" "consumes (rlps ys) s s1" "rlps ys \<noteq> []"
      "rd s1 = rlps zs @ rest" "skind s1 = None"
    using dec_step [of v ys s, OF _ ys(1) Cons.prems(3) rd] Cons.prems ys(3) fits_mono by force
  obtain m where m: "n = Suc m" using Cons.prems(9) by (cases n) auto
  have "\<exists>s'. decodeSliceElems m dec (acc @ [v]) s1 = Some (Inr ((acc @ [v]) @ vs), s')"
  proof (rule Cons.IH [OF _ ys(2) d(5,4)])
    show "fits (length (rlps zs)) s1" using consumes_fits [OF d(2) Cons.prems(3)] Cons.prems(5) ys(3) by simp
    show "exact (length (rlps zs)) s1" using consumes_exact [OF d(2) Cons.prems(3)] Cons.prems(6) ys(3) by simp
    show "length (rlps zs) < m" using d(3) Cons.prems(9) m ys(3) by (cases "rlps ys") auto
  qed (use Cons.prems(1,7,8) rd d(4) in auto)
  then show ?case using d(1) m by simp
qed

lemma decodeArrayElems_complete:
  "\<forall>u \<in> set vs. ok u \<Longrightarrow> items_elems addr t vs = Inr xs \<Longrightarrow> skind s = None \<Longrightarrow>
    rd s = rlps xs @ rest \<Longrightarrow> fits (length (rlps xs)) s \<Longrightarrow> exact (length (rlps xs)) s \<Longrightarrow>
    length (rd s) \<le> allocLimit \<Longrightarrow> length (rd s) < fuel \<Longrightarrow>
    \<exists>s'. decodeArrayElems (length vs) dec acc s = Some (Inr (False, acc @ vs), s') \<and> exact 0 s'"
proof (induction vs arbitrary: acc s xs)
  case (Cons v vs)
  from Cons.prems(2) obtain ys zs where ys: "items_of addr t no_tags v = Inr ys"
    "items_elems addr t vs = Inr zs" "xs = ys @ zs" by (auto split: sum.splits)
  have rd: "rd s = rlps ys @ (rlps zs @ rest)" using Cons.prems(4) ys(3) by simp
  obtain s1 where d: "dec s = Some (Inr v, s1)" "consumes (rlps ys) s s1" "rlps ys \<noteq> []"
      "rd s1 = rlps zs @ rest" "skind s1 = None"
    using dec_step [of v ys s, OF _ ys(1) Cons.prems(3) rd] Cons.prems ys(3) fits_mono by force
  have "\<exists>s'. decodeArrayElems (length vs) dec (acc @ [v]) s1 = Some (Inr (False, (acc @ [v]) @ vs), s') \<and> exact 0 s'"
  proof (rule Cons.IH [OF _ ys(2) d(5,4)])
    show "fits (length (rlps zs)) s1" using consumes_fits [OF d(2) Cons.prems(3)] Cons.prems(5) ys(3) by simp
    show "exact (length (rlps zs)) s1" using consumes_exact [OF d(2) Cons.prems(3)] Cons.prems(6) ys(3) by simp
  qed (use Cons.prems(1,7,8) rd d(4) in auto)
  then show ?case using d(1) by simp
qed simp

lemma decodeListSlice_complete:
  assumes eol: "\<And>s. skind s = None \<Longrightarrow> at_list_end s \<Longrightarrow> \<exists>s'. dec s = Some (Inl EOL, s')"
    and "\<forall>u \<in> set vs. ok u" "items_elems addr t vs = Inr xs"
    and s: "skind s = None" "rd s = rlp (Lst xs) @ rest" "fits (length (rlp (Lst xs))) s"
      "length (rd s) \<le> allocLimit" "length (rd s) \<le> fuel"
  shows "\<exists>s'. decodeListSlice fuel lt dec s = Some (Inr (VList vs), s')"
proof -
  obtain s1 where l: "List s = (Inr (of_nat (length (rlps xs))), s1)" "fits (length (rlps xs)) s1"
    "rd s1 = rlps xs @ rest" "skind s1 = None" "exact (length (rlps xs)) s1"
    "length (rd s1) \<le> allocLimit" "length (rd s1) < fuel" using enter_list [OF s] .
  obtain s2 where d: "decodeSliceElems fuel dec [] s1 = Some (Inr vs, s2)"
    using decodeSliceElems_complete [OF eol assms(2,3) l(4,3,2,5-7), of fuel "[]"] l(3,7) by auto
  then have c: "consumes (rlps xs) s1 s2"
    using decodeSliceElems_Inr [OF d] l(4,6) allocLimit_less assms(3) by (auto simp: ahead_def)
  then have "exact 0 s2" using consumes_exact [of "rlps xs" s1 s2 0] l(4,5) by simp
  show ?thesis
  proof (cases "vs = []")
    case True
    then show ?thesis using assms(3) l(1,5) ListEnd_exact [of s1]
      by (auto simp: decodeListSlice_def map_val_def)
  next
    case False
    then obtain v ws ys zs where v: "vs = v # ws" "items_of addr t no_tags v = Inr ys" "xs = ys @ zs"
      using assms(3) by (cases vs) (auto split: sum.splits)
    have "fits (length (rlps ys)) s1" using fits_mono [OF l(2)] v(3) by simp
    then have "rlps ys \<noteq> []"
      using dec_step [OF _ v(2) l(4) _ _ l(6,7), of "rlps zs @ rest"] assms(2) v l(3) by auto
    then have "0 < length (rlps xs)" using v(3) by simp
    moreover have "unat (of_nat (length (rlps xs)) :: u64) = length (rlps xs)"
      using l(3,6) allocLimit_less [of "length (rd s1)"] by (simp add: unat_of_nat)
    ultimately have "(of_nat (length (rlps xs)) :: u64) \<noteq> 0" by (metis less_irrefl unat_0)
    then show ?thesis using l(1) d \<open>exact 0 s2\<close> ListEnd_exact [of s2]
      by (auto simp: decodeListSlice_def map_val_def)
  qed
qed

lemma decodeListArray_complete:
  assumes "\<forall>u \<in> set vs. ok u" "items_elems addr t vs = Inr xs"
    and s: "skind s = None" "rd s = rlp (Lst xs) @ rest" "fits (length (rlp (Lst xs))) s"
      "length (rd s) \<le> allocLimit" "length (rd s) \<le> fuel"
  shows "\<exists>s'. decodeListArray (length vs) lt dec s = Some (Inr (VList vs), s')"
proof -
  obtain s1 where l: "List s = (Inr (of_nat (length (rlps xs))), s1)" "fits (length (rlps xs)) s1"
    "rd s1 = rlps xs @ rest" "skind s1 = None" "exact (length (rlps xs)) s1"
    "length (rd s1) \<le> allocLimit" "length (rd s1) < fuel" using enter_list [OF s] .
  obtain s2 where "decodeArrayElems (length vs) dec [] s1 = Some (Inr (False, vs), s2)" "exact 0 s2"
    using decodeArrayElems_complete [OF assms(1,2) l(4,3,2,5-7), of "[]"] by auto
  then show ?thesis using l(1) ListEnd_exact [of s2]
    by (auto simp: decodeListArray_def map_val_def map_err_def)
qed

end

lemma decodeInterface_complete: "complete_decoder (decodeInterface fuel True) addr (TInterface True) iface_ok fuel"
proof (induction fuel arbitrary: addr)
  case 0
  show ?case by unfold_locales simp_all
next
  case (Suc fuel)
  show ?case
  proof
    fix v xs s rest
    assume a: "iface_ok v" "items_of addr (TInterface True) no_tags v = Inr xs" "skind s = None" "rd s = rlps xs @ rest"
      "fits (length (rlps xs)) s" "length (rd s) \<le> allocLimit" "length (rd s) < Suc fuel"
    show "\<exists>s'. decodeInterface (Suc fuel) True s = Some (Inr v, s')"
    proof (cases v rule: iface_ok.cases)
      case (1 t b)
      then have v: "v = VIface (TSlice (TUint 8)) (VBytes b)" "xs = [Str b]"
        using a(1,2) by (simp_all add: bytes_items_def)
      have lb: "length b \<le> allocLimit" using a(4,6) v(2) length_rlp_Str [of b] by (simp del: rlp.simps)
      obtain s' where B: "Bytes s = (Inr b, s')"
        using Bytes_fits [of s b rest] a(3-5) v(2) lb by (auto simp del: rlp.simps)
      then obtain k sz s1 where K: "Kind s = (Inr (k, sz), s1)" "k \<noteq> KList"
        by (auto simp: Bytes_def split: prod.splits sum.splits Kind.splits)
      then show ?thesis using B v(1) op_peek(1) [OF K(1)] by simp
    next
      case (2 t vs)
      then obtain ys where ys: "v = VIface (TSlice (TInterface True)) (VList vs)" "xs = [Lst ys]"
          "\<forall>u \<in> set vs. iface_ok u" "items_elems True (TInterface True) vs = Inr ys"
        using a(1,2) by (auto simp: as_list_def split: sum.splits)
      have enc: "rd s = rlp (Lst ys) @ rest" "fits (length (rlp (Lst ys))) s" "length (rd s) \<le> fuel"
        using a(4,5,7) ys(2) by simp_all
      have "rd s \<noteq> []" using enc(1) by simp
      then have f0: "0 < fuel" using enc(3) by (cases fuel) auto
      have eol: "\<exists>s'. decodeInterface fuel True s = Some (Inl EOL, s')"
        if "skind s = None" "at_list_end s" for s
        using Kind_at_end [OF that] f0 by (cases fuel) simp_all
      obtain s' where L: "decodeListSlice fuel (TSlice (TInterface True)) (decodeInterface fuel True) s = Some (Inr (VList vs), s')"
        using complete_decoder.decodeListSlice_complete [OF Suc.IH eol ys(3,4) a(3) enc(1,2) a(6) enc(3)] by blast
      then obtain sz s1 where "List s = (Inr sz, s1)" 
        by (auto simp: decodeListSlice_def split: prod.splits sum.splits)
      then obtain s0 where K: "Kind s = (Inr (KList, sz), s0)"
        by (auto simp: List_def split: prod.splits sum.splits if_splits)
      then show ?thesis using L ys(1) op_peek(8) [OF K] by simp
    qed (use a(1) in auto)
  qed
qed

interpretation iface: complete_decoder "decodeInterface fuel True" addr "TInterface True" iface_ok fuel
  by (rule decodeInterface_complete)

section \<open>Raw values and byte arrays\<close>

lemma Raw_sized_fits:
  assumes "skind s = None" "k \<noteq> KByte" "rd s = kind_head k (of_nat (length c)) 0 @ c @ bs"
    "fits (length (kind_head k (of_nat (length c)) 0) + length c) s" "length c \<le> allocLimit"
  shows "\<exists>s'. Raw s = (Inr (kind_head k (of_nat (length c)) 0 @ c), s')"
proof -
  let ?sz = "of_nat (length c) :: u64"
  have len: "length c < 2 ^ 64" using assms(5) by (rule allocLimit_less)
  then have u: "unat ?sz = length c" by (simp add: unat_of_nat)
  obtain s1 where K: "Kind s = (Inr (k, ?sz), s1)" "fits (unat ?sz) s1" "rd s1 = c @ bs"
    using Kind_fits [OF assms(1,3)] assms(2,4) u by auto
  obtain s2 where r: "readFull (length c) s1 = (Inr c, s2)" using readFull_fits [of c s1 bs] K u len by auto
  have b: "unat (of_nat (headsize ?sz) + ?sz) = headsize ?sz + length c"
    using assms(5) u headsize_bound [of ?sz]
    by (simp add: unat_word_ariths unat_of_nat allocLimit_def unat_maxAlloc)
  have "\<not> of_nat (headsize ?sz) + ?sz > maxAlloc"
    using b assms(5) headsize_bound [of ?sz] by (simp add: word_less_nat_alt allocLimit_def unat_maxAlloc)
  then show ?thesis using K(1) r b assms(2)
    by (cases k) (simp_all add: Raw_def Let_def kind_head_def)
qed

lemma Raw_fits:
  assumes "skind s = None" "rd s = b @ bs" "fits (length b) s" "raw_ok b" "length b \<le> allocLimit"
  shows "\<exists>s'. Raw s = (Inr b, s')"
  using assms(4) unfolding raw_ok_def
proof (elim disjE exE conjE)
  fix x assume x: "x < 0x80" "b = [x]"
  obtain s1 where "Kind s = (Inr (KByte, 0), s1)" "byteval s1 = x"
    using Kind_fits [OF assms(1), of KByte 0 x bs] assms(2,3) x by (auto simp: kind_head_def)
  then show ?thesis using x by (simp add: Raw_def)
next
  fix c assume c: "b = rlp_head 0x80 0xB7 (length c) @ c"
  then have lc: "length c \<le> allocLimit" using assms(5) by simp
  then have "kind_head KString (of_nat (length c)) 0 = rlp_head 0x80 0xB7 (length c)"
    using allocLimit_less by (simp add: kind_head_def puthead_u64 unat_of_nat)
  then show ?thesis using Raw_sized_fits [OF assms(1), of KString c bs] assms(2,3) c lc by simp
next
  fix c assume c: "b = rlp_head 0xC0 0xF7 (length c) @ c"
  then have lc: "length c \<le> allocLimit" using assms(5) by simp
  then have "kind_head KList (of_nat (length c)) 0 = rlp_head 0xC0 0xF7 (length c)"
    using allocLimit_less by (simp add: kind_head_def puthead_u64 unat_of_nat)
  then show ?thesis using Raw_sized_fits [OF assms(1), of KList c bs] assms(2,3) c lc by simp
qed

lemma decodeByteArray_fits:
  assumes "skind s = None" "rd s = rlp (Str b) @ bs" "fits (length (rlp (Str b))) s" "length b \<le> allocLimit"
    "length b \<noteq> 1"
  shows "\<exists>s'. decodeByteArray (length b) t s = (Inr (VBytes b), s')"
proof -
  let ?sz = "of_nat (length b) :: u64"
  have len: "length b < 2 ^ 64" using assms(4) by (rule allocLimit_less)
  then have u: "unat ?sz = length b" by (simp add: unat_of_nat)
  have enc: "rlp (Str b) = kind_head KString ?sz 0 @ b" using assms(5) u by (simp add: kind_head_def puthead_u64)
  obtain s1 where K: "Kind s = (Inr (KString, ?sz), s1)" "fits (unat ?sz) s1" "rd s1 = b @ bs"
    using Kind_fits [OF assms(1), of KString ?sz 0 "b @ bs"] assms(2,3) enc u by auto
  obtain s2 where "readFull (length b) s1 = (Inr b, s2)" using readFull_fits [of b s1 bs] K u len by auto
  moreover have "?sz \<noteq> 1" using u assms(5) by (metis unat_1)
  ultimately show ?thesis using K(1) u by (simp add: decodeByteArray_def)
qed

section \<open>Struct fields\<close>

text \<open>A tail field is the last selected one.\<close>

fun tail_last :: "field list \<Rightarrow> bool" where
  "tail_last [] = True"
| "tail_last ((i, n, ts, t) # fl) = ((tail ts \<longrightarrow> fl = []) \<and> tail_last fl)"

lemma parseTagParts_tail_index:
  "parseTagParts f fi lp ps ts = Inr ts' \<Longrightarrow> tail ts' \<Longrightarrow> tail ts \<or> fi = lp"
proof (induction ps arbitrary: ts)
  case (Cons p ps)
  from Cons.prems show ?case by (auto simp: Let_def split: if_splits dest!: Cons.IH)
qed simp

lemma lastPublicFrom_ge:
  "j < length fs \<Longrightarrow> f_exported (fs ! j) \<Longrightarrow> i + j \<le> lastPublicFrom lst i fs"
proof (induction lst i fs arbitrary: j rule: lastPublicFrom.induct)
  case (2 lst i f fs)
  have mono: "lst' \<le> lastPublicFrom lst' k gs" if "lst' \<le> k" for lst' k gs
    using that by (induction lst' k gs rule: lastPublicFrom.induct) (force split: if_splits)+
  show ?case
  proof (cases j)
    case 0
    then show ?thesis using "2.prems" mono [of i "Suc i" fs] by simp
  next
    case (Suc j')
    then show ?thesis using "2.IH" [of j'] "2.prems" by simp
  qed
qed simp

lemma structFieldsFrom_tail_last:
  "structFieldsFrom lp i fs = Inr fl \<Longrightarrow> (\<And>j. j < length fs \<Longrightarrow> f_exported (fs ! j) \<Longrightarrow> i + j \<le> lp) \<Longrightarrow> tail_last fl"
proof (induction lp i fs arbitrary: fl rule: structFieldsFrom.induct)
  case (2 lp i f fs)
  have up: "Suc i + j \<le> lp" if "j < length fs" "f_exported (fs ! j)" for j
    using "2.prems"(2) [of "Suc j"] that by simp
  show ?case
  proof (cases "f_exported f")
    case True
    then obtain ts rest where ts: "parseStructTag f i lp = Inr ts"
      and rest: "structFieldsFrom lp (Suc i) fs = Inr rest"
      and fl: "fl = (if ignored ts then rest else (i, f_name f, ts, f_type f) # rest)"
      using "2.prems"(1) by (auto split: sum.splits if_splits)
    have tl: "tail_last rest" using "2.IH"(1) [OF True ts rest] up by blast
    have "rest = []" if "tail ts"
    proof (rule ccontr)
      have ilp: "i = lp" using parseTagParts_tail_index [of f i lp _ no_tags ts] ts that by (simp add: parseStructTag_def)
      assume "rest \<noteq> []"
      then obtain j n ts' t where m: "(j, n, ts', t) \<in> set rest" by (cases rest) auto
      from structFieldsFrom_nth [OF rest m] have "Suc i \<le> j" "j - Suc i < length fs" "f_exported (fs ! (j - Suc i))"
        by auto
      then have "Suc i + (j - Suc i) \<le> lp" by (intro up) auto
      then show False using \<open>Suc i \<le> j\<close> ilp by simp
    qed
    then show ?thesis using fl tl by simp
  next
    case False
    then show ?thesis using "2.IH"(2) [OF False] "2.prems"(1) up by auto
  qed
qed simp

lemma structFields_tail_last: "structFields fs = Inr fl \<Longrightarrow> tail_last fl"
  using structFieldsFrom_tail_last [of "lastPublicField fs" 0 fs fl] lastPublicFrom_ge [of _ fs 0 0]
  by (simp add: structFields_def lastPublicField_def)

section \<open>The decoder of a type is complete\<close>

definition lies_ahead :: "item list \<Rightarrow> bytes \<Rightarrow> nat \<Rightarrow> Stream \<Rightarrow> bool" where
  "lies_ahead xs rest fuel s \<longleftrightarrow> skind s = None \<and> rd s = rlps xs @ rest \<and> fits (length (rlps xs)) s
     \<and> length (rd s) \<le> allocLimit \<and> length (rd s) < fuel"

lemma lies_ahead_64: "lies_ahead xs rest fuel s \<Longrightarrow> length (ahead s) < 2 ^ 64"
  using allocLimit_less [of "length (rd s)"] by (auto simp: lies_ahead_def ahead_def)

lemma lies_ahead_Str:
  assumes "lies_ahead [Str b] rest fuel s"
  shows "skind s = None" "rd s = rlp (Str b) @ rest" "fits (length (rlp (Str b))) s" "length b \<le> allocLimit"
proof -
  show "skind s = None" "rd s = rlp (Str b) @ rest" "fits (length (rlp (Str b))) s"
    using assms by (simp_all add: lies_ahead_def del: rlp.simps)
  have "length (rlp (Str b)) \<le> length (rd s)" using assms by (simp add: lies_ahead_def del: rlp.simps)
  then show "length b \<le> allocLimit" using assms length_rlp_Str [of b] by (auto simp: lies_ahead_def simp del: rlp.simps)
qed

lemma decodeBigInt_complete:
  assumes "big_items i = Inr xs" "lies_ahead xs rest fuel s"
  shows "\<exists>s'. decodeBigInt s = (Inr (VBig i), s')"
proof -
  from assms(1) have i: "0 \<le> i" and xs: "xs = [Str (be_bytes (nat i))]"
    by (auto simp: big_items_def split: if_splits)
  note s = lies_ahead_Str [OF assms(2) [unfolded xs]]
  obtain s' where B: "Bytes s = (Inr (be_bytes (nat i)), s')" using Bytes_fits [OF s] .
  have "be_bytes (nat i) = [] \<or> hd (be_bytes (nat i)) \<noteq> 0" using be_bytes_hd by auto
  then show ?thesis using B i by (auto simp: decodeBigInt_def)
qed

lemma complete_decoderI:
  assumes "regular t"
    and "\<And>v s xs rest. ok v \<Longrightarrow> items_of True t no_tags v = Inr xs \<Longrightarrow>
      lies_ahead xs rest fuel s \<Longrightarrow> \<exists>s'. decodeValue fuel t no_tags s = Some (Inr v, s')"
  shows "complete_decoder (decodeValue fuel t no_tags) True t ok fuel"
  using assms decodeValue_sound(1) [OF assms(1), of fuel no_tags]
  by (intro complete_decoder.intro sound_decoderI complete_decoder_axioms.intro) (auto simp: lies_ahead_def)

lemma decodeValue_Kind:
  "decodeValue fuel t ts s = Some (Inr v, s') \<Longrightarrow> \<not> tail ts \<Longrightarrow> \<exists>k sz s1. Kind s = (Inr (k, sz), s1)"
proof (induction t arbitrary: ts v)
  case (TPtr t)
  then show ?case
    by (auto simp: decodeBigInt_def Bytes_def split: if_splits prod.splits sum.splits)
next
  case (TCoder bv t)
  then show ?case by (auto split: option.splits)
next
  case (TInterface e)
  then show ?case by (cases fuel) (auto split: if_splits prod.splits sum.splits)
qed (auto simp: decodeRawValue_def decodeUint_def decodeBool_def decodeString_def decodeByteSlice_def
      decodeBigInt_def decodeByteArray_def decodeListSlice_def decodeListArray_def
      Bytes_def Raw_def Stream_uint_def Bool_def List_def split: if_splits prod.splits sum.splits)

lemma decodeNilPtr_complete:
  assumes "t \<noteq> TBigInt" "nilOK ts" "lies_ahead xs rest fuel s" "items_of True (TPtr t) ts v = Inr xs"
    "rt_ok (TPtr t) ts v" "regular t"
    and IH: "\<And>u. v = VPtr u \<Longrightarrow> \<exists>s'. decodeValue fuel t no_tags s = Some (Inr u, s')"
  shows "\<exists>s'. decodeValue fuel (TPtr t) ts s = Some (Inr v, s')"
proof (cases "v = VNil")
  case True
  then have xs: "xs = [nil_items t ts]" and k: "nilKind ts \<noteq> KByte" using assms(1,4,5) by simp_all
  have h: "rlps xs = kind_head (nilKind ts) 0 0"
    using xs assms(2) k
    by (cases "nilKind ts") (simp_all add: nil_items_def kind_head_def puthead_short rlp_head_def)
  obtain s1 where "Kind s = (Inr (nilKind ts, 0), s1)"
    using Kind_fits [of s "nilKind ts" 0 0 rest] assms(3) h k by (auto simp: lies_ahead_def)
  then show ?thesis using assms(1,2) True k by simp
next
  case False
  then obtain u where u: "v = VPtr u" using assms(1,5) by (cases v) auto
  then have hd: "hd (rlps xs) \<noteq> 0x80 \<and> hd (rlps xs) \<noteq> 0xC0" using assms(1,2,4,5) by simp
  obtain s' where d: "decodeValue fuel t no_tags s = Some (Inr u, s')" using IH [OF u] by blast
  obtain k sz s1 where K: "Kind s = (Inr (k, sz), s1)" using decodeValue_Kind [OF d] by auto
  have sk: "skind s = None" using assms(3) by (simp add: lies_ahead_def)
  note Ks = Kind_Inr [OF K kind_ok_None [OF sk]]
  have "peeked s1 @ rd s1 = rlps xs @ rest"
    using Ks(2) assms(3) sk by (simp add: lies_ahead_def ahead_def)
  moreover have "rlps xs \<noteq> []"
  proof -
    show ?thesis
      using lies_ahead_64 [OF assms(3)] decodeValue_sound(1) [OF assms(6) d kind_ok_None [OF sk]] assms(1,4) u by (auto simp: value_sound_def)
  qed
  ultimately have "hd (rlps xs) = hd (peeked s1)"
    using peeked_nonempty [of s1] Ks(3) by (metis hd_append2 option.distinct(1))
  then have "\<not> (k \<noteq> KByte \<and> sz = 0)"
    using hd Ks(3,4) by (cases k) (auto simp: peeked_def puthead_short)
  moreover have "decodeValue fuel t no_tags s1 = Some (Inr u, s')" by (rule decodeValue_peek [OF K d]) simp
  ultimately show ?thesis using assms(1,2) K u by (auto simp: map_val_def)
qed

lemma lies_ahead_Lst:
  assumes "lies_ahead [Lst xs] rest fuel s"
  shows "skind s = None" "rd s = rlp (Lst xs) @ rest" "fits (length (rlp (Lst xs))) s"
    "length (rd s) \<le> allocLimit" "length (rd s) \<le> fuel" "length (rd s) < fuel"
  using assms by (auto simp: lies_ahead_def)

text \<open>\<open>completes fuel t ts v\<close>: the decoder of \<open>t\<close> returns \<open>v\<close> where its encoding lies ahead.\<close>

definition completes :: "nat \<Rightarrow> rtype \<Rightarrow> tags \<Rightarrow> rval \<Rightarrow> bool" where
  "completes fuel t ts v \<longleftrightarrow>
     (\<forall>xs rest s. items_of True t ts v = Inr xs \<longrightarrow> lies_ahead xs rest fuel s \<longrightarrow>
        (tail ts \<longrightarrow> is_slice_kind t \<and> exact (length (rlps xs)) s) \<longrightarrow>
        (\<exists>s'. decodeValue fuel t ts s = Some (Inr v, s')))"

lemma decodeFields_complete:
  "fields_ok fl (length vs) \<Longrightarrow> tail_last fl \<Longrightarrow> length ws = length vs \<Longrightarrow>
   \<forall>(i, n, ts, t) \<in> set fl. completes fuel t ts (ws ! i) \<Longrightarrow> items_fields True fl ws = Inr ys \<Longrightarrow>
   lies_ahead ys rest fuel s \<Longrightarrow> exact (length (rlps ys)) s \<Longrightarrow>
   \<exists>vs' s'. decodeFields fuel tp fl vs s = Some (Inr vs', s') \<and> (\<forall>i \<in> fst ` set fl. vs' ! i = ws ! i)"
proof (induction fl arbitrary: vs s ys)
  case (Cons f fl)
  obtain i n ts t where f: "f = (i, n, ts, t)" by (cases f)
  have ok: "i < length vs" "regular t" "tail ts \<longrightarrow> is_slice_kind t" "i \<notin> fst ` set fl" "fields_ok fl (length vs)"
    using Cons.prems(1) f by (auto simp: fields_ok_def)
  from Cons.prems(5) obtain xs zs where xs: "items_of True t ts (ws ! i) = Inr xs"
    "items_fields True fl ws = Inr zs" "ys = xs @ zs"
    using f by (auto split: sum.splits if_splits)
  have la: "lies_ahead xs (rlps zs @ rest) fuel s" and sk: "skind s = None"
    using Cons.prems(6) xs(3) fits_mono [of _ s "length (rlps xs)"] by (auto simp: lies_ahead_def)
  have ex: "exact (length (rlps xs)) s" if "tail ts"
    using Cons.prems(2,7) f that xs(2,3) by simp
  have "completes fuel t ts (ws ! i)" using Cons.prems(4) f by simp
  then obtain s1 where d: "decodeValue fuel t ts s = Some (Inr (ws ! i), s1)"
    using xs(1) la ex ok(3) unfolding completes_def by blast
  note len64 = lies_ahead_64 [OF la]
  then have c: "consumes (rlps xs) s s1"
    using decodeValue_sound(1) [OF ok(2) d kind_ok_None [OF sk] _ ok(3)] xs(1) by (auto simp: value_sound_def)
  note s1 = consumes_rd [OF c sk, of "rlps zs @ rest"]
  have "lies_ahead zs rest fuel s1"
    using la s1 consumes_fits [OF c sk, of "length (rlps zs)"] Cons.prems(6) xs(3) by (simp add: lies_ahead_def)
  moreover have "exact (length (rlps zs)) s1"
    using consumes_exact [OF c sk, of "length (rlps zs)"] Cons.prems(7) xs(3) by simp
  moreover have "fields_ok fl (length (vs[i := ws ! i]))" using ok(5) by simp
  ultimately obtain vs' s2 where d2: "decodeFields fuel tp fl (vs[i := ws ! i]) s1 = Some (Inr vs', s2)"
    "\<forall>i \<in> fst ` set fl. vs' ! i = ws ! i"
    using Cons.IH [of "vs[i := ws ! i]" zs s1] Cons.prems(2-4) xs(2) f by auto
  have "length (ahead s1) < 2 ^ 64" by (rule consumes_less [OF c len64])
  then have "vs' ! i = ws ! i"
    using decodeValue_sound(2) [OF _ d2(1) s1(2)] ok(1,4,5) la by (simp add: fields_sound_def lies_ahead_def)
  then show ?case using d d2 f by simp
qed simp

lemma decodeStruct_complete:
  assumes "structFields fs = Inr fl" "regular (TStruct nm fs)" "rt_ok (TStruct nm fs) ts v"
    "items_of True (TStruct nm fs) ts v = Inr xs" "lies_ahead xs rest fuel s"
    and IH: "\<And>ws i n ts t. v = VStruct ws \<Longrightarrow> (i, n, ts, t) \<in> set fl \<Longrightarrow> completes fuel t ts (ws ! i)"
  shows "\<exists>s'. decodeValue fuel (TStruct nm fs) ts s = Some (Inr v, s')"
proof -
  let ?zs = "map (\<lambda>f. zeroValue (f_type f)) fs"
  obtain ws ys where v: "v = VStruct ws" and ys: "items_fields True fl ws = Inr ys" and xs: "xs = [Lst ys]"
    using assms(1,4) by (cases v) (auto simp: as_list_def split: sum.splits)
  have ws: "length ws = length fs"
    "\<And>j. j < length fs \<Longrightarrow> j \<notin> fst ` set fl \<Longrightarrow> ws ! j = zeroValue (f_type (fs ! j))"
    using assms(1,3) v by auto
  note s = lies_ahead_Lst [OF assms(5) [unfolded xs]]
  obtain s1 where l: "List s = (Inr (of_nat (length (rlps ys))), s1)" "fits (length (rlps ys)) s1"
    "rd s1 = rlps ys @ rest" "skind s1 = None" "exact (length (rlps ys)) s1"
    "length (rd s1) \<le> allocLimit" "length (rd s1) < fuel" using enter_list [OF s(1-5)] .
  have la: "lies_ahead ys rest fuel s1" using l by (simp add: lies_ahead_def)
  have ok: "fields_ok fl (length ?zs)" using structFields_ok [OF assms(1,2)] by simp
  have cs: "\<forall>(i, n, ts, t) \<in> set fl. completes fuel t ts (ws ! i)" using IH [OF v] by auto
  obtain vs' s2 where d: "decodeFields fuel (TStruct nm fs) fl ?zs s1 = Some (Inr vs', s2)"
    "\<forall>i \<in> fst ` set fl. vs' ! i = ws ! i"
    using decodeFields_complete [OF ok structFields_tail_last [OF assms(1)] _ cs ys la l(5), of "TStruct nm fs"] ws(1) by auto
  note fs = decodeValue_sound(2) [OF ok d(1) l(4) lies_ahead_64 [OF la]]
  have "vs' = ws"
  proof (rule nth_equalityI)
    show "length vs' = length ws" using fs ws(1) by (simp add: fields_sound_def)
    show "vs' ! j = ws ! j" if "j < length vs'" for j
      using that fs d(2) ws(1) ws(2) [of j] by (cases "j \<in> fst ` set fl") (auto simp: fields_sound_def)
  qed
  moreover have "exact 0 s2"
    using fs ys \<open>vs' = ws\<close> consumes_exact [of "rlps ys" s1 s2 0] l(4,5) by (auto simp: fields_sound_def)
  ultimately show ?thesis using assms(1) l(1) d(1) v ListEnd_exact [of s2] by (auto simp: map_val_def map_err_def)
qed

lemma bytes_complete:
  assumes "bytes_items v = Inr xs" "lies_ahead xs rest fuel s"
  obtains b s' where "v = VBytes b" "xs = [Str b]" "Bytes s = (Inr b, s')"
proof -
  obtain b where b: "v = VBytes b" "xs = [Str b]" using assms(1) by (cases v) (auto simp: bytes_items_def)
  then show ?thesis using that Bytes_fits [OF lies_ahead_Str [OF assms(2) [unfolded b(2)]]] by blast
qed

lemma decodeValue_complete: "regular t \<Longrightarrow> rt_ok t ts v \<Longrightarrow> completes fuel t ts v"
  unfolding completes_def
proof (intro allI impI, induction t ts v rule: rt_ok.induct)
  case (1 ts v)
  then obtain b where b: "v = VBytes b" "raw_ok b" "xs = [Opaque b]" by (cases v) auto
  obtain s' where "Raw s = (Inr b, s')"
    using Raw_fits [of s b rest] "1.prems"(4) b(2,3) by (auto simp: lies_ahead_def)
  then show ?case using b(1) by (simp add: decodeRawValue_def map_val_def)
next
  case (2 ts v)
  then obtain i where i: "v = VBig i" "big_items i = Inr xs" by (cases v) auto
  show ?case using decodeBigInt_complete [OF i(2) "2.prems"(4)] i(1) by auto
next
  case (3 t ts v)
  show ?case
  proof (cases "t = TBigInt")
    case True
    with 3 obtain i where i: "v = VPtr (VBig i)" "big_items i = Inr xs"
      by (cases v) (auto split: rval.splits)
    show ?thesis using decodeBigInt_complete [OF i(2) "3.prems"(4)] True i(1) by (auto simp: map_val_def)
  next
    case F: False
    have IH: "\<exists>s'. decodeValue fuel t no_tags s = Some (Inr u, s')" if u: "v = VPtr u" for u
      using "3.IH" [OF F u, of xs rest s] "3.prems" F u by simp
    show ?thesis
    proof (cases "nilOK ts")
      case False
      with F "3.prems"(2) obtain u where u: "v = VPtr u" by (cases v) auto
      show ?thesis using IH [OF u] F False u by (auto simp: map_val_def)
    next
      case True
      show ?thesis by (rule decodeNilPtr_complete [OF F True "3.prems"(4,3,2) _ IH]) (use "3.prems"(1) in simp_all)
    qed
  qed
next
  case (4 bv t ts v)
  then have m: "makeDecoderErr t = None" "items_of True t no_tags v = Inr xs"
    by (auto simp: makeDecoderErr_eq split: option.splits)
  then obtain s' where "decodeValue fuel t no_tags s = Some (Inr v, s')"
    using "4.IH" [of xs rest s] "4.prems" by auto
  then show ?case using m(1) by (simp add: map_err_def)
next
  case (5 n ts v)
  then obtain u where u: "v = VUint u" "xs = [Str (be_bytes (unat u))]" "length (be_bytes (unat u)) \<le> n div 8"
    by (cases v) auto
  obtain s' where "Stream_uint n s = (Inr u, s')"
    using Stream_uint_fits [OF lies_ahead_Str(1-3) [OF "5.prems"(4) [unfolded u(2)]] u(3)] .
  then show ?case using u(1) by (simp add: decodeUint_def map_val_def map_err_def)
next
  case (6 ts v)
  then obtain b where b: "v = VBool b" "xs = [Str (if b then [1] else [])]" by (cases v) auto
  have e: "(if b then [1] else []) = be_bytes (unat (if b then 1 else 0 :: u64))"
    using be_bytes_be_val [of "[1]"] by auto
  have le: "length (be_bytes (unat (if b then 1 else 0 :: u64))) \<le> 8 div 8" unfolding e [symmetric] by simp
  obtain s' where "Stream_uint 8 s = (Inr (if b then 1 else 0), s')"
    using Stream_uint_fits [OF lies_ahead_Str(1-3) [OF "6.prems"(4) [unfolded b(2) e]] le] .
  then show ?case using b(1) by (auto simp: decodeBool_def Bool_def map_val_def map_err_def)
next
  case (7 ts v)
  then have "bytes_items v = Inr xs" by simp
  from bytes_complete [OF this "7.prems"(4)] obtain b s' where "v = VBytes b" "Bytes s = (Inr b, s')" .
  then show ?case by (simp add: decodeString_def map_val_def map_err_def)
next
  case (8 t ts v)
  show ?case
  proof (cases "isByte t")
    case True
    then have "bytes_items v = Inr xs" using "8.prems"(3) by simp
    from bytes_complete [OF this "8.prems"(4)] obtain b s' where "v = VBytes b" "Bytes s = (Inr b, s')" .
    then show ?thesis using True by (simp add: decodeByteSlice_def map_val_def map_err_def)
  next
    case F: False
    then obtain vs where v: "v = VList vs" "eol_ok t" "\<forall>u \<in> set vs. rt_ok t no_tags u"
      using "8.prems"(2) by (cases v) auto
    let ?ok = "\<lambda>u. u \<in> set vs"
    have cd: "complete_decoder (decodeValue fuel t no_tags) True t ?ok fuel"
      using "8.IH" [OF v(1)] "8.prems"(1) v(3) by (intro complete_decoderI) auto
    have fuel: "0 < fuel" using "8.prems"(4) by (simp add: lies_ahead_def)
    have eol: "\<exists>s'. decodeValue fuel t no_tags s = Some (Inl EOL, s')" if "skind s = None" "at_list_end s" for s
      using decodeValue_at_end [OF that v(2) fuel] by blast
    show ?thesis
    proof (cases "tail ts")
      case True
      then have "items_elems True t vs = Inr xs" using "8.prems"(3) F v(1) by simp
      then have "\<exists>s'. decodeSliceElems fuel (decodeValue fuel t no_tags) [] s = Some (Inr ([] @ vs), s')"
        using "8.prems"(4,5) True
        by (intro complete_decoder.decodeSliceElems_complete [OF cd eol]) (auto simp: lies_ahead_def)
      then show ?thesis using F True v(1) by (auto simp: map_val_def)
    next
      case False
      then obtain ys where ys: "items_elems True t vs = Inr ys" "xs = [Lst ys]"
        using "8.prems"(3) F v(1) by (auto simp: as_list_def split: sum.splits)
      note s = lies_ahead_Lst [OF "8.prems"(4) [unfolded ys(2)]]
      show ?thesis
        using complete_decoder.decodeListSlice_complete [OF cd eol _ ys(1) s(1-5)] F False v(1) by auto
    qed
  qed
next
  case (9 n t ts v)
  show ?case
  proof (cases "isByte t")
    case True
    then obtain b where b: "v = VBytes b" "length b = n" "xs = [Str b]"
      using "9.prems"(2,3) by (cases v) (auto simp: bytes_items_def)
    show ?thesis
      using decodeByteArray_fits [OF lies_ahead_Str [OF "9.prems"(4) [unfolded b(3)]], of "TArray n t"] b True "9.prems"(1)
      by auto
  next
    case F: False
    then obtain vs where v: "v = VList vs" "length vs = n" "\<forall>u \<in> set vs. rt_ok t no_tags u"
      using "9.prems"(2) by (cases v) auto
    have cd: "complete_decoder (decodeValue fuel t no_tags) True t (\<lambda>u. u \<in> set vs) fuel"
      using "9.IH" [OF F v(1)] "9.prems"(1) v(3) by (intro complete_decoderI) auto
    obtain ys where ys: "items_elems True t vs = Inr ys" "xs = [Lst ys]"
      using "9.prems"(3,5) F v(1) by (auto simp: as_list_def split: sum.splits if_splits)
    note s = lies_ahead_Lst [OF "9.prems"(4) [unfolded ys(2)]]
    show ?thesis
      using complete_decoder.decodeListArray_complete [OF cd _ ys(1) s(1-5)] F v(1,2) by auto
  qed
next
  case (10 nm fs ts v)
  obtain fl where fl: "structFields fs = Inr fl" using "10.prems"(2) by (cases v) (auto split: sum.splits)
  show ?case
  proof (rule decodeStruct_complete [OF fl "10.prems"(1-4)])
    fix ws i n ts' t assume v: "v = VStruct ws" and m: "(i, n, ts', t) \<in> set fl"
    have "regular t" using structFields_nth [OF fl m] "10.prems"(1) by auto
    moreover have "rt_ok t ts' (ws ! i)" using "10.prems"(2) v fl m by auto
    ultimately show "completes fuel t ts' (ws ! i)"
      unfolding completes_def using "10.IH" [OF v fl m] by auto
  qed
next
  case (11 e ts v)
  then show ?case
    using iface.dec_complete [where fuel = fuel and addr = True and v = v and xs = xs and s = s and rest = rest]
    by (auto simp: lies_ahead_def)
next
  case (12 k ts v)
  then show ?case by simp
qed

lemma lies_ahead_Reset:
  assumes "b = rlps xs" "length b \<le> allocLimit" "length b < fuel"
  shows "lies_ahead xs [] fuel (Reset True b (of_nat (length b)))"
proof -
  have "unat (of_nat (length b) :: u64) = length b"
    using allocLimit_less [OF assms(2)] by (simp add: unat_of_nat)
  then show ?thesis using assms by (auto simp: lies_ahead_def fits_def Reset_def)
qed

text \<open>
  Encoding and decoding round-trip: decoding the encoding of a value gives the value back, for
  every type and every value that decoding can produce at all.
\<close>

lemma decode_encode:
  assumes "encode_spec (TPtr t) (VPtr v) = Inr xs" and "rt_ok t no_tags v" and "regular t"
    and "length (rlps xs) \<le> allocLimit" and "length (rlps xs) < fuel"
  shows "\<exists>b. EncodeToBytes (TPtr t) (VPtr v) = Inr (Some b) \<and> DecodeBytes fuel t b = Some (Inr v)"
proof -
  let ?s = "Reset True (rlps xs) (of_nat (length (rlps xs)))"
  from assms(1) have m: "makeDecoderErr t = None" and it: "items_of True t no_tags v = Inr xs"
    by (auto simp: encode_spec_def makeDecoderErr_eq split: option.splits if_splits rval.splits)
  note la = lies_ahead_Reset [OF refl assms(4,5)]
  obtain s' where d: "decodeValue fuel t no_tags ?s = Some (Inr v, s')"
    using decodeValue_complete [OF assms(3,2), of fuel] it la unfolding completes_def by auto
  have "consumes (rlps xs) ?s s'"
    using decodeValue_sound(1) [OF assms(3) d _ lies_ahead_64 [OF la]] it by (auto simp: value_sound_def)
  then have "rd s' = []" using consumes_rd(1) [of "rlps xs" ?s s' "[]"] by simp
  then have "DecodeBytes fuel t (rlps xs) = Some (Inr v)"
    using d m by (simp add: DecodeBytes_def Stream_Decode_def map_err_def)
  then show ?thesis using EncodeToBytes_Inr [OF assms(1)] allocLimit_less [OF assms(4)] by blast
qed


definition account_fields :: "rtype sfield list" where
  "account_fields =
     [SField ''Nonce'' True [] (TUint 64), SField ''Balance'' True [] (TPtr TBigInt),
      SField ''note'' False [] TString, SField ''Next'' True ''nil'' (TPtr TString),
      SField ''Codes'' True ''tail'' (TSlice (TSlice (TUint 8)))]"

definition account_type :: rtype where
  "account_type = TStruct ''account'' account_fields"

definition account_value :: rval where
  "account_value = VStruct [VUint 7, VPtr (VBig 1000), VBytes [], VNil, VList [VBytes [1, 2], VBytes []]]"

lemma account_structFields:
  "structFields account_fields =
     Inr [(0, ''Nonce'', no_tags, TUint 64), (1, ''Balance'', no_tags, TPtr TBigInt),
          (3, ''Next'', no_tags\<lparr>nilOK := True, nilKind := KString\<rparr>, TPtr TString),
          (4, ''Codes'', no_tags\<lparr>tail := True\<rparr>, TSlice (TSlice (TUint 8)))]"
  by code_simp

lemma account_rt_ok: "rt_ok account_type no_tags account_value"
  by (simp add: account_type_def account_value_def account_structFields)
    (simp add: account_fields_def be_bytes_small upt_rec)


end
