(* ===== verification/Rlp_Raw.thy ===== *)
theory Rlp_Raw
  imports Rlp_Complete Rlp_Encode_Correct
begin

text \<open>
  \<^verbatim>\<open>rlp/raw.go\<close>: splitting and counting encoded values without decoding them.  The lemmas
  characterise the header reader: it accepts exactly the canonical encodings of a byte, a
  string or a list, the sizes it returns stay inside the input, and so none of the slice
  expressions built on it can panic.
\<close>

section \<open>Sizes and kinds\<close>

definition readSize :: "bytes \<Rightarrow> byte \<Rightarrow> rlp_error + u64" where
  "readSize b slen =
     (if unat slen > length b then Inl IoUnexpectedEOF
      else
        (let u = (\<lambda>i. ucast (b ! i) :: u64);
             s = (if slen = 1 then u 0
                  else if slen = 2 then push_bit 8 (u 0) OR u 1
                  else if slen = 3 then push_bit 16 (u 0) OR push_bit 8 (u 1) OR u 2
                  else if slen = 4 then
                    push_bit 24 (u 0) OR push_bit 16 (u 1) OR push_bit 8 (u 2) OR u 3
                  else if slen = 5 then
                    push_bit 32 (u 0) OR push_bit 24 (u 1) OR push_bit 16 (u 2) OR push_bit 8 (u 3)
                    OR u 4
                  else if slen = 6 then
                    push_bit 40 (u 0) OR push_bit 32 (u 1) OR push_bit 24 (u 2) OR push_bit 16 (u 3)
                    OR push_bit 8 (u 4) OR u 5
                  else if slen = 7 then
                    push_bit 48 (u 0) OR push_bit 40 (u 1) OR push_bit 32 (u 2) OR push_bit 24 (u 3)
                    OR push_bit 16 (u 4) OR push_bit 8 (u 5) OR u 6
                  else if slen = 8 then
                    push_bit 56 (u 0) OR push_bit 48 (u 1) OR push_bit 40 (u 2) OR push_bit 32 (u 3)
                    OR push_bit 24 (u 4) OR push_bit 16 (u 5) OR push_bit 8 (u 6) OR u 7
                  else 0)
         in if s < 56 \<or> b ! 0 = 0 then Inl ErrCanonSize else Inr s))"

definition raw_readKind :: "bytes \<Rightarrow> rlp_error + Kind \<times> u64 \<times> u64" where
  "raw_readKind buf =
     (case buf of
        [] \<Rightarrow> Inl IoUnexpectedEOF
      | b # r \<Rightarrow>
          (case
             (if b < 0x80 then Inr (KByte, 0, 1)
              else if b < 0xB8 then
                (let cs = ucast (b - 0x80) in
                 if cs = 1 \<and> length buf > 1 \<and> buf ! 1 < 128 then Inl ErrCanonSize
                 else Inr (KString, 1, cs))
              else if b < 0xC0 then
                map_sum id (\<lambda>cs. (KString, ucast (b - 0xB7) + 1, cs)) (readSize r (b - 0xB7))
              else if b < 0xF8 then Inr (KList, 1, ucast (b - 0xC0))
              else map_sum id (\<lambda>cs. (KList, ucast (b - 0xF7) + 1, cs)) (readSize r (b - 0xF7)))
           of
             Inl e \<Rightarrow> Inl e
           | Inr (k, ts, cs) \<Rightarrow>
               if cs > of_nat (length buf) - ts then Inl ErrValueTooLarge else Inr (k, ts, cs)))"

text \<open>\<^verbatim>\<open>b[lo:hi]\<close>, which panics unless \<open>lo \<le> hi \<le> len(b)\<close>.\<close>

definition slice :: "bytes \<Rightarrow> u64 \<Rightarrow> u64 \<Rightarrow> rlp_error + bytes" where
  "slice b lo hi =
     (if lo \<le> hi \<and> unat hi \<le> length b then Inr (take (unat hi - unat lo) (drop (unat lo) b))
      else Inl RuntimePanic)"

definition slice_from :: "bytes \<Rightarrow> u64 \<Rightarrow> rlp_error + bytes" where
  "slice_from b lo = (if unat lo \<le> length b then Inr (drop (unat lo) b) else Inl RuntimePanic)"

definition Split :: "bytes \<Rightarrow> rlp_error + Kind \<times> bytes \<times> bytes" where
  "Split b =
     (case raw_readKind b of
        Inl e \<Rightarrow> Inl e
      | Inr (k, ts, cs) \<Rightarrow>
          (case slice b ts (ts + cs) of
             Inl e \<Rightarrow> Inl e
           | Inr content \<Rightarrow> map_sum id (\<lambda>rest. (k, content, rest)) (slice_from b (ts + cs))))"

definition SplitString :: "bytes \<Rightarrow> rlp_error + bytes \<times> bytes" where
  "SplitString b =
     (case Split b of
        Inl e \<Rightarrow> Inl e
      | Inr (k, content, rest) \<Rightarrow> if k = KList then Inl ErrExpectedString else Inr (content, rest))"

definition SplitList :: "bytes \<Rightarrow> rlp_error + bytes \<times> bytes" where
  "SplitList b =
     (case Split b of
        Inl e \<Rightarrow> Inl e
      | Inr (k, content, rest) \<Rightarrow> if k \<noteq> KList then Inl ErrExpectedList else Inr (content, rest))"

partial_function (option) CountFrom :: "nat \<Rightarrow> bytes \<Rightarrow> (rlp_error + nat) option" where
  "CountFrom i b =
     (if b = [] then Some (Inr i)
      else
        (case raw_readKind b of
           Inl e \<Rightarrow> Some (Inl e)
         | Inr (_, tagsize, sz) \<Rightarrow>
             (case slice_from b (tagsize + sz) of
                Inl e \<Rightarrow> Some (Inl e)
              | Inr r \<Rightarrow> CountFrom (Suc i) r)))"

definition CountValues :: "bytes \<Rightarrow> (rlp_error + nat) option" where
  "CountValues b = CountFrom 0 b"

definition ListSize :: "u64 \<Rightarrow> u64" where
  "ListSize contentSize = of_nat (headsize contentSize) + contentSize"

section \<open>The shape of one encoded value\<close>

text \<open>
  A value of kind \<open>k\<close> with content \<open>c\<close> as it stands in the input; a byte below 0x80 is its own
  content.
\<close>

definition value_bytes :: "Kind \<Rightarrow> bytes \<Rightarrow> bytes" where
  "value_bytes k c =
     (case k of
        KByte \<Rightarrow> c
      | KString \<Rightarrow> rlp_head 0x80 0xB7 (length c) @ c
      | KList \<Rightarrow> rlp_head 0xC0 0xF7 (length c) @ c)"

definition value_ok :: "Kind \<Rightarrow> bytes \<Rightarrow> bool" where
  "value_ok k c \<longleftrightarrow>
     (case k of
        KByte \<Rightarrow> length c = 1 \<and> hd c < 0x80
      | KString \<Rightarrow> \<not> (length c = 1 \<and> hd c < 0x80)
      | KList \<Rightarrow> True)"

lemma be_step: "push_bit 8 a OR ucast (c :: byte) = a * 256 + (ucast c :: u64)"
proof -
  have "push_bit 8 a + (ucast c :: u64) = push_bit 8 a OR ucast c"
    by (rule disjunctive_add) (auto simp: bit_push_bit_iff bit_ucast_iff dest: bit_imp_le_length)
  then show ?thesis by (simp add: push_bit_eq_mult mult.commute)
qed

definition be_word :: "bytes \<Rightarrow> u64" where
  "be_word = foldl (\<lambda>a c. push_bit 8 a OR ucast c) 0"

lemma be_word_be_val: "be_word b = of_nat (be_val b)"
  by (induction b rule: rev_induct) (simp_all add: be_word_def be_step)

lemma list_upto_8_cases:
  assumes "0 < length b" "length b \<le> 8"
  obtains (1) x0 where "b = [x0]" | (2) x0 x1 where "b = [x0, x1]" | (3) x0 x1 x2 where "b = [x0, x1, x2]"
  | (4) x0 x1 x2 x3 where "b = [x0, x1, x2, x3]" | (5) x0 x1 x2 x3 x4 where "b = [x0, x1, x2, x3, x4]"
  | (6) x0 x1 x2 x3 x4 x5 where "b = [x0, x1, x2, x3, x4, x5]"
  | (7) x0 x1 x2 x3 x4 x5 x6 where "b = [x0, x1, x2, x3, x4, x5, x6]"
  | (8) x0 x1 x2 x3 x4 x5 x6 x7 where "b = [x0, x1, x2, x3, x4, x5, x6, x7]"
proof -
  have "length b = 1 \<or> length b = 2 \<or> length b = 3 \<or> length b = 4 \<or> length b = 5 \<or> length b = 6
      \<or> length b = 7 \<or> length b = 8"
    using assms by arith
  then show ?thesis using that by (auto simp: numeral_eq_Suc length_Suc_conv)
qed

lemma readSize_be_word:
  assumes "0 < length b" "length b \<le> 8"
  shows "readSize (b @ r) (of_nat (length b)) =
    (if be_word b < 56 \<or> hd b = 0 then Inl ErrCanonSize else Inr (be_word b))"
  using assms
  by (cases rule: list_upto_8_cases) (simp_all add: readSize_def be_word_def Let_def push_bit_or or.assoc)

lemma readSize_be_val:
  assumes "0 < length b" "length b \<le> 8"
  shows "readSize (b @ r) (of_nat (length b)) =
    (if be_val b < 56 \<or> hd b = 0 then Inl ErrCanonSize else Inr (of_nat (be_val b)))"
  using readSize_be_word [OF assms] u64_of_nat_be_val [OF assms(2)]
  by (simp add: word_less_nat_alt be_word_be_val)

lemma readSize_Inr:
  assumes "readSize r n = Inr s" "0 < unat n" "unat n \<le> 8"
  shows "\<exists>p q. r = p @ q \<and> length p = unat n \<and> rlp_head small large (unat s) = (large + n) # p"
proof -
  define p q where pq: "p = take (unat n) r" "q = drop (unat n) r"
  have "unat n \<le> length r" using assms(1) by (auto simp: readSize_def split: if_splits)
  then have r: "r = p @ q" and len: "length p = unat n" by (simp_all add: pq)
  then have n: "n = of_nat (length p)" by simp
  have s: "\<not> be_val p < 56" "hd p \<noteq> 0" "s = of_nat (be_val p)"
    using readSize_be_val [of p q] assms len unfolding r n by (auto split: if_splits)
  then have u: "unat s = be_val p" using u64_of_nat_be_val [of p] len assms(3) by simp
  have "be_bytes (unat s) = p" using be_bytes_be_val [of p] s(2) u by simp
  then have "rlp_head small large (unat s) = (large + n) # p"
    using s(1) u len by (simp add: rlp_head_def)
  with r len show ?thesis by blast
qed

lemma readSize_be_bytes:
  assumes "\<not> m < 56" "m < 2 ^ 64"
  shows "readSize (be_bytes m @ r) (of_nat (length (be_bytes m))) = Inr (of_nat m)"
    and "0 < length (be_bytes m)" "length (be_bytes m) \<le> 8"
proof -
  show len: "0 < length (be_bytes m)" "length (be_bytes m) \<le> 8"
    using assms length_be_bytes_le [of m 8] by auto
  show "readSize (be_bytes m @ r) (of_nat (length (be_bytes m))) = Inr (of_nat m)"
    using readSize_be_val [OF len] be_bytes_hd [of m] assms by auto
qed

lemma unat_ucast_Suc: "unat (ucast (n :: byte) + 1 :: u64) = unat n + 1"
  using unat_byte_less [of n] by (subst unat_add_lem [THEN iffD1]) (simp_all del: unat_byte_less)

text \<open>The size test of \<^verbatim>\<open>readKind\<close> leaves the content in the input.\<close>

lemma content_fits:
  assumes "\<not> cs > of_nat (length buf) - (ts :: u64)" "unat ts \<le> length buf" "length buf < 2 ^ 64"
  shows "unat ts + unat cs \<le> length buf"
proof -
  have "unat (of_nat (length buf) - ts) = length buf - unat ts"
    using assms(2,3) by (subst unat_sub) (simp_all add: word_le_nat_alt unat_of_nat)
  then show ?thesis using assms by (simp add: word_less_nat_alt)
qed

lemma raw_readKind_short:
  assumes "unat cs < 56" "buf = (small + of_nat (unat cs)) # r" "\<not> cs > of_nat (length buf) - (1 :: u64)"
    "length buf < 2 ^ 64"
  shows "\<exists>c q. buf = (rlp_head small large (length c) @ c) @ q \<and> unat cs = length c \<and> length (rlp_head small large (length c)) = 1"
proof -
  have "1 + unat cs \<le> length buf" using content_fits [OF assms(3) _ assms(4)] assms(2) by simp
  then show ?thesis using assms(1,2)
    by (intro exI [of _ "take (unat cs) r"] exI [of _ "drop (unat cs) r"]) (simp add: rlp_head_def)
qed

lemma raw_readKind_long:
  assumes "readSize r n = Inr cs" "0 < unat n" "unat n \<le> 8" "buf = (large + n) # r"
    "\<not> cs > of_nat (length buf) - (ucast n + 1 :: u64)" "length buf < 2 ^ 64"
  shows "\<exists>c q. buf = (rlp_head small large (length c) @ c) @ q \<and> unat cs = length c
    \<and> length (rlp_head small large (length c)) = unat (ucast n + 1 :: u64)"
proof -
  obtain p q where pq: "r = p @ q" "length p = unat n" "rlp_head small large (unat cs) = (large + n) # p"
    using readSize_Inr [OF assms(1-3)] by blast
  note ts = unat_ucast_Suc [of n]
  have "unat n + 1 + unat cs \<le> length buf"
    using content_fits [OF assms(5) _ assms(6)] assms(4) pq ts by simp
  then have "unat cs \<le> length q" using assms(4) pq by simp
  then show ?thesis using pq ts assms(4)
    by (intro exI [of _ "take (unat cs) q"] exI [of _ "drop (unat cs) q"]) simp
qed

lemma raw_readKind_Inr:
  assumes "raw_readKind buf = Inr (k, ts, cs)" "length buf < 2 ^ 64"
  shows "\<exists>c q. buf = value_bytes k c @ q \<and> value_ok k c \<and> unat cs = length c
    \<and> length (value_bytes k c) = unat ts + unat cs"
proof -
  from assms(1) obtain b r where buf: "buf = b # r" by (auto simp: raw_readKind_def split: list.splits)
  have chk: "\<not> cs > of_nat (length buf) - ts"
    using assms(1) by (auto simp: raw_readKind_def split: list.splits sum.splits if_splits)
  consider "b < 0x80" | "\<not> b < 0x80" "b < 0xB8" | "\<not> b < 0xB8" "b < 0xC0"
    | "\<not> b < 0xC0" "b < 0xF8" | "\<not> b < 0xF8" by blast
  then show ?thesis
  proof cases
    case 1
    then show ?thesis using assms(1) unfolding buf
      by (intro exI [of _ "[b]"] exI [of _ r])
        (auto simp: raw_readKind_def value_bytes_def value_ok_def split: if_splits)
  next
    case 2
    then have lt: "unat (ucast (b - 0x80) :: u64) < 56" and b: "b = 0x80 + of_nat (unat (ucast (b - 0x80) :: u64))"
      by (simp_all add: unat_minus_byte word_less_nat_alt word_le_nat_alt)
    from 2 assms(1) have k: "k = KString" "ts = 1" "cs = ucast (b - 0x80)"
      and canon: "\<not> (cs = 1 \<and> r \<noteq> [] \<and> r ! 0 < 128)"
      unfolding buf by (auto simp: raw_readKind_def Let_def split: sum.splits if_splits)
    obtain c q where c: "buf = (rlp_head 0x80 0xB7 (length c) @ c) @ q" "unat cs = length c"
        "length (rlp_head 0x80 0xB7 (length c)) = 1"
      using raw_readKind_short [of cs buf "0x80" r "0xB7"] chk lt b assms(2) unfolding k buf by auto
    have "\<not> (length c = 1 \<and> hd c < 0x80)"
    proof
      assume a: "length c = 1 \<and> hd c < 0x80"
      then obtain x where "c = [x]" by (auto simp: length_Suc_conv)
      moreover from this c(1) have "r = x # q" by (simp add: buf rlp_head_def)
      moreover have "cs = 1" using c(2) a unat_eq_Suc_0 [of cs] by simp
      ultimately show False using canon a by simp
    qed
    then show ?thesis using c k by (intro exI [of _ c] exI [of _ q]) (simp add: value_bytes_def value_ok_def)
  next
    case 3
    then have n: "0 < unat (b - 0xB7)" "unat (b - 0xB7) \<le> 8"
      by (simp_all add: unat_minus_byte word_less_nat_alt word_le_nat_alt)
    from 3 have "\<not> b < 0x80" by (simp add: word_less_nat_alt)
    with 3 assms(1) have k: "k = KString" "ts = ucast (b - 0xB7) + 1" and rs: "readSize r (b - 0xB7) = Inr cs"
      unfolding buf by (auto simp: raw_readKind_def split: sum.splits if_splits)
    obtain c q where c: "buf = (rlp_head 0x80 0xB7 (length c) @ c) @ q" "unat cs = length c"
        "length (rlp_head 0x80 0xB7 (length c)) = unat ts"
      using raw_readKind_long [OF rs n, of buf "0xB7" "0x80"] chk assms(2) unfolding k buf by auto
    have "length c \<noteq> 1" using c(3) n(1) k(2) unat_ucast_Suc [of "b - 0xB7"] by (auto simp: rlp_head_def)
    then show ?thesis using c k by (intro exI [of _ c] exI [of _ q]) (simp add: value_bytes_def value_ok_def)
  next
    case 4
    then have lt: "unat (ucast (b - 0xC0) :: u64) < 56" and b: "b = 0xC0 + of_nat (unat (ucast (b - 0xC0) :: u64))"
      by (simp_all add: unat_minus_byte word_less_nat_alt word_le_nat_alt)
    from 4 have "\<not> b < 0x80" "\<not> b < 0xB8" by (simp_all add: word_less_nat_alt)
    with 4 assms(1) have k: "k = KList" "ts = 1" "cs = ucast (b - 0xC0)"
      unfolding buf by (auto simp: raw_readKind_def split: sum.splits if_splits)
    obtain c q where c: "buf = (rlp_head 0xC0 0xF7 (length c) @ c) @ q" "unat cs = length c"
        "length (rlp_head 0xC0 0xF7 (length c)) = 1"
      using raw_readKind_short [of cs buf "0xC0" r "0xF7"] chk lt b assms(2) unfolding k buf by auto
    then show ?thesis using k by (intro exI [of _ c] exI [of _ q]) (simp add: value_bytes_def value_ok_def)
  next
    case 5
    then have n: "0 < unat (b - 0xF7)" "unat (b - 0xF7) \<le> 8"
      using unat_byte_less [of b]
      by (simp_all add: unat_minus_byte word_less_nat_alt word_le_nat_alt del: unat_byte_less)
    from 5 have "\<not> b < 0x80" "\<not> b < 0xB8" "\<not> b < 0xC0" by (simp_all add: word_less_nat_alt)
    with 5 assms(1) have k: "k = KList" "ts = ucast (b - 0xF7) + 1" and rs: "readSize r (b - 0xF7) = Inr cs"
      unfolding buf by (auto simp: raw_readKind_def split: sum.splits if_splits)
    obtain c q where c: "buf = (rlp_head 0xC0 0xF7 (length c) @ c) @ q" "unat cs = length c"
        "length (rlp_head 0xC0 0xF7 (length c)) = unat ts"
      using raw_readKind_long [OF rs n, of buf "0xF7" "0xC0"] chk assms(2) unfolding k buf by auto
    then show ?thesis using k by (intro exI [of _ c] exI [of _ q]) (simp add: value_bytes_def value_ok_def)
  qed
qed

lemma content_test:
  assumes "buf = (h @ c) @ q" "unat cs = length c" "unat ts = length h" "length buf < 2 ^ 64"
  shows "\<not> (cs :: u64) > of_nat (length buf) - ts"
proof -
  have le: "unat ts \<le> length buf" using assms by simp
  have "unat (of_nat (length buf) - ts) = length buf - unat ts"
    using le assms(4) by (subst unat_sub) (simp_all add: word_le_nat_alt unat_of_nat)
  then show ?thesis using assms by (simp add: word_less_nat_alt)
qed

lemma raw_readKind_value:
  assumes "value_ok k c" "length (value_bytes k c @ q) < 2 ^ 64"
  shows "\<exists>ts cs. raw_readKind (value_bytes k c @ q) = Inr (k, ts, cs) \<and> unat cs = length c
    \<and> unat ts + unat cs = length (value_bytes k c)"
proof -
  let ?m = "length c" and ?buf = "value_bytes k c @ q"
  define small large where sl: "small = (if k = KString then 0x80 else 0xC0 :: byte)"
    "large = (if k = KString then 0xB7 else 0xF7 :: byte)"
  have m: "?m < 2 ^ 64" using assms(2) by (auto simp: value_bytes_def split: Kind.splits)
  consider "k = KByte" | "k \<noteq> KByte" "?m < 56" | "k \<noteq> KByte" "\<not> ?m < 56" by blast
  then show ?thesis
  proof cases
    case 1
    then obtain x where x: "c = [x]" "x < 0x80" using assms(1) by (auto simp: value_ok_def length_Suc_conv)
    have "\<not> (1 :: u64) > of_nat (length ?buf) - 0"
      using content_test [of ?buf "[]" c q 1 0] 1 x assms(2) by (simp add: value_bytes_def)
    then show ?thesis using 1 x by (simp add: value_bytes_def raw_readKind_def)
  next
    case 2
    have buf: "?buf = ([small + of_nat ?m] @ c) @ q"
      using 2 sl by (cases k) (simp_all add: value_bytes_def rlp_head_def)
    have chk: "\<not> (of_nat ?m :: u64) > of_nat (length ?buf) - 1"
      using content_test [OF buf _ _ assms(2), of "of_nat ?m" 1] m by (simp add: unat_of_nat)
    have ub: "unat (0x80 + of_nat ?m :: byte) = 0x80 + ?m" "unat (0xC0 + of_nat ?m :: byte) = 0xC0 + ?m"
      using 2(2) unat_add_byte [of "0x80" ?m] unat_add_byte [of "0xC0" ?m] by simp_all
    have u: "(ucast (of_nat ?m :: byte) :: u64) = of_nat ?m"
      using 2(2) by (simp add: word_unat_eq_iff unat_of_nat)
    have one: "(of_nat ?m :: u64) = 1 \<longleftrightarrow> ?m = 1"
      using 2(2) by (simp add: word_unat_eq_iff unat_of_nat)
    have canon: "\<not> (?m = 1 \<and> hd (c @ q) < 0x80)" if "k = KString"
      using assms(1) that by (cases c) (auto simp: value_ok_def)
    have hd: "(c @ q) ! 0 = hd (c @ q)" if "?m = 1" using that by (cases c) auto
    have "raw_readKind ?buf = Inr (k, 1, of_nat ?m)"
      using 2(1) canon chk one hd ub u 2(2) unfolding buf
      by (cases k) (auto simp: sl raw_readKind_def Let_def word_less_nat_alt)
    then show ?thesis using arg_cong [OF buf, of length] m by (simp add: unat_of_nat)
  next
    case 3
    note long = readSize_be_bytes [OF 3(2) m]
    let ?n = "length (be_bytes ?m)"
    have buf: "?buf = (((large + of_nat ?n) # be_bytes ?m) @ c) @ q"
      using 3 sl by (cases k) (simp_all add: value_bytes_def rlp_head_def)
    have un: "unat (of_nat ?n :: byte) = ?n" using long(3) by (simp add: unat_of_nat)
    have ts: "unat (ucast (of_nat ?n :: byte) + 1 :: u64) = ?n + 1"
      using un unat_ucast_Suc [of "of_nat ?n"] by simp
    have chk: "\<not> (of_nat ?m :: u64) > of_nat (length ?buf) - (ucast (of_nat ?n :: byte) + 1)"
      using content_test [OF buf _ _ assms(2), of "of_nat ?m" "ucast (of_nat ?n :: byte) + 1"] ts m
      by (simp add: unat_of_nat)
    have ub: "unat (0xB7 + of_nat ?n :: byte) = 0xB7 + ?n" "unat (0xF7 + of_nat ?n :: byte) = 0xF7 + ?n"
      using unat_add_byte [of "0xB7" ?n] unat_add_byte [of "0xF7" ?n] long(3) by simp_all
    have "raw_readKind ?buf = Inr (k, ucast (of_nat ?n :: byte) + 1, of_nat ?m)"
      using 3(1) chk ub long unfolding buf
      by (cases k) (auto simp: sl raw_readKind_def word_less_nat_alt)
    then show ?thesis using arg_cong [OF buf, of length] m ts by (simp add: unat_of_nat)
  qed
qed

lemma raw_readKind_no_panic: "raw_readKind b \<noteq> Inl RuntimePanic"
  by (auto simp: raw_readKind_def readSize_def Let_def split: list.splits sum.splits if_splits)

lemma value_bytes_nonempty: "value_ok k c \<Longrightarrow> value_bytes k c \<noteq> []"
  by (auto simp: value_bytes_def value_ok_def rlp_head_def split: Kind.splits)

text \<open>Where \<^verbatim>\<open>readKind\<close> succeeds, the slices it is used for are in range.\<close>

lemma slices_in_range:
  assumes "b = value_bytes k c @ q" "unat cs = length c" "length (value_bytes k c) = unat ts + unat cs"
    "length b < 2 ^ 64"
  shows "slice b ts (ts + cs) = Inr c" and "slice_from b (ts + cs) = Inr q"
proof -
  have sum: "unat (ts + cs) = unat ts + unat cs" using assms by (subst unat_add_lem [THEN iffD1]) simp_all
  show "slice_from b (ts + cs) = Inr q" using assms sum by (simp add: slice_from_def)
  have "drop (unat ts) (value_bytes k c) = c"
    using assms(2,3) by (cases k) (auto simp: value_bytes_def)
  then show "slice b ts (ts + cs) = Inr c" using assms sum by (simp add: slice_def word_le_nat_alt)
qed

lemma Split_iff:
  assumes "length b < 2 ^ 64"
  shows "Split b = Inr (k, c, q) \<longleftrightarrow> b = value_bytes k c @ q \<and> value_ok k c"
proof
  assume s: "Split b = Inr (k, c, q)"
  then obtain ts cs where rk: "raw_readKind b = Inr (k, ts, cs)"
    by (auto simp: Split_def split: sum.splits)
  then obtain c' q' where v: "b = value_bytes k c' @ q'" "value_ok k c'" "unat cs = length c'"
      "length (value_bytes k c') = unat ts + unat cs"
    using raw_readKind_Inr [OF rk assms] by blast
  then show "b = value_bytes k c @ q \<and> value_ok k c"
    using s rk slices_in_range [OF v(1,3,4) assms] by (simp add: Split_def)
next
  assume v: "b = value_bytes k c @ q \<and> value_ok k c"
  then obtain ts cs where rk: "raw_readKind b = Inr (k, ts, cs)" "unat cs = length c"
      "length (value_bytes k c) = unat ts + unat cs"
    using raw_readKind_value [of k c q] assms by auto
  then show "Split b = Inr (k, c, q)"
    using slices_in_range [OF _ rk(2,3) assms] v by (simp add: Split_def)
qed

lemma Split_no_panic:
  assumes "length b < 2 ^ 64"
  shows "Split b \<noteq> Inl RuntimePanic"
proof (cases "raw_readKind b")
  case (Inr x)
  then obtain k ts cs where rk: "raw_readKind b = Inr (k, ts, cs)" by (cases x) auto
  then obtain c q where v: "b = value_bytes k c @ q" "unat cs = length c"
      "length (value_bytes k c) = unat ts + unat cs"
    using raw_readKind_Inr [OF rk assms] by blast
  show ?thesis using rk slices_in_range [OF v assms] by (simp add: Split_def)
qed (use raw_readKind_no_panic [of b] in \<open>simp add: Split_def\<close>)

definition values_ok :: "(Kind \<times> bytes) list \<Rightarrow> bool" where
  "values_ok vs \<longleftrightarrow> (\<forall>(k, c) \<in> set vs. value_ok k c)"

definition values_bytes :: "(Kind \<times> bytes) list \<Rightarrow> bytes" where
  "values_bytes vs = concat (map (\<lambda>(k, c). value_bytes k c) vs)"

lemma CountFrom_step:
  assumes "b = value_bytes k c @ q" "value_ok k c" "length b < 2 ^ 64"
  shows "CountFrom i b = CountFrom (Suc i) q"
proof -
  obtain ts cs where rk: "raw_readKind b = Inr (k, ts, cs)" "unat cs = length c"
      "length (value_bytes k c) = unat ts + unat cs"
    using raw_readKind_value [of k c q] assms by auto
  have "b \<noteq> []" using value_bytes_nonempty [OF assms(2)] assms(1) by simp
  then show ?thesis using rk slices_in_range [OF assms(1) rk(2,3) assms(3)]
    by (subst CountFrom.simps) simp
qed

lemma CountFrom_values:
  "values_ok vs \<Longrightarrow> length (values_bytes vs) < 2 ^ 64 \<Longrightarrow> CountFrom i (values_bytes vs) = Some (Inr (i + length vs))"
proof (induction vs arbitrary: i)
  case Nil
  then show ?case by (subst CountFrom.simps) (simp add: values_bytes_def)
next
  case (Cons v vs)
  obtain k c where v: "v = (k, c)" by (cases v)
  have "CountFrom i (values_bytes (v # vs)) = CountFrom (Suc i) (values_bytes vs)"
    using Cons.prems v by (intro CountFrom_step [of _ k c]) (simp_all add: values_bytes_def values_ok_def)
  then show ?case using Cons v by (simp add: values_bytes_def values_ok_def)
qed

lemma CountFrom_total:
  "length b < 2 ^ 64 \<Longrightarrow> (\<exists>e. CountFrom i b = Some (Inl e) \<and> e \<noteq> RuntimePanic)
     \<or> (\<exists>vs. values_ok vs \<and> b = values_bytes vs)"
proof (induction "length b" arbitrary: b i rule: less_induct)
  case less
  consider (nil) "b = []" | (err) e where "b \<noteq> []" "raw_readKind b = Inl e"
    | (val) k ts cs where "raw_readKind b = Inr (k, ts, cs)"
    by (cases "raw_readKind b") auto
  then show ?case
  proof cases
    case nil
    then show ?thesis by (intro disjI2 exI [of _ "[]"]) (simp add: values_ok_def values_bytes_def)
  next
    case err
    then show ?thesis using raw_readKind_no_panic [of b] by (subst CountFrom.simps) auto
  next
    case val
    then obtain c q where v: "b = value_bytes k c @ q" "value_ok k c"
      using raw_readKind_Inr [OF val less.prems] by blast
    have "length q < length b" using value_bytes_nonempty [OF v(2)] v(1) by simp
    from less.hyps [OF this, of "Suc i"] less.prems v(1)
    consider e where "CountFrom (Suc i) q = Some (Inl e)" "e \<noteq> RuntimePanic"
      | vs where "values_ok vs" "q = values_bytes vs" by auto
    then show ?thesis
    proof cases
      case 1
      then show ?thesis using CountFrom_step [OF v less.prems] by simp
    next
      case 2
      then show ?thesis using v
        by (intro disjI2 exI [of _ "(k, c) # vs"]) (simp add: values_ok_def values_bytes_def)
    qed
  qed
qed

text \<open>
  C20: Split splits off exactly the canonical encoding of one value: it returns the kind \<open>k\<close>, the
  content \<open>c\<close> and the rest \<open>q\<close> if and only if the input is the encoding of \<open>c\<close> as a value of that
  kind followed by \<open>q\<close>; and no input makes its slice expressions panic.
\<close>

theorem Split_spec:
  assumes "length b < 2 ^ 64"
  shows "(Split b = Inr (k, c, q) \<longleftrightarrow> b = value_bytes k c @ q \<and> value_ok k c) \<and> Split b \<noteq> Inl RuntimePanic"
  using Split_iff [OF assms] Split_no_panic [OF assms] by blast

theorem Split_spec_witness:
  "Split [0x83, 1, 2, 3, 0xC0] = Inr (KString, [1, 2, 3], [0xC0])"
  using Split_spec [of "[0x83, 1, 2, 3, 0xC0]" KString "[1, 2, 3]" "[0xC0]"]
  by (simp add: value_bytes_def value_ok_def rlp_head_def)

text \<open>
  C21: CountValues always returns, without a panic, and it returns a number exactly when the
  input is a sequence of canonically encoded values, the number of these values.
\<close>

theorem CountValues_spec:
  assumes "length b < 2 ^ 64"
  shows "\<exists>r. CountValues b = Some r \<and> r \<noteq> Inl RuntimePanic \<and>
    (\<forall>n. r = Inr n \<longleftrightarrow> (\<exists>vs. values_ok vs \<and> b = values_bytes vs \<and> n = length vs))"
proof (cases "\<exists>vs. values_ok vs \<and> b = values_bytes vs")
  case True
  then obtain vs where vs: "values_ok vs" "b = values_bytes vs" by blast
  have cnt: "CountValues b = Some (Inr (length ws))" if "values_ok ws" "b = values_bytes ws" for ws
    using CountFrom_values [of ws 0] that assms by (simp add: CountValues_def)
  have "length ws = length vs" if "values_ok ws" "b = values_bytes ws" for ws
    using cnt [OF that] cnt [OF vs] by simp
  then have "length vs = n \<longleftrightarrow> (\<exists>ws. values_ok ws \<and> b = values_bytes ws \<and> n = length ws)" for n
    using vs by metis
  then show ?thesis using cnt [OF vs] by (intro exI [of _ "Inr (length vs)"]) simp
next
  case False
  then show ?thesis using CountFrom_total [OF assms, of 0] by (auto simp: CountValues_def)
qed

fun plain :: "item \<Rightarrow> bool" where
  "plain (Opaque b) = False"
| "plain _ = True"

fun item_value :: "item \<Rightarrow> Kind \<times> bytes" where
  "item_value (Str b) = (if length b = 1 \<and> hd b < 0x80 then KByte else KString, b)"
| "item_value (Lst xs) = (KList, rlps xs)"
| "item_value (Opaque b) = (KString, b)"

lemma rlp_value:
  "plain x \<Longrightarrow> value_ok (fst (item_value x)) (snd (item_value x))"
  "plain x \<Longrightarrow> rlp x = value_bytes (fst (item_value x)) (snd (item_value x))"
  by (cases x; simp add: value_ok_def value_bytes_def)+

lemma rlps_values:
  "\<forall>x \<in> set xs. plain x \<Longrightarrow> values_ok (map item_value xs) \<and> rlps xs = values_bytes (map item_value xs)"
  by (induction xs) (simp_all add: values_ok_def values_bytes_def rlp_value case_prod_beta)

text \<open>The list header of the encoder and the tools of \<^verbatim>\<open>raw.go\<close> agree.\<close>

lemma ListSize_rlp:
  assumes "length (rlp (Lst xs)) < 2 ^ 64"
  shows "ListSize (of_nat (length (rlps xs))) = of_nat (length (rlp (Lst xs)))"
proof -
  have m: "length (rlps xs) < 2 ^ 64" using assms by simp
  have "headsize (of_nat (length (rlps xs))) = length (rlp_head 0xC0 0xF7 (length (rlps xs)))"
    using headsize_puthead [of "of_nat (length (rlps xs))" "0xC0" "0xF7"] puthead_rlp_head [OF m] by simp
  then show ?thesis by (simp add: ListSize_def)
qed

theorem CountValues_spec_witness:
  "\<exists>r. CountValues [0x05, 0x82, 0x01] = Some r \<and> r \<noteq> Inl RuntimePanic"
  using CountValues_spec [of "[0x05, 0x82, 0x01]"] by auto



end
