(* ===== verification/Bn_Field.thy ===== *)
theory Bn_Field
  imports Prelude
begin

text \<open>
  The mathematics below \<^verbatim>\<open>crypto/bn256/google\<close>: the operations of \<^verbatim>\<open>math/big\<close> the package
  uses beyond ring arithmetic, the prime of \<^verbatim>\<open>constants.go\<close>, and the tower of rings its types
  compute in, each an instance of \<^verbatim>\<open>comm_ring_1\<close>: \<open>fp\<close> (integers modulo \<open>P\<close>), \<open>fp2\<close> (with
  \<open>i\<^sup>2 = -1\<close>), \<open>fp6\<close> (with \<open>\<tau>\<^sup>3 = \<xi> = i + 9\<close>) and \<open>fp12\<close> (with \<open>\<omega>\<^sup>2 = \<tau>\<close>), all multiplied by the schoolbook
  rules.  These are the specification of the optimised arithmetic in the code.
\<close>

section \<open>Integers of \<^verbatim>\<open>math/big\<close>\<close>

text \<open>
  \<^verbatim>\<open>z.ModInverse(g, n)\<close>: the inverse of \<open>g\<close> modulo \<open>n\<close>, or nil when there is none, which
  leaves \<open>z\<close> as it was.
\<close>

definition ModInverse :: "int \<Rightarrow> int \<Rightarrow> int option" where
  "ModInverse g n =
     (let r = g mod n in
      if gcd (nat r) (nat n) = 1 then Some (fst (bezw (nat r) (nat n)) mod n) else None)"

lemma ModInverse_Some:
  assumes "ModInverse g n = Some v" "0 < n"
  shows "v * g mod n = 1 mod n" and "0 \<le> v" "v < n"
proof -
  let ?r = "g mod n" and ?b = "bezw (nat (g mod n)) (nat n)"
  have v: "v = fst ?b mod n" and g: "gcd (nat ?r) (nat n) = 1"
    using assms(1) by (auto simp: ModInverse_def Let_def split: if_splits)
  have "fst ?b * ?r + snd ?b * n = 1"
    using bezw_aux [of "nat ?r" "nat n"] g assms(2) by simp
  then have "fst ?b * ?r mod n = 1 mod n" by (metis mod_mult_self1)
  then show "v * g mod n = 1 mod n" by (simp add: v mod_mult_left_eq mod_mult_right_eq)
  show "0 \<le> v" "v < n" using assms(2) by (simp_all add: v)
qed

lemma ModInverse_coprime:
  assumes "0 < n" "coprime g n"
  shows "\<exists>v. ModInverse g n = Some v"
proof -
  have "int (gcd (nat (g mod n)) (nat n)) = gcd (int (nat (g mod n))) (int (nat n))"
    by (simp only: gcd_int_int_eq)
  also have "\<dots> = gcd (g mod n) n" using assms(1) by simp
  also have "\<dots> = 1" using assms(2) by (metis coprime_iff_gcd_eq_1 gcd.commute gcd_red_int)
  finally show ?thesis by (simp add: ModInverse_def Let_def)
qed

lemma ModInverse_exists:
  assumes "0 < n" "a * g mod n = 1 mod n"
  shows "\<exists>v. ModInverse g n = Some v"
proof -
  have "coprime (a * g) n" using assms by (metis coprime_1_left coprime_mod_left_iff less_irrefl)
  then show ?thesis using ModInverse_coprime assms(1) by simp
qed

text \<open>\<^verbatim>\<open>x.BitLen()\<close>, the length of the absolute value in bits.\<close>

fun bitlen :: "nat \<Rightarrow> nat" where
  "bitlen n = (if n = 0 then 0 else Suc (bitlen (n div 2)))"

declare bitlen.simps [simp del]

definition BitLen :: "int \<Rightarrow> nat" where
  "BitLen x = bitlen (nat \<bar>x\<bar>)"

section \<open>The base field\<close>

definition P :: int where
  "P = 21888242871839275222246405745257275088696311157297823662689037894645226208583"

lemma P_pos [simp]: "0 < P" "P \<noteq> 0" "1 mod P = 1" "0 \<le> P"
  by (simp_all add: P_def)

typedef fp = "{0..<P}"
  by (rule exI [of _ 0]) simp

definition fp_of_int :: "int \<Rightarrow> fp" where
  "fp_of_int n = Abs_fp (n mod P)"

lemma Rep_fp_of_int [simp]: "Rep_fp (fp_of_int n) = n mod P"
  by (simp add: fp_of_int_def Abs_fp_inverse)

lemma fp_of_int_Rep [simp]: "fp_of_int (Rep_fp a) = a"
  using Rep_fp [of a] by (simp add: fp_of_int_def Rep_fp_inverse)

lemma fp_of_int_eq: "fp_of_int m = fp_of_int n \<longleftrightarrow> m mod P = n mod P"
  by (metis Rep_fp_of_int fp_of_int_def)

lemma fp_of_int_mod [simp]: "fp_of_int (n mod P) = fp_of_int n"
  by (simp add: fp_of_int_eq)

lemma fp_cases: obtains n where "a = fp_of_int n"
  by (metis fp_of_int_Rep)

instantiation fp :: comm_ring_1
begin

definition "0 = fp_of_int 0"
definition "1 = fp_of_int 1"
definition "a + b = fp_of_int (Rep_fp a + Rep_fp b)"
definition "a - b = fp_of_int (Rep_fp a - Rep_fp b)"
definition "- a = fp_of_int (- Rep_fp a)"
definition "a * b = fp_of_int (Rep_fp a * Rep_fp b)"

instance
proof
  fix a b c :: fp
  obtain x y z where xyz: "a = fp_of_int x" "b = fp_of_int y" "c = fp_of_int z"
    by (metis fp_of_int_Rep)
  have hom: "fp_of_int m + fp_of_int n = fp_of_int (m + n)" "fp_of_int m * fp_of_int n = fp_of_int (m * n)"
    "fp_of_int m - fp_of_int n = fp_of_int (m - n)" "- fp_of_int m = fp_of_int (- m)"
    "0 = fp_of_int 0" "1 = fp_of_int 1" for m n
    by (simp_all add: plus_fp_def minus_fp_def times_fp_def uminus_fp_def zero_fp_def one_fp_def
        fp_of_int_eq mod_simps)
  show "a * b * c = a * (b * c)" "a * b = b * a" "1 * a = a" "a + b + c = a + (b + c)" "a + b = b + a"
    "0 + a = a" "- a + a = 0" "a - b = a + - b" "(a + b) * c = a * c + b * c"
    unfolding xyz hom by (simp_all add: algebra_simps)
  show "(0 :: fp) \<noteq> 1" by (simp add: zero_fp_def one_fp_def fp_of_int_eq)
qed

end

lemma fp_of_int_hom [simp]:
  "fp_of_int (m + n) = fp_of_int m + fp_of_int n"
  "fp_of_int (m - n) = fp_of_int m - fp_of_int n"
  "fp_of_int (m * n) = fp_of_int m * fp_of_int n"
  "fp_of_int (- m) = - fp_of_int m"
  "fp_of_int 0 = 0" "fp_of_int 1 = 1"
  by (simp_all add: plus_fp_def minus_fp_def times_fp_def uminus_fp_def zero_fp_def one_fp_def
      fp_of_int_eq mod_simps)

lemma fp_of_int_power [simp]: "fp_of_int (m ^ k) = fp_of_int m ^ k"
  by (induction k) simp_all

section \<open>The quadratic extension\<close>

datatype fp2 = Fp2 (im2: fp) (re2: fp)

instantiation fp2 :: comm_ring_1
begin

definition "0 = Fp2 0 0"
definition "1 = Fp2 0 1"
definition "a + b = Fp2 (im2 a + im2 b) (re2 a + re2 b)"
definition "a - b = Fp2 (im2 a - im2 b) (re2 a - re2 b)"
definition "- a = Fp2 (- im2 a) (- re2 a)"
definition "a * b = Fp2 (im2 a * re2 b + re2 a * im2 b) (re2 a * re2 b - im2 a * im2 b)"

instance
  by standard
    (simp_all add: zero_fp2_def one_fp2_def plus_fp2_def minus_fp2_def uminus_fp2_def times_fp2_def
      algebra_simps fp2.expand)

end

lemmas fp2_ops = zero_fp2_def one_fp2_def plus_fp2_def minus_fp2_def uminus_fp2_def times_fp2_def

text \<open>The element \<open>i + 9\<close> the cubic extension adjoins a root of.\<close>

definition xi :: fp2 where
  "xi = Fp2 1 (fp_of_int 9)"

definition scal2 :: "fp \<Rightarrow> fp2" where
  "scal2 s = Fp2 0 s"

definition conj2 :: "fp2 \<Rightarrow> fp2" where
  "conj2 a = Fp2 (- im2 a) (re2 a)"

section \<open>The cubic and the quadratic extension on top\<close>

datatype fp6 = Fp6 (c2: fp2) (c1: fp2) (c0: fp2)

instantiation fp6 :: comm_ring_1
begin

definition "0 = Fp6 0 0 0"
definition "1 = Fp6 0 0 1"
definition "a + b = Fp6 (c2 a + c2 b) (c1 a + c1 b) (c0 a + c0 b)"
definition "a - b = Fp6 (c2 a - c2 b) (c1 a - c1 b) (c0 a - c0 b)"
definition "- a = Fp6 (- c2 a) (- c1 a) (- c0 a)"
definition "a * b =
  Fp6 (c2 a * c0 b + c1 a * c1 b + c0 a * c2 b)
      (c1 a * c0 b + c0 a * c1 b + xi * (c2 a * c2 b))
      (c0 a * c0 b + xi * (c2 a * c1 b + c1 a * c2 b))"

instance
  by standard
    (simp_all add: zero_fp6_def one_fp6_def plus_fp6_def minus_fp6_def uminus_fp6_def times_fp6_def
      algebra_simps fp6.expand)

end

lemmas fp6_ops = zero_fp6_def one_fp6_def plus_fp6_def minus_fp6_def uminus_fp6_def times_fp6_def

definition tau :: fp6 where
  "tau = Fp6 0 1 0"

datatype fp12 = Fp12 (d1: fp6) (d0: fp6)

instantiation fp12 :: comm_ring_1
begin

definition "0 = Fp12 0 0"
definition "1 = Fp12 0 1"
definition "a + b = Fp12 (d1 a + d1 b) (d0 a + d0 b)"
definition "a - b = Fp12 (d1 a - d1 b) (d0 a - d0 b)"
definition "- a = Fp12 (- d1 a) (- d0 a)"
definition "a * b = Fp12 (d1 a * d0 b + d0 a * d1 b) (d0 a * d0 b + tau * (d1 a * d1 b))"

instance
  by standard
    (simp_all add: zero_fp12_def one_fp12_def plus_fp12_def minus_fp12_def uminus_fp12_def times_fp12_def
      algebra_simps fp12.expand)

end

lemmas fp12_ops = zero_fp12_def one_fp12_def plus_fp12_def minus_fp12_def uminus_fp12_def times_fp12_def

lemma tau_cubed: "tau ^ 3 = Fp6 0 0 xi"
  by (simp add: tau_def fp6_ops power3_eq_cube)

end
