(* ===== verification/Bn_Gfp.thy ===== *)
theory Bn_Gfp
  imports Bn_Field
begin

text \<open>
  \<^verbatim>\<open>gfp2.go\<close>, \<^verbatim>\<open>gfp6.go\<close>, \<^verbatim>\<open>gfp12.go\<close> and \<^verbatim>\<open>constants.go\<close> of \<^verbatim>\<open>crypto/bn256/google\<close>.  An element
  is a record of unreduced integers, as in the code; the methods are functions from the
  operands to the new contents of the receiver, and the pool that recycles integers is not
  represented, apart from the stale integer that a failing \<^verbatim>\<open>ModInverse\<close> exposes.  All methods
  read their operands before they write the receiver, so the functions also describe calls
  in which the receiver is an operand.

  The lemmas relate every operation to the tower of rings of \<^verbatim>\<open>Bn_Field\<close> through the
  abstractions \<open>abs2\<close>, \<open>abs6\<close> and \<open>abs12\<close>.
\<close>

section \<open>Square and multiply\<close>

text \<open>
  The loop \<^verbatim>\<open>for i := n-1; i >= 0; i--\<close> over the bits of an integer that \<^verbatim>\<open>Exp\<close> of \<^verbatim>\<open>gfP2\<close> and
  \<^verbatim>\<open>gfP12\<close> and \<^verbatim>\<open>Mul\<close> of the two curves share: double, then add or take the double as it is.
  The bit of a negative number is that of its two's complement.
\<close>

fun bit_loop :: "('s \<Rightarrow> 's) \<Rightarrow> ('s \<Rightarrow> 's) \<Rightarrow> ('s \<Rightarrow> 's) \<Rightarrow> int \<Rightarrow> nat \<Rightarrow> 's \<Rightarrow> 's" where
  "bit_loop dbl add skip k 0 s = s"
| "bit_loop dbl add skip k (Suc i) s =
     (let t = dbl s in bit_loop dbl add skip k i (if bit k i then add t else skip t))"

text \<open>
  \<open>R m s\<close> relates the state at the head of the loop to the part of the number that has been
  read, \<open>D\<close> the state after doubling.
\<close>

locale msb_first =
  fixes dbl add skip :: "'s \<Rightarrow> 's" and R D :: "nat \<Rightarrow> 's \<Rightarrow> bool"
  assumes R_dbl: "R m s \<Longrightarrow> D (2 * m) (dbl s)"
    and D_add: "D (2 * m) s \<Longrightarrow> R (Suc (2 * m)) (add s)"
    and D_skip: "D (2 * m) s \<Longrightarrow> R (2 * m) (skip s)"
begin

lemma bit_loop_step:
  "0 \<le> k \<Longrightarrow> R (nat (k div 2 ^ n)) s \<Longrightarrow> R (nat k) (bit_loop dbl add skip k n s)"
proof (induction n arbitrary: s)
  case (Suc i)
  let ?m = "nat (k div 2 ^ Suc i)"
  have k: "k div 2 ^ i = 2 * (k div 2 ^ Suc i) + (if bit k i then 1 else 0)"
  proof -
    have "k div 2 ^ Suc i = k div 2 ^ i div 2"
      using zdiv_zmult2_eq [of 2 k "2 ^ i"] by (simp add: mult.commute)
    moreover have "bit k i \<longleftrightarrow> odd (k div 2 ^ i)" by (simp add: bit_iff_odd)
    ultimately show ?thesis by (auto simp: odd_two_times_div_two_succ)
  qed
  have "0 \<le> k div 2 ^ Suc i" using Suc.prems(1) by (simp add: pos_imp_zdiv_nonneg_iff)
  then have nk: "nat (k div 2 ^ i) = 2 * ?m + (if bit k i then 1 else 0)"
    unfolding k by (simp add: nat_add_distrib nat_mult_distrib)
  have "D (2 * ?m) (dbl s)" using R_dbl Suc.prems(2) by blast
  then have "R (nat (k div 2 ^ i)) (if bit k i then add (dbl s) else skip (dbl s))"
    using D_add D_skip nk by simp
  then show ?case using Suc.IH [OF Suc.prems(1)] by (simp add: Let_def)
qed simp

lemma bit_loop_all:
  assumes "0 \<le> k" "k < 2 ^ n" "R 0 s"
  shows "R (nat k) (bit_loop dbl add skip k n s)"
  using bit_loop_step [OF assms(1), of n s] assms by simp

end

lemma bit_loop_inv:
  assumes "I s" "\<And>s. I s \<Longrightarrow> J (dbl s)" "\<And>s. J s \<Longrightarrow> I (add s)" "\<And>s. J s \<Longrightarrow> I (skip s)"
  shows "I (bit_loop dbl add skip k n s)"
  using assms by (induction n arbitrary: s) (simp_all add: Let_def)

lemma bitlen_bound: "n < 2 ^ bitlen n"
proof (induction n rule: bitlen.induct)
  case (1 n)
  show ?case
  proof (cases "n = 0")
    case False
    then have "n div 2 < 2 ^ bitlen (n div 2)" using 1 by simp
    then show ?thesis using False by (simp add: bitlen.simps [of n])
  qed simp
qed

lemma BitLen_bound: "0 \<le> k \<Longrightarrow> k < 2 ^ BitLen k"
proof -
  assume "0 \<le> k"
  then have "int (nat k) < int (2 ^ bitlen (nat k))" using bitlen_bound by (simp only: of_nat_less_iff)
  then show ?thesis using \<open>0 \<le> k\<close> by (simp add: BitLen_def)
qed

section \<open>\<^verbatim>\<open>gfp2.go\<close>\<close>

text \<open>The value of an element is \<open>x i + y\<close>.\<close>

record gfP2 =
  x2 :: int
  y2 :: int

definition gfP2_SetZero :: gfP2 where
  "gfP2_SetZero = \<lparr>x2 = 0, y2 = 0\<rparr>"

definition gfP2_SetOne :: gfP2 where
  "gfP2_SetOne = \<lparr>x2 = 0, y2 = 1\<rparr>"

definition minimal :: "int \<Rightarrow> int" where
  "minimal n = (if n < 0 \<or> n \<ge> P then n mod P else n)"

definition gfP2_Minimal :: "gfP2 \<Rightarrow> gfP2" where
  "gfP2_Minimal e = \<lparr>x2 = minimal (x2 e), y2 = minimal (y2 e)\<rparr>"

definition gfP2_IsZero :: "gfP2 \<Rightarrow> bool" where
  "gfP2_IsZero e \<longleftrightarrow> x2 e = 0 \<and> y2 e = 0"

text \<open>
  \<^verbatim>\<open>e.y.Bits()\<close> are the machine words of the absolute value, so the test is also true
  for \<open>y = -1\<close>.
\<close>

definition bits_is_one :: "int \<Rightarrow> bool" where
  "bits_is_one n \<longleftrightarrow> \<bar>n\<bar> = 1"

definition gfP2_IsOne :: "gfP2 \<Rightarrow> bool" where
  "gfP2_IsOne e \<longleftrightarrow> (if x2 e \<noteq> 0 then False else bits_is_one (y2 e))"

definition gfP2_Conjugate :: "gfP2 \<Rightarrow> gfP2" where
  "gfP2_Conjugate a = \<lparr>x2 = - x2 a, y2 = y2 a\<rparr>"

definition gfP2_Negative :: "gfP2 \<Rightarrow> gfP2" where
  "gfP2_Negative a = \<lparr>x2 = - x2 a, y2 = - y2 a\<rparr>"

definition gfP2_Add :: "gfP2 \<Rightarrow> gfP2 \<Rightarrow> gfP2" where
  "gfP2_Add a b = \<lparr>x2 = x2 a + x2 b, y2 = y2 a + y2 b\<rparr>"

definition gfP2_Sub :: "gfP2 \<Rightarrow> gfP2 \<Rightarrow> gfP2" where
  "gfP2_Sub a b = \<lparr>x2 = x2 a - x2 b, y2 = y2 a - y2 b\<rparr>"

definition gfP2_Double :: "gfP2 \<Rightarrow> gfP2" where
  "gfP2_Double a = \<lparr>x2 = push_bit 1 (x2 a), y2 = push_bit 1 (y2 a)\<rparr>"

definition gfP2_Mul :: "gfP2 \<Rightarrow> gfP2 \<Rightarrow> gfP2" where
  "gfP2_Mul a b =
     (let tx = x2 a * y2 b;
          t = x2 b * y2 a;
          tx = tx + t;
          tx = tx mod P;
          ty = y2 a * y2 b;
          t = x2 a * x2 b;
          ty = ty - t
      in \<lparr>x2 = tx, y2 = ty mod P\<rparr>)"

definition gfP2_MulScalar :: "gfP2 \<Rightarrow> int \<Rightarrow> gfP2" where
  "gfP2_MulScalar a b = \<lparr>x2 = x2 a * b, y2 = y2 a * b\<rparr>"

definition gfP2_MulXi :: "gfP2 \<Rightarrow> gfP2" where
  "gfP2_MulXi a =
     (let tx = push_bit 3 (x2 a);
          tx = tx + x2 a;
          tx = tx + y2 a;
          ty = push_bit 3 (y2 a);
          ty = ty + y2 a;
          ty = ty - x2 a
      in \<lparr>x2 = tx, y2 = ty\<rparr>)"

definition gfP2_Square :: "gfP2 \<Rightarrow> gfP2" where
  "gfP2_Square a =
     (let t1 = y2 a - x2 a;
          t2 = x2 a + y2 a;
          ty = t1 * t2;
          ty = ty mod P;
          t1 = x2 a * y2 a;
          t1 = push_bit 1 t1
      in \<lparr>x2 = t1 mod P, y2 = ty\<rparr>)"

definition gfP2_Exp :: "gfP2 \<Rightarrow> int \<Rightarrow> gfP2" where
  "gfP2_Exp a k =
     bit_loop gfP2_Square (\<lambda>t. gfP2_Mul t a) (\<lambda>t. t) k (BitLen k) gfP2_SetOne"

text \<open>
  \<open>stale\<close> is what the integer taken from the pool holds: \<^verbatim>\<open>ModInverse\<close> leaves it there
  when the norm has no inverse.
\<close>

definition gfP2_Invert :: "int \<Rightarrow> gfP2 \<Rightarrow> gfP2" where
  "gfP2_Invert stale a =
     (let t = y2 a * y2 a;
          t2 = x2 a * x2 a;
          t = t + t2;
          inv = (case ModInverse t P of None \<Rightarrow> stale | Some v \<Rightarrow> v)
      in \<lparr>x2 = - x2 a * inv mod P, y2 = y2 a * inv mod P\<rparr>)"

text \<open>The element of the field an element of the code stands for.\<close>

definition abs2 :: "gfP2 \<Rightarrow> fp2" where
  "abs2 a = Fp2 (fp_of_int (x2 a)) (fp_of_int (y2 a))"

named_theorems gf_abs \<open>what the field operations compute\<close>

lemma fp_of_int_numeral: "fp_of_int (numeral n) = numeral n"
proof (induction n)
  case (Bit0 n)
  then show ?case by (metis fp_of_int_hom(1) numeral_Bit0)
next
  case (Bit1 n)
  then show ?case by (metis fp_of_int_hom(1,6) numeral_Bit1)
qed simp

lemma minimal_eq: "minimal n = n mod P"
  by (simp add: minimal_def)

lemma abs2_ops [gf_abs]:
  "abs2 gfP2_SetZero = 0" "abs2 gfP2_SetOne = 1"
  "abs2 (gfP2_Minimal a) = abs2 a"
  "abs2 (gfP2_Negative a) = - abs2 a"
  "abs2 (gfP2_Conjugate a) = conj2 (abs2 a)"
  "abs2 (gfP2_Add a b) = abs2 a + abs2 b"
  "abs2 (gfP2_Sub a b) = abs2 a - abs2 b"
  "abs2 (gfP2_Double a) = abs2 a + abs2 a"
  "abs2 (gfP2_Mul a b) = abs2 a * abs2 b"
  "abs2 (gfP2_MulScalar a s) = scal2 (fp_of_int s) * abs2 a"
  "abs2 (gfP2_MulXi a) = xi * abs2 a"
  "abs2 (gfP2_Square a) = abs2 a * abs2 a"
  by (simp_all add: abs2_def fp2_ops gfP2_SetZero_def gfP2_SetOne_def gfP2_Minimal_def minimal_eq
      gfP2_Negative_def gfP2_Conjugate_def conj2_def gfP2_Add_def gfP2_Sub_def gfP2_Double_def
      gfP2_Mul_def gfP2_MulScalar_def scal2_def gfP2_MulXi_def xi_def gfP2_Square_def
      push_bit_eq_mult fp_of_int_numeral algebra_simps)

lemma scal2_hom [simp]: "scal2 (a * b) = scal2 a * scal2 b" "scal2 1 = 1"
  by (simp_all add: scal2_def fp2_ops)

lemma norm2: "a * conj2 a = scal2 (im2 a * im2 a + re2 a * re2 a)"
  by (simp add: conj2_def scal2_def fp2_ops)

lemma conj2_0 [simp]: "conj2 0 = 0"
  by (simp add: conj2_def fp2_ops)

lemma conj2_hom [simp]: "conj2 (a * b) = conj2 a * conj2 b" "conj2 1 = 1" "conj2 (conj2 a) = a"
  "conj2 (a + b) = conj2 a + conj2 b" "conj2 (- a) = - conj2 a" "conj2 (a - b) = conj2 a - conj2 b"
  by (simp_all add: conj2_def fp2_ops algebra_simps)

text \<open>Whenever an element has an inverse, \<^verbatim>\<open>Invert\<close> finds it.\<close>

lemma abs2_Invert:
  assumes "abs2 a * b = 1"
  shows "abs2 (gfP2_Invert stale a) = b"
proof -
  define n where "n = y2 a * y2 a + x2 a * x2 a"
  obtain m where m: "im2 b * im2 b + re2 b * re2 b = fp_of_int m" by (rule fp_cases)
  have n: "scal2 (fp_of_int n) = abs2 a * conj2 (abs2 a)"
    by (simp add: norm2) (simp add: n_def abs2_def add.commute)
  have "scal2 (fp_of_int m * fp_of_int n) = (b * conj2 b) * (abs2 a * conj2 (abs2 a))"
    by (simp only: scal2_hom n norm2 [of b] m)
  also have "\<dots> = (abs2 a * b) * conj2 (abs2 a * b)" by (simp add: mult_ac)
  also have "\<dots> = 1" using assms by simp
  finally have "fp_of_int m * fp_of_int n = 1" by (simp add: scal2_def one_fp2_def)
  then have "m * n mod P = 1 mod P" by (metis fp_of_int_eq fp_of_int_hom(3,6))
  then obtain v where v: "ModInverse n P = Some v" using ModInverse_exists [of P m n] by auto
  then have "fp_of_int v * fp_of_int n = 1"
    using ModInverse_Some(1) [OF v] by (metis P_pos(1) fp_of_int_eq fp_of_int_hom(3,6))
  then have vn: "scal2 (fp_of_int v) * (abs2 a * conj2 (abs2 a)) = 1"
    by (metis n scal2_hom)
  have "abs2 (gfP2_Invert stale a) = scal2 (fp_of_int v) * conj2 (abs2 a)"
    using v by (simp add: gfP2_Invert_def Let_def n_def abs2_def conj2_def scal2_def fp2_ops mult.commute)
  also have "\<dots> = (scal2 (fp_of_int v) * (abs2 a * conj2 (abs2 a))) * b"
    using assms by (metis mult.assoc mult.commute mult.right_neutral)
  finally show ?thesis using vn by simp
qed

interpretation gfP2_exp: msb_first gfP2_Square "\<lambda>t. gfP2_Mul t a" "\<lambda>t. t"
  "\<lambda>m s. abs2 s = abs2 a ^ m" "\<lambda>m s. abs2 s = abs2 a ^ m" for a
  by unfold_locales (simp_all add: gf_abs mult_2 power_add mult.commute [of _ "abs2 a"])

lemma abs2_Exp: "0 \<le> k \<Longrightarrow> abs2 (gfP2_Exp a k) = abs2 a ^ nat k"
  unfolding gfP2_Exp_def by (rule gfP2_exp.bit_loop_all) (simp_all add: BitLen_bound gf_abs)

section \<open>\<^verbatim>\<open>gfp6.go\<close>\<close>

text \<open>The value of an element is \<open>x \<tau>\<^sup>2 + y \<tau> + z\<close>.\<close>

record gfP6 =
  x6 :: gfP2
  y6 :: gfP2
  z6 :: gfP2

definition gfP6_SetZero :: gfP6 where
  "gfP6_SetZero = \<lparr>x6 = gfP2_SetZero, y6 = gfP2_SetZero, z6 = gfP2_SetZero\<rparr>"

definition gfP6_SetOne :: gfP6 where
  "gfP6_SetOne = \<lparr>x6 = gfP2_SetZero, y6 = gfP2_SetZero, z6 = gfP2_SetOne\<rparr>"

definition gfP6_Minimal :: "gfP6 \<Rightarrow> gfP6" where
  "gfP6_Minimal e = \<lparr>x6 = gfP2_Minimal (x6 e), y6 = gfP2_Minimal (y6 e), z6 = gfP2_Minimal (z6 e)\<rparr>"

definition gfP6_IsZero :: "gfP6 \<Rightarrow> bool" where
  "gfP6_IsZero e \<longleftrightarrow> gfP2_IsZero (x6 e) \<and> gfP2_IsZero (y6 e) \<and> gfP2_IsZero (z6 e)"

definition gfP6_IsOne :: "gfP6 \<Rightarrow> bool" where
  "gfP6_IsOne e \<longleftrightarrow> gfP2_IsZero (x6 e) \<and> gfP2_IsZero (y6 e) \<and> gfP2_IsOne (z6 e)"

definition gfP6_Negative :: "gfP6 \<Rightarrow> gfP6" where
  "gfP6_Negative a = \<lparr>x6 = gfP2_Negative (x6 a), y6 = gfP2_Negative (y6 a), z6 = gfP2_Negative (z6 a)\<rparr>"

definition gfP6_Add :: "gfP6 \<Rightarrow> gfP6 \<Rightarrow> gfP6" where
  "gfP6_Add a b = \<lparr>x6 = gfP2_Add (x6 a) (x6 b), y6 = gfP2_Add (y6 a) (y6 b), z6 = gfP2_Add (z6 a) (z6 b)\<rparr>"

definition gfP6_Sub :: "gfP6 \<Rightarrow> gfP6 \<Rightarrow> gfP6" where
  "gfP6_Sub a b = \<lparr>x6 = gfP2_Sub (x6 a) (x6 b), y6 = gfP2_Sub (y6 a) (y6 b), z6 = gfP2_Sub (z6 a) (z6 b)\<rparr>"

definition gfP6_Double :: "gfP6 \<Rightarrow> gfP6" where
  "gfP6_Double a = \<lparr>x6 = gfP2_Double (x6 a), y6 = gfP2_Double (y6 a), z6 = gfP2_Double (z6 a)\<rparr>"

definition gfP6_Mul :: "gfP6 \<Rightarrow> gfP6 \<Rightarrow> gfP6" where
  "gfP6_Mul a b =
     (let v0 = gfP2_Mul (z6 a) (z6 b);
          v1 = gfP2_Mul (y6 a) (y6 b);
          v2 = gfP2_Mul (x6 a) (x6 b);
          t0 = gfP2_Add (x6 a) (y6 a);
          t1 = gfP2_Add (x6 b) (y6 b);
          tz = gfP2_Mul t0 t1;
          tz = gfP2_Sub tz v1;
          tz = gfP2_Sub tz v2;
          tz = gfP2_MulXi tz;
          tz = gfP2_Add tz v0;
          t0 = gfP2_Add (y6 a) (z6 a);
          t1 = gfP2_Add (y6 b) (z6 b);
          ty = gfP2_Mul t0 t1;
          ty = gfP2_Sub ty v0;
          ty = gfP2_Sub ty v1;
          t0 = gfP2_MulXi v2;
          ty = gfP2_Add ty t0;
          t0 = gfP2_Add (x6 a) (z6 a);
          t1 = gfP2_Add (x6 b) (z6 b);
          tx = gfP2_Mul t0 t1;
          tx = gfP2_Sub tx v0;
          tx = gfP2_Add tx v1;
          tx = gfP2_Sub tx v2
      in \<lparr>x6 = tx, y6 = ty, z6 = tz\<rparr>)"

definition gfP6_MulScalar :: "gfP6 \<Rightarrow> gfP2 \<Rightarrow> gfP6" where
  "gfP6_MulScalar a b = \<lparr>x6 = gfP2_Mul (x6 a) b, y6 = gfP2_Mul (y6 a) b, z6 = gfP2_Mul (z6 a) b\<rparr>"

definition gfP6_MulGFP :: "gfP6 \<Rightarrow> int \<Rightarrow> gfP6" where
  "gfP6_MulGFP a b =
     \<lparr>x6 = gfP2_MulScalar (x6 a) b, y6 = gfP2_MulScalar (y6 a) b, z6 = gfP2_MulScalar (z6 a) b\<rparr>"

definition gfP6_MulTau :: "gfP6 \<Rightarrow> gfP6" where
  "gfP6_MulTau a = (let tz = gfP2_MulXi (x6 a); ty = y6 a in \<lparr>x6 = ty, y6 = z6 a, z6 = tz\<rparr>)"

definition gfP6_Square :: "gfP6 \<Rightarrow> gfP6" where
  "gfP6_Square a =
     (let v0 = gfP2_Square (z6 a);
          v1 = gfP2_Square (y6 a);
          v2 = gfP2_Square (x6 a);
          e0 = gfP2_Add (x6 a) (y6 a);
          e0 = gfP2_Square e0;
          e0 = gfP2_Sub e0 v1;
          e0 = gfP2_Sub e0 v2;
          e0 = gfP2_MulXi e0;
          e0 = gfP2_Add e0 v0;
          e1 = gfP2_Add (y6 a) (z6 a);
          e1 = gfP2_Square e1;
          e1 = gfP2_Sub e1 v0;
          e1 = gfP2_Sub e1 v1;
          xiV2 = gfP2_MulXi v2;
          e1 = gfP2_Add e1 xiV2;
          e2 = gfP2_Add (x6 a) (z6 a);
          e2 = gfP2_Square e2;
          e2 = gfP2_Sub e2 v0;
          e2 = gfP2_Add e2 v1;
          e2 = gfP2_Sub e2 v2
      in \<lparr>x6 = e2, y6 = e1, z6 = e0\<rparr>)"

definition gfP6_Invert :: "int \<Rightarrow> gfP6 \<Rightarrow> gfP6" where
  "gfP6_Invert stale a =
     (let A = gfP2_Square (z6 a);
          t1 = gfP2_Mul (x6 a) (y6 a);
          t1 = gfP2_MulXi t1;
          A = gfP2_Sub A t1;
          B = gfP2_Square (x6 a);
          B = gfP2_MulXi B;
          t1 = gfP2_Mul (y6 a) (z6 a);
          B = gfP2_Sub B t1;
          C = gfP2_Square (y6 a);
          t1 = gfP2_Mul (x6 a) (z6 a);
          C = gfP2_Sub C t1;
          F = gfP2_Mul C (y6 a);
          F = gfP2_MulXi F;
          t1 = gfP2_Mul A (z6 a);
          F = gfP2_Add F t1;
          t1 = gfP2_Mul B (x6 a);
          t1 = gfP2_MulXi t1;
          F = gfP2_Add F t1;
          F = gfP2_Invert stale F
      in \<lparr>x6 = gfP2_Mul C F, y6 = gfP2_Mul B F, z6 = gfP2_Mul A F\<rparr>)"

definition abs6 :: "gfP6 \<Rightarrow> fp6" where
  "abs6 a = Fp6 (abs2 (x6 a)) (abs2 (y6 a)) (abs2 (z6 a))"

definition scal6 :: "fp2 \<Rightarrow> fp6" where
  "scal6 s = Fp6 0 0 s"

lemma abs6_ops [gf_abs]:
  "abs6 gfP6_SetZero = 0" "abs6 gfP6_SetOne = 1"
  "abs6 (gfP6_Minimal a) = abs6 a"
  "abs6 (gfP6_Negative a) = - abs6 a"
  "abs6 (gfP6_Add a b) = abs6 a + abs6 b"
  "abs6 (gfP6_Sub a b) = abs6 a - abs6 b"
  "abs6 (gfP6_Double a) = abs6 a + abs6 a"
  "abs6 (gfP6_Mul a b) = abs6 a * abs6 b"
  "abs6 (gfP6_MulScalar a s) = scal6 (abs2 s) * abs6 a"
  "abs6 (gfP6_MulGFP a n) = scal6 (scal2 (fp_of_int n)) * abs6 a"
  "abs6 (gfP6_MulTau a) = tau * abs6 a"
  "abs6 (gfP6_Square a) = abs6 a * abs6 a"
  by (simp_all add: abs6_def fp6_ops gfP6_SetZero_def gfP6_SetOne_def gfP6_Minimal_def
      gfP6_Negative_def gfP6_Add_def gfP6_Sub_def gfP6_Double_def gfP6_Mul_def gfP6_MulScalar_def
      gfP6_MulGFP_def scal6_def gfP6_MulTau_def tau_def gfP6_Square_def gf_abs Let_def algebra_simps)

lemma scal6_hom [simp]:
  "scal6 (a * b) = scal6 a * scal6 b" "scal6 1 = 1" "scal6 a = scal6 b \<longleftrightarrow> a = b"
  by (simp_all add: scal6_def fp6_ops)

text \<open>The cofactor and the norm the comment of \<^verbatim>\<open>Invert\<close> describes.\<close>

definition adj6 :: "fp6 \<Rightarrow> fp6" where
  "adj6 a = Fp6 (c1 a * c1 a - c2 a * c0 a) (xi * (c2 a * c2 a) - c1 a * c0 a)
     (c0 a * c0 a - xi * (c2 a * c1 a))"

definition norm6 :: "fp6 \<Rightarrow> fp2" where
  "norm6 a = xi * (c2 (adj6 a) * c1 a) + c0 (adj6 a) * c0 a + xi * (c1 (adj6 a) * c2 a)"

lemma adj6: "a * adj6 a = scal6 (norm6 a)"
  by (simp add: adj6_def norm6_def scal6_def fp6_ops algebra_simps)

lemma adj6_hom: "adj6 (a * b) = adj6 a * adj6 b"
  by (simp add: adj6_def fp6_ops algebra_simps)

lemma adj6_1 [simp]: "adj6 1 = 1"
  by (simp add: adj6_def fp6_ops)

lemma norm6_unit: "a * b = 1 \<Longrightarrow> norm6 a * norm6 b = 1"
proof -
  assume ab: "a * b = 1"
  have "scal6 (norm6 a * norm6 b) = (a * adj6 a) * (b * adj6 b)" by (simp add: adj6)
  also have "\<dots> = (a * b) * adj6 (a * b)" by (simp add: adj6_hom mult_ac)
  finally show ?thesis using ab scal6_hom(2,3) by (metis adj6_1 mult_1)
qed

lemma abs6_Invert:
  assumes "abs6 a * b = 1"
  shows "abs6 (gfP6_Invert stale a) = b"
proof -
  let ?n = "norm6 (abs6 a)"
  define F where "F = gfP2_Add (gfP2_Add (gfP2_MulXi (gfP2_Mul (gfP2_Sub (gfP2_Square (y6 a)) (gfP2_Mul (x6 a) (z6 a))) (y6 a)))
     (gfP2_Mul (gfP2_Sub (gfP2_Square (z6 a)) (gfP2_MulXi (gfP2_Mul (x6 a) (y6 a)))) (z6 a)))
     (gfP2_MulXi (gfP2_Mul (gfP2_Sub (gfP2_MulXi (gfP2_Square (x6 a))) (gfP2_Mul (y6 a) (z6 a))) (x6 a)))"
  have "abs2 F = ?n" by (simp add: F_def gf_abs abs6_def norm6_def adj6_def)
  then have inv: "abs2 (gfP2_Invert stale F) = norm6 b"
    using abs2_Invert [of F "norm6 b" stale] norm6_unit [OF assms] by simp
  have "abs6 (gfP6_Invert stale a) = scal6 (abs2 (gfP2_Invert stale F)) * adj6 (abs6 a)"
    by (simp add: gfP6_Invert_def Let_def F_def [symmetric] gf_abs abs6_def adj6_def scal6_def fp6_ops mult.commute)
  also have "\<dots> = scal6 (norm6 b) * (adj6 (abs6 a) * (abs6 a * b))" using inv assms by simp
  also have "\<dots> = scal6 (norm6 b) * scal6 ?n * b" by (simp add: adj6 [symmetric] mult_ac)
  also have "\<dots> = b" using norm6_unit [OF assms] scal6_hom(1,2) by (metis mult.commute mult_1)
  finally show ?thesis .
qed

section \<open>\<^verbatim>\<open>gfp12.go\<close>\<close>

text \<open>The value of an element is \<open>x \<omega> + y\<close>.\<close>

record gfP12 =
  x12 :: gfP6
  y12 :: gfP6

definition gfP12_SetZero :: gfP12 where
  "gfP12_SetZero = \<lparr>x12 = gfP6_SetZero, y12 = gfP6_SetZero\<rparr>"

definition gfP12_SetOne :: gfP12 where
  "gfP12_SetOne = \<lparr>x12 = gfP6_SetZero, y12 = gfP6_SetOne\<rparr>"

definition gfP12_Minimal :: "gfP12 \<Rightarrow> gfP12" where
  "gfP12_Minimal e = \<lparr>x12 = gfP6_Minimal (x12 e), y12 = gfP6_Minimal (y12 e)\<rparr>"

definition gfP12_IsZero :: "gfP12 \<Rightarrow> bool" where
  "gfP12_IsZero e = (let e = gfP12_Minimal e in gfP6_IsZero (x12 e) \<and> gfP6_IsZero (y12 e))"

definition gfP12_IsOne :: "gfP12 \<Rightarrow> bool" where
  "gfP12_IsOne e = (let e = gfP12_Minimal e in gfP6_IsZero (x12 e) \<and> gfP6_IsOne (y12 e))"

text \<open>The contents of the receiver afterwards; the method returns its argument instead.\<close>

definition gfP12_Conjugate :: "gfP12 \<Rightarrow> gfP12" where
  "gfP12_Conjugate a = \<lparr>x12 = gfP6_Negative (x12 a), y12 = y12 a\<rparr>"

definition gfP12_Negative :: "gfP12 \<Rightarrow> gfP12" where
  "gfP12_Negative a = \<lparr>x12 = gfP6_Negative (x12 a), y12 = gfP6_Negative (y12 a)\<rparr>"

definition gfP12_Add :: "gfP12 \<Rightarrow> gfP12 \<Rightarrow> gfP12" where
  "gfP12_Add a b = \<lparr>x12 = gfP6_Add (x12 a) (x12 b), y12 = gfP6_Add (y12 a) (y12 b)\<rparr>"

definition gfP12_Sub :: "gfP12 \<Rightarrow> gfP12 \<Rightarrow> gfP12" where
  "gfP12_Sub a b = \<lparr>x12 = gfP6_Sub (x12 a) (x12 b), y12 = gfP6_Sub (y12 a) (y12 b)\<rparr>"

definition gfP12_Mul :: "gfP12 \<Rightarrow> gfP12 \<Rightarrow> gfP12" where
  "gfP12_Mul a b =
     (let tx = gfP6_Mul (x12 a) (y12 b);
          t = gfP6_Mul (x12 b) (y12 a);
          tx = gfP6_Add tx t;
          ty = gfP6_Mul (y12 a) (y12 b);
          t = gfP6_Mul (x12 a) (x12 b);
          t = gfP6_MulTau t
      in \<lparr>x12 = tx, y12 = gfP6_Add ty t\<rparr>)"

text \<open>\<^verbatim>\<open>MulScalar\<close> multiplies its receiver \<open>e\<close>, not its argument \<open>a\<close>.\<close>

definition gfP12_MulScalar :: "gfP12 \<Rightarrow> gfP12 \<Rightarrow> gfP6 \<Rightarrow> gfP12" where
  "gfP12_MulScalar e a b = \<lparr>x12 = gfP6_Mul (x12 e) b, y12 = gfP6_Mul (y12 e) b\<rparr>"

definition gfP12_Square :: "gfP12 \<Rightarrow> gfP12" where
  "gfP12_Square a =
     (let v0 = gfP6_Mul (x12 a) (y12 a);
          t = gfP6_MulTau (x12 a);
          t = gfP6_Add (y12 a) t;
          ty = gfP6_Add (x12 a) (y12 a);
          ty = gfP6_Mul ty t;
          ty = gfP6_Sub ty v0;
          t = gfP6_MulTau v0;
          ty = gfP6_Sub ty t
      in \<lparr>x12 = gfP6_Double v0, y12 = ty\<rparr>)"

definition gfP12_Exp :: "gfP12 \<Rightarrow> int \<Rightarrow> gfP12" where
  "gfP12_Exp a k =
     bit_loop gfP12_Square (\<lambda>t. gfP12_Mul t a) (\<lambda>t. t) k (BitLen k) gfP12_SetOne"

definition gfP12_Invert :: "int \<Rightarrow> gfP12 \<Rightarrow> gfP12" where
  "gfP12_Invert stale a =
     (let t1 = gfP6_Square (x12 a);
          t2 = gfP6_Square (y12 a);
          t1 = gfP6_MulTau t1;
          t1 = gfP6_Sub t2 t1;
          t2 = gfP6_Invert stale t1;
          e = \<lparr>x12 = gfP6_Negative (x12 a), y12 = y12 a\<rparr>
      in gfP12_MulScalar e e t2)"

definition abs12 :: "gfP12 \<Rightarrow> fp12" where
  "abs12 a = Fp12 (abs6 (x12 a)) (abs6 (y12 a))"

definition conj12 :: "fp12 \<Rightarrow> fp12" where
  "conj12 a = Fp12 (- d1 a) (d0 a)"

definition scal12 :: "fp6 \<Rightarrow> fp12" where
  "scal12 s = Fp12 0 s"

lemma abs12_ops [gf_abs]:
  "abs12 gfP12_SetZero = 0" "abs12 gfP12_SetOne = 1"
  "abs12 (gfP12_Minimal a) = abs12 a"
  "abs12 (gfP12_Negative a) = - abs12 a"
  "abs12 (gfP12_Conjugate a) = conj12 (abs12 a)"
  "abs12 (gfP12_Add a b) = abs12 a + abs12 b"
  "abs12 (gfP12_Sub a b) = abs12 a - abs12 b"
  "abs12 (gfP12_Mul a b) = abs12 a * abs12 b"
  "abs12 (gfP12_MulScalar e a s) = scal12 (abs6 s) * abs12 e"
  "abs12 (gfP12_Square a) = abs12 a * abs12 a"
  by (simp_all add: abs12_def fp12_ops gfP12_SetZero_def gfP12_SetOne_def gfP12_Minimal_def
      gfP12_Negative_def gfP12_Conjugate_def conj12_def gfP12_Add_def gfP12_Sub_def gfP12_Mul_def
      gfP12_MulScalar_def scal12_def gfP12_Square_def gf_abs Let_def algebra_simps)

interpretation gfP12_exp: msb_first gfP12_Square "\<lambda>t. gfP12_Mul t a" "\<lambda>t. t"
  "\<lambda>m s. abs12 s = abs12 a ^ m" "\<lambda>m s. abs12 s = abs12 a ^ m" for a
  by unfold_locales (simp_all add: gf_abs mult_2 power_add mult.commute [of _ "abs12 a"])

lemma abs12_Exp: "0 \<le> k \<Longrightarrow> abs12 (gfP12_Exp a k) = abs12 a ^ nat k"
  unfolding gfP12_Exp_def by (rule gfP12_exp.bit_loop_all) (simp_all add: BitLen_bound gf_abs)

lemma scal12_hom [simp]:
  "scal12 (a * b) = scal12 a * scal12 b" "scal12 1 = 1" "scal12 a = scal12 b \<longleftrightarrow> a = b"
  by (simp_all add: scal12_def fp12_ops)

lemma conj12_hom [simp]: "conj12 (a * b) = conj12 a * conj12 b" "conj12 1 = 1" "conj12 (conj12 a) = a"
  by (simp_all add: conj12_def fp12_ops algebra_simps)

lemma norm12: "a * conj12 a = scal12 (d0 a * d0 a - tau * (d1 a * d1 a))"
  by (simp add: conj12_def scal12_def fp12_ops algebra_simps)

lemma abs12_Invert:
  assumes "abs12 a * b = 1"
  shows "abs12 (gfP12_Invert stale a) = b"
proof -
  define t where "t = gfP6_Sub (gfP6_Square (y12 a)) (gfP6_MulTau (gfP6_Square (x12 a)))"
  define n where "n = d0 b * d0 b - tau * (d1 b * d1 b)"
  have t: "scal12 (abs6 t) = abs12 a * conj12 (abs12 a)"
    by (simp add: norm12) (simp add: t_def gf_abs abs12_def)
  have "scal12 (abs6 t * n) = (abs12 a * conj12 (abs12 a)) * (b * conj12 b)"
    by (simp only: scal12_hom t norm12 [of b] n_def)
  also have "\<dots> = (abs12 a * b) * conj12 (abs12 a * b)" by (simp add: mult_ac)
  also have "\<dots> = scal12 1" using assms by simp
  finally have tn: "abs6 t * n = 1" by (simp only: scal12_hom(3))
  have "abs12 (gfP12_Invert stale a) = scal12 n * conj12 (abs12 a)"
    using abs6_Invert [OF tn, of stale]
    by (simp add: gfP12_Invert_def Let_def t_def [symmetric] gf_abs) (simp add: abs12_def conj12_def gf_abs)
  also have "\<dots> = scal12 n * (abs12 a * conj12 (abs12 a)) * b"
    using assms by (metis mult.assoc mult.commute mult.right_neutral)
  also have "\<dots> = scal12 (abs6 t * n) * b" by (simp add: t mult_ac)
  finally show ?thesis using tn by simp
qed

section \<open>Tests for zero and one\<close>

lemma fp_of_int_eq_0: "fp_of_int n = 0 \<longleftrightarrow> n mod P = 0"
  and fp_of_int_eq_1: "fp_of_int n = 1 \<longleftrightarrow> n mod P = 1"
  using fp_of_int_eq [of n 0] fp_of_int_eq [of n 1] by simp_all

lemma gfP2_IsZero_Minimal: "gfP2_IsZero (gfP2_Minimal e) \<longleftrightarrow> abs2 e = 0"
  by (simp add: gfP2_IsZero_def gfP2_Minimal_def minimal_eq abs2_def zero_fp2_def fp_of_int_eq_0)

lemma gfP2_IsOne_Minimal: "gfP2_IsOne (gfP2_Minimal e) \<longleftrightarrow> abs2 e = 1"
  by (auto simp: gfP2_IsOne_def bits_is_one_def gfP2_Minimal_def minimal_eq abs2_def one_fp2_def
      fp_of_int_eq_0 fp_of_int_eq_1)

lemma gfP12_IsZero_iff: "gfP12_IsZero e \<longleftrightarrow> abs12 e = 0"
  by (simp add: gfP12_IsZero_def gfP12_Minimal_def gfP6_IsZero_def gfP6_Minimal_def gfP2_IsZero_Minimal
      abs12_def abs6_def fp12_ops fp6_ops)

lemma gfP12_IsOne_iff: "gfP12_IsOne e \<longleftrightarrow> abs12 e = 1"
  by (simp add: gfP12_IsOne_def gfP12_Minimal_def gfP6_IsZero_def gfP6_IsOne_def gfP6_Minimal_def
      gfP2_IsZero_Minimal gfP2_IsOne_Minimal abs12_def abs6_def fp12_ops fp6_ops)

section \<open>\<^verbatim>\<open>constants.go\<close> and the Frobenius maps\<close>

definition u :: int where
  "u = 4965661367192848881"

definition Order :: int where
  "Order = 21888242871839275222246405745257275088548364400416034343698204186575808495617"

definition xiToPMinus1Over6 :: gfP2 where
  "xiToPMinus1Over6 =
     \<lparr>x2 = 16469823323077808223889137241176536799009286646108169935659301613961712198316,
      y2 = 8376118865763821496583973867626364092589906065868298776909617916018768340080\<rparr>"

definition xiToPMinus1Over3 :: gfP2 where
  "xiToPMinus1Over3 =
     \<lparr>x2 = 10307601595873709700152284273816112264069230130616436755625194854815875713954,
      y2 = 21575463638280843010398324269430826099269044274347216827212613867836435027261\<rparr>"

definition xiToPMinus1Over2 :: gfP2 where
  "xiToPMinus1Over2 =
     \<lparr>x2 = 3505843767911556378687030309984248845540243509899259641013678093033130930403,
      y2 = 2821565182194536844548159561693502659359617185244120367078079554186484126554\<rparr>"

definition xiToPSquaredMinus1Over3 :: int where
  "xiToPSquaredMinus1Over3 = 21888242871839275220042445260109153167277707414472061641714758635765020556616"

definition xiTo2PSquaredMinus2Over3 :: int where
  "xiTo2PSquaredMinus2Over3 = 2203960485148121921418603742825762020974279258880205651966"

definition xiToPSquaredMinus1Over6 :: int where
  "xiToPSquaredMinus1Over6 = 21888242871839275220042445260109153167277707414472061641714758635765020556617"

definition xiTo2PMinus2Over3 :: gfP2 where
  "xiTo2PMinus2Over3 =
     \<lparr>x2 = 19937756971775647987995932169929341994314640652964949448313374472400716661030,
      y2 = 2581911344467009335267311115468803099551665605076196740867805258568234346338\<rparr>"

definition gfP6_Frobenius :: "gfP6 \<Rightarrow> gfP6" where
  "gfP6_Frobenius a =
     \<lparr>x6 = gfP2_Mul (gfP2_Conjugate (x6 a)) xiTo2PMinus2Over3,
      y6 = gfP2_Mul (gfP2_Conjugate (y6 a)) xiToPMinus1Over3,
      z6 = gfP2_Conjugate (z6 a)\<rparr>"

definition gfP6_FrobeniusP2 :: "gfP6 \<Rightarrow> gfP6" where
  "gfP6_FrobeniusP2 a =
     \<lparr>x6 = gfP2_MulScalar (x6 a) xiTo2PSquaredMinus2Over3,
      y6 = gfP2_MulScalar (y6 a) xiToPSquaredMinus1Over3,
      z6 = z6 a\<rparr>"

definition gfP12_Frobenius :: "gfP12 \<Rightarrow> gfP12" where
  "gfP12_Frobenius a =
     \<lparr>x12 = gfP6_MulScalar (gfP6_Frobenius (x12 a)) xiToPMinus1Over6,
      y12 = gfP6_Frobenius (y12 a)\<rparr>"

definition gfP12_FrobeniusP2 :: "gfP12 \<Rightarrow> gfP12" where
  "gfP12_FrobeniusP2 a =
     \<lparr>x12 = gfP6_MulGFP (gfP6_FrobeniusP2 (x12 a)) xiToPSquaredMinus1Over6,
      y12 = gfP6_FrobeniusP2 (y12 a)\<rparr>"

text \<open>The parameters satisfy the equations their comments state.\<close>

lemma bn_parameters:
  "P = 36 * u ^ 4 + 36 * u ^ 3 + 24 * u ^ 2 + 6 * u + 1"
  "Order = 36 * u ^ 4 + 36 * u ^ 3 + 18 * u ^ 2 + 6 * u + 1"
  by (simp_all add: P_def Order_def u_def)

text \<open>
  The Frobenius factors are related as powers of \<open>\<xi>\<close> are.  Reducing numbers of this size is
  slow, so every congruence is checked with its quotient.
\<close>

lemma abs2_mult_eqI:
  assumes "x2 a * y2 b + y2 a * x2 b = x2 c + q * P" "y2 a * y2 b - x2 a * x2 b = y2 c + r * P"
  shows "abs2 a * abs2 b = abs2 c"
proof -
  have "fp_of_int (x2 a * y2 b + y2 a * x2 b) = fp_of_int (x2 c)"
    "fp_of_int (y2 a * y2 b - x2 a * x2 b) = fp_of_int (y2 c)"
    unfolding assms by (simp_all only: fp_of_int_eq mod_mult_self1)
  then show ?thesis by (simp add: abs2_def fp2_ops)
qed

lemma fp_mult_eqI: "a * b = c + q * P \<Longrightarrow> fp_of_int a * fp_of_int b = fp_of_int c"
  by (metis fp_of_int_eq fp_of_int_hom(3) mod_mult_self1)

lemmas xi_defs = xiToPMinus1Over6_def xiToPMinus1Over3_def xiToPMinus1Over2_def xiTo2PMinus2Over3_def
  xiToPSquaredMinus1Over6_def xiToPSquaredMinus1Over3_def xiTo2PSquaredMinus2Over3_def

lemma xi_sixth: "abs2 xiToPMinus1Over6 * abs2 xiToPMinus1Over6 = abs2 xiToPMinus1Over3"
  by (rule abs2_mult_eqI [of _ _ _
        12605232741611732518200907597562414454486712087715537939239625467614142821682
        "-9187384945308540462265023572126888483200558142639355961218014603309264129099"])
    (simp_all add: xi_defs P_def)

lemma xi_half: "abs2 xiToPMinus1Over6 * abs2 xiToPMinus1Over3 = abs2 xiToPMinus1Over2"
  by (rule abs2_mult_eqI [of _ _ _
        20178950544824406101271420337966227911472077371318223123757831118210307163071
        500463692477757900954161665112178192989236327137508280708310586254961056914])
    (simp_all add: xi_defs P_def)

lemma xi_two_thirds: "abs2 xiToPMinus1Over3 * abs2 xiToPMinus1Over3 = abs2 xiTo2PMinus2Over3"
  by (rule abs2_mult_eqI [of _ _ _
        20320615476702375430506860014609115530950080671171966475629169588660202602626
        16413102808253533008374809259677643694336274653055880065433411063678693431749])
    (simp_all add: xi_defs P_def)

lemma abs2_xi: "xi = abs2 \<lparr>x2 = 1, y2 = 9\<rparr>" "conj2 xi = abs2 \<lparr>x2 = - 1, y2 = 9\<rparr>"
  by (simp_all add: xi_def abs2_def conj2_def)

lemma xi_full: "xi * (abs2 xiToPMinus1Over2 * abs2 xiToPMinus1Over2) = conj2 xi"
proof -
  let ?c = "\<lparr>x2 = 1601578746719946967481444322823703055270461791997401731416271065461845820140,
    y2 = 7474034151359752514913406839843947591262155029321208079942598305488613827322\<rparr>"
  have "abs2 xiToPMinus1Over2 * abs2 xiToPMinus1Over2 = abs2 ?c"
    by (rule abs2_mult_eqI [of _ _ _
          903861197783002063783803329068390438054955622464808325806461152660178768848
          "-197809868657948699846744534575986139219601791583875099561918190546943139305"])
      (simp_all add: xi_defs P_def)
  moreover have "xi * abs2 ?c = conj2 xi"
    unfolding abs2_xi(2) unfolding abs2_xi(1) by (rule abs2_mult_eqI [of _ _ _ 1 3]) (simp_all add: P_def)
  ultimately show ?thesis by simp
qed

lemma xi_sixth_norm: "conj2 (abs2 xiToPMinus1Over6) * abs2 xiToPMinus1Over6 = scal2 (fp_of_int xiToPSquaredMinus1Over6)"
proof -
  have "abs2 (gfP2_Conjugate xiToPMinus1Over6) * abs2 xiToPMinus1Over6 = abs2 \<lparr>x2 = 0, y2 = xiToPSquaredMinus1Over6\<rparr>"
    by (rule abs2_mult_eqI [of _ _ _ 0
          15598074708228655218869851970971817356454736547444593497655022181436807992833])
      (simp_all add: xi_defs P_def gfP2_Conjugate_def)
  then show ?thesis by (simp add: gf_abs) (simp add: abs2_def scal2_def)
qed

lemma xi_square_relations:
  "fp_of_int xiToPSquaredMinus1Over6 * fp_of_int xiToPSquaredMinus1Over6 = fp_of_int xiToPSquaredMinus1Over3"
  "fp_of_int xiToPSquaredMinus1Over3 * fp_of_int xiToPSquaredMinus1Over3 = fp_of_int xiTo2PSquaredMinus2Over3"
  "fp_of_int xiToPSquaredMinus1Over6 * fp_of_int xiToPSquaredMinus1Over3 = -1"
proof -
  show "fp_of_int xiToPSquaredMinus1Over6 * fp_of_int xiToPSquaredMinus1Over6 = fp_of_int xiToPSquaredMinus1Over3"
    by (rule fp_mult_eqI [of _ _ _ 21888242871839275217838484774961031246081023806968983599271420891293677114031])
      (simp add: xi_defs P_def)
  show "fp_of_int xiToPSquaredMinus1Over3 * fp_of_int xiToPSquaredMinus1Over3 = fp_of_int xiTo2PSquaredMinus2Over3"
    by (rule fp_mult_eqI [of _ _ _ 21888242871839275217838484774961031246081023806968983599271420891293677114030])
      (simp add: xi_defs P_def)
  have "fp_of_int xiToPSquaredMinus1Over6 * fp_of_int xiToPSquaredMinus1Over3 = fp_of_int (-1)"
    by (rule fp_mult_eqI [of _ _ _ 21888242871839275217838484774961031246081023806968983599271420891293677114031])
      (simp add: xi_defs P_def)
  then show "fp_of_int xiToPSquaredMinus1Over6 * fp_of_int xiToPSquaredMinus1Over3 = -1" by simp
qed

text \<open>The Frobenius maps on the abstract tower.\<close>

definition k1 :: fp2 where "k1 = abs2 xiToPMinus1Over3"
definition k6 :: fp2 where "k6 = abs2 xiToPMinus1Over6"

lemma k_eqs: "k6 * k6 = k1" "abs2 xiToPMinus1Over2 = k6 * k1" "abs2 xiTo2PMinus2Over3 = k1 * k1"
  "xi * (k1 * k1 * k1) = conj2 xi"
proof -
  show *: "k6 * k6 = k1" "abs2 xiToPMinus1Over2 = k6 * k1" "abs2 xiTo2PMinus2Over3 = k1 * k1"
    using xi_sixth xi_half xi_two_thirds by (simp_all add: k1_def k6_def)
  have "k1 * k1 * k1 = abs2 xiToPMinus1Over2 * abs2 xiToPMinus1Over2"
    by (simp add: *(2) *(1) [symmetric] mult_ac)
  then show "xi * (k1 * k1 * k1) = conj2 xi" using xi_full by simp
qed

definition frob6 :: "fp6 \<Rightarrow> fp6" where
  "frob6 a = Fp6 (conj2 (c2 a) * (k1 * k1)) (conj2 (c1 a) * k1) (conj2 (c0 a))"

definition frob12 :: "fp12 \<Rightarrow> fp12" where
  "frob12 a = Fp12 (scal6 k6 * frob6 (d1 a)) (frob6 (d0 a))"

lemma abs6_Frobenius [gf_abs]: "abs6 (gfP6_Frobenius a) = frob6 (abs6 a)"
  by (simp add: gfP6_Frobenius_def abs6_def frob6_def gf_abs k_eqs k1_def)

lemma abs12_Frobenius [gf_abs]: "abs12 (gfP12_Frobenius a) = frob12 (abs12 a)"
  by (simp add: gfP12_Frobenius_def abs12_def frob12_def gf_abs k6_def)

lemma frob6_mult: "frob6 (a * b) = frob6 a * frob6 b"
proof -
  have k: "conj2 xi = xi * (k1 * (k1 * k1))" using k_eqs(4) by (simp add: mult.assoc)
  show ?thesis by (simp add: frob6_def fp6_ops k algebra_simps)
qed

lemma frob6_hom: "frob6 1 = 1" "frob6 (a + b) = frob6 a + frob6 b" "frob6 tau = scal6 k1 * tau"
  by (simp_all add: frob6_def fp6_ops tau_def scal6_def algebra_simps)

lemma frob12_hom [simp]: "frob12 (a * b) = frob12 a * frob12 b" "frob12 1 = 1"
proof -
  have k: "scal6 k1 = scal6 k6 * scal6 k6" by (simp add: k_eqs(1) flip: scal6_hom(1))
  show "frob12 (a * b) = frob12 a * frob12 b"
    by (simp add: frob12_def fp12_ops frob6_hom frob6_mult k algebra_simps)
  show "frob12 1 = 1"
    by (simp add: frob12_def fp12_ops frob6_hom) (simp add: frob6_def fp6_ops)
qed

definition frobp2 :: "fp12 \<Rightarrow> fp12" where
  "frobp2 a = frob12 (frob12 a)"

lemma conj2_k: "conj2 k6 * k6 = scal2 (fp_of_int xiToPSquaredMinus1Over6)"
  "conj2 k1 * k1 = scal2 (fp_of_int xiToPSquaredMinus1Over3)"
proof -
  show *: "conj2 k6 * k6 = scal2 (fp_of_int xiToPSquaredMinus1Over6)"
    using xi_sixth_norm by (simp add: k6_def)
  have "conj2 k1 * k1 = (conj2 k6 * k6) * (conj2 k6 * k6)" by (simp add: k_eqs(1) [symmetric] mult_ac)
  then show "conj2 k1 * k1 = scal2 (fp_of_int xiToPSquaredMinus1Over3)"
    using xi_square_relations(1) by (simp add: * flip: scal2_hom(1))
qed

lemma frob6_twice:
  "frob6 (frob6 a) = Fp6 (scal2 (fp_of_int xiTo2PSquaredMinus2Over3) * c2 a)
     (scal2 (fp_of_int xiToPSquaredMinus1Over3) * c1 a) (c0 a)"
proof -
  have "scal2 (fp_of_int xiTo2PSquaredMinus2Over3) = (conj2 k1 * k1) * (conj2 k1 * k1)"
    using xi_square_relations(2) by (simp add: conj2_k flip: scal2_hom(1))
  then show ?thesis by (simp add: frob6_def conj2_k(2) [symmetric] mult_ac)
qed

lemma frobp2_eq:
  "frobp2 a = Fp12 (scal6 (conj2 k6 * k6) * frob6 (frob6 (d1 a))) (frob6 (frob6 (d0 a)))"
proof -
  have "frob6 (scal6 k6) = scal6 (conj2 k6)" by (simp add: frob6_def scal6_def)
  then show ?thesis by (simp add: frobp2_def frob12_def frob6_mult mult_ac)
qed

text \<open>\<^verbatim>\<open>FrobeniusP2\<close> is the Frobenius map applied twice.\<close>

lemma abs12_FrobeniusP2 [gf_abs]: "abs12 (gfP12_FrobeniusP2 a) = frobp2 (abs12 a)"
proof -
  have "abs6 (gfP6_FrobeniusP2 b) = frob6 (frob6 (abs6 b))" for b
    by (simp add: gfP6_FrobeniusP2_def abs6_def frob6_twice gf_abs)
  then show ?thesis by (simp add: gfP12_FrobeniusP2_def abs12_def frobp2_eq gf_abs conj2_k)
qed

lemma frobp2_hom [simp]: "frobp2 (a * b) = frobp2 a * frobp2 b" "frobp2 1 = 1"
  by (simp_all add: frobp2_def)

text \<open>Six times the Frobenius map is the conjugation the final exponentiation starts with.\<close>

lemma frob6_six: "frob6 (frob6 (frob6 (frob6 (frob6 (frob6 a))))) = a"
proof -
  let ?s = "fp_of_int xiToPSquaredMinus1Over6"
  have s: "?s * (?s * ?s) = -1" using xi_square_relations(1,3) by simp
  have one: "?s * (?s * (?s * (?s * (?s * ?s)))) = 1"
    using s by (metis (no_types) mult.assoc mult_minus1 mult_minus_left minus_minus mult_1)
  have 3: "fp_of_int xiToPSquaredMinus1Over3 = ?s * ?s" using xi_square_relations(1) by simp
  have 23: "fp_of_int xiTo2PSquaredMinus2Over3 = ?s * ?s * (?s * ?s)"
    using xi_square_relations(2) 3 by simp
  have "scal2 ?s * (scal2 ?s * (scal2 ?s * (scal2 ?s * (scal2 ?s * (scal2 ?s * b))))) = b" for b
    using arg_cong [OF one, of "\<lambda>x. scal2 x * b"] by (simp add: mult.assoc)
  then show ?thesis by (simp add: frob6_twice 3 23 mult.assoc)
qed

lemma frobp2_thrice: "frobp2 (frobp2 (frobp2 a)) = conj12 a"
proof -
  let ?s = "fp_of_int xiToPSquaredMinus1Over6"
  have s: "?s * (?s * ?s) = -1" using xi_square_relations(1,3) by simp
  have "scal2 (-1) = (-1 :: fp2)" by (simp add: scal2_def fp2_ops)
  then have "scal2 ?s * (scal2 ?s * scal2 ?s) = -1" using arg_cong [OF s, of scal2] by simp
  moreover have "scal6 (-1) = (-1 :: fp6)" by (simp add: scal6_def fp6_ops fp2_ops)
  ultimately have s6: "scal6 (scal2 ?s) * (scal6 (scal2 ?s) * (scal6 (scal2 ?s) * b)) = - b" for b
    by (metis mult.assoc mult_minus1 scal6_hom(1))
  have f: "frob6 (frob6 (scal6 (scal2 ?s))) = scal6 (scal2 ?s)" by (simp add: frob6_twice) (simp add: scal6_def)
  show ?thesis
    by (simp add: frobp2_eq conj2_k frob6_mult f s6 frob6_six conj12_def)
qed

section \<open>Properties\<close>

text \<open>
  C23: the optimised arithmetic of gfP12 (Karatsuba products, complex squaring, square and
  multiply) computes in the ring \<open>fp12\<close> with its schoolbook multiplication: sums, differences,
  negation, products, squares and powers are those of the elements the operands stand for, and
  the tests for zero and one are exact.
\<close>

theorem gfP12_arithmetic:
  "abs12 (gfP12_Add a b) = abs12 a + abs12 b \<and> abs12 (gfP12_Sub a b) = abs12 a - abs12 b \<and>
   abs12 (gfP12_Negative a) = - abs12 a \<and> abs12 (gfP12_Mul a b) = abs12 a * abs12 b \<and>
   abs12 (gfP12_Square a) = abs12 a * abs12 a \<and> abs12 (gfP12_Exp a (int n)) = abs12 a ^ n \<and>
   (gfP12_IsOne a \<longleftrightarrow> abs12 a = 1) \<and> (gfP12_IsZero a \<longleftrightarrow> abs12 a = 0)"
  by (simp add: gf_abs abs12_Exp gfP12_IsOne_iff gfP12_IsZero_iff)

text \<open>
  C27: Invert finds the inverse of every invertible element of gfP12, whatever the integer
  from the pool held before.
\<close>

theorem gfP12_Invert_correct:
  assumes "abs12 a * b = 1"
  shows "abs12 (gfP12_Invert stale a) = b"
  using assms by (rule abs12_Invert)

theorem gfP12_Invert_correct_witness:
  "abs12 (gfP12_Invert 5 (gfP12_Negative gfP12_SetOne)) = - 1"
  by (rule gfP12_Invert_correct) (simp add: gf_abs)

text \<open>
  C28: Frobenius is a ring homomorphism as far as products are concerned, FrobeniusP2 is
  Frobenius applied twice, and applying FrobeniusP2 three times is the conjugation that the
  final exponentiation uses for the sixth power of the Frobenius map.
\<close>

theorem gfP12_Frobenius_correct:
  "abs12 (gfP12_Frobenius (gfP12_Mul a b)) = abs12 (gfP12_Mul (gfP12_Frobenius a) (gfP12_Frobenius b)) \<and>
   abs12 (gfP12_FrobeniusP2 a) = abs12 (gfP12_Frobenius (gfP12_Frobenius a)) \<and>
   abs12 (gfP12_FrobeniusP2 (gfP12_FrobeniusP2 (gfP12_FrobeniusP2 a))) = abs12 (gfP12_Conjugate a)"
  by (simp add: gf_abs frobp2_thrice) (simp add: frobp2_def)

end
