(* ===== verification/Bn_Jacobian.thy ===== *)
theory Bn_Jacobian
  imports Bn_Gfp
begin

text \<open>
  Points in Jacobian coordinates over a commutative ring: the formulas that \<^verbatim>\<open>curve.go\<close> and
  \<^verbatim>\<open>twist.go\<close> of \<^verbatim>\<open>crypto/bn256/google\<close> share, that they stay on the curve, and that they
  compute the chord and tangent rules.  The locale \<open>jacobian\<close> is the contract between the
  formulas and the two implementations.
\<close>

section \<open>Jacobian coordinates\<close>

text \<open>
  The formulas \<open>dbl-2009-l\<close> and \<open>add-2007-bl\<close> that both curves use, over any commutative ring.
\<close>

definition dblX :: "'a \<Rightarrow> 'a \<Rightarrow> 'a :: comm_ring_1" where
  "dblX x y = (3 * x ^ 2) ^ 2 - 8 * x * y ^ 2"

definition dblY :: "'a \<Rightarrow> 'a \<Rightarrow> 'a :: comm_ring_1" where
  "dblY x y = 3 * x ^ 2 * (4 * x * y ^ 2 - dblX x y) - 8 * y ^ 4"

definition addX :: "'a \<Rightarrow> 'a \<Rightarrow> 'a \<Rightarrow> 'a \<Rightarrow> 'a :: comm_ring_1" where
  "addX u1 s1 u2 s2 = 4 * ((s2 - s1) ^ 2 - (u2 - u1) ^ 3 - 2 * u1 * (u2 - u1) ^ 2)"

definition addY :: "'a \<Rightarrow> 'a \<Rightarrow> 'a \<Rightarrow> 'a \<Rightarrow> 'a :: comm_ring_1" where
  "addY u1 s1 u2 s2 =
     2 * (s2 - s1) * (4 * u1 * (u2 - u1) ^ 2 - addX u1 s1 u2 s2) - 8 * s1 * (u2 - u1) ^ 3"

lemma dbl_on_curve:
  fixes x y z b :: "'a :: comm_ring_1"
  assumes "y ^ 2 = x ^ 3 + b * z ^ 6"
  shows "dblY x y ^ 2 = dblX x y ^ 3 + b * (2 * y * z) ^ 6"
proof -
  have "b * (2 * y * z) ^ 6 = 64 * y ^ 6 * (b * z ^ 6)" by (simp add: power_mult_distrib mult_ac)
  also have "b * z ^ 6 = y ^ 2 - x ^ 3" using assms by simp
  finally have b: "b * (2 * y * z) ^ 6 = 64 * y ^ 6 * (y ^ 2 - x ^ 3)" .
  show ?thesis unfolding b dblY_def dblX_def by (simp add: eval_nat_numeral algebra_simps)
qed

lemma add_on_curve:
  fixes u1 s1 u2 s2 z b :: "'a :: comm_ring_1"
  assumes "s1 ^ 2 = u1 ^ 3 + b * z ^ 6" "s2 ^ 2 = u2 ^ 3 + b * z ^ 6"
  shows "addY u1 s1 u2 s2 ^ 2 = addX u1 s1 u2 s2 ^ 3 + b * (2 * z * (u2 - u1)) ^ 6"
proof -
  define d h where dh: "d = s2 - s1" "h = u2 - u1"
  then have su: "s2 = s1 + d" "u2 = u1 + h" by simp_all
  have b: "b * (2 * z * h) ^ 6 = 64 * h ^ 6 * (s1 ^ 2 - u1 ^ 3)"
    using assms(1) by (simp add: power_mult_distrib mult_ac)
  have E: "d ^ 2 + 2 * s1 * d - (h ^ 3 + 3 * u1 * h ^ 2 + 3 * u1 ^ 2 * h) = 0"
    using assms unfolding su by (simp add: eval_nat_numeral algebra_simps)
  define w where "w = d ^ 2 - h ^ 3 - 2 * u1 * h ^ 2"
  have "(d * (u1 * h ^ 2 - w) - s1 * h ^ 3) ^ 2 - (w ^ 3 + h ^ 6 * (s1 ^ 2 - u1 ^ 3))
      = h ^ 3 * (d ^ 2 - 3 * u1 * h ^ 2 - h ^ 3) * (d ^ 2 + 2 * s1 * d - (h ^ 3 + 3 * u1 * h ^ 2 + 3 * u1 ^ 2 * h))"
    unfolding w_def by (simp add: eval_nat_numeral algebra_simps)
  then have "(d * (u1 * h ^ 2 - w) - s1 * h ^ 3) ^ 2 = w ^ 3 + h ^ 6 * (s1 ^ 2 - u1 ^ 3)"
    unfolding E by simp
  then have "(8 * (d * (u1 * h ^ 2 - w) - s1 * h ^ 3)) ^ 2 = (4 * w) ^ 3 + 64 * h ^ 6 * (s1 ^ 2 - u1 ^ 3)"
    unfolding power_mult_distrib by (simp only:) (simp add: distrib_left mult.assoc)
  moreover have "addX u1 s1 u2 s2 = 4 * w" unfolding addX_def w_def dh by simp
  moreover have "addY u1 s1 u2 s2 = 8 * (d * (u1 * h ^ 2 - w) - s1 * h ^ 3)"
    unfolding addY_def addX_def w_def dh by (simp add: eval_nat_numeral algebra_simps)
  ultimately show ?thesis using b by (simp add: dh)
qed

text \<open>
  The affine point \<open>(px, py)\<close> a triple stands for, with \<open>w\<close> the inverse of \<open>Z\<close>, and the
  chord and tangent rules in these coordinates.
\<close>

definition affine :: "'a :: comm_ring_1 \<Rightarrow> 'a \<Rightarrow> 'a \<Rightarrow> 'a \<times> 'a \<Rightarrow> bool" where
  "affine X Y Z p \<longleftrightarrow> X = fst p * Z ^ 2 \<and> Y = snd p * Z ^ 3 \<and> Z dvd 1"

definition line_sum :: "'a :: comm_ring_1 \<Rightarrow> 'a \<times> 'a \<Rightarrow> 'a \<times> 'a \<Rightarrow> 'a \<times> 'a" where
  "line_sum l p q =
     (let x = l ^ 2 - fst p - fst q in (x, l * (fst p - x) - snd p))"

definition chord :: "'a :: comm_ring_1 \<Rightarrow> 'a \<times> 'a \<Rightarrow> 'a \<times> 'a \<Rightarrow> bool" where
  "chord l p q \<longleftrightarrow> fst q - fst p dvd 1 \<and> l * (fst q - fst p) = snd q - snd p"

definition tangent :: "'a :: comm_ring_1 \<Rightarrow> 'a \<times> 'a \<Rightarrow> bool" where
  "tangent l p \<longleftrightarrow> snd p dvd 1 \<and> l * (2 * snd p) = 3 * fst p ^ 2"

lemma unit_mult: "a dvd 1 \<Longrightarrow> b dvd 1 \<Longrightarrow> a * b dvd (1 :: 'a :: comm_ring_1)"
  using mult_dvd_mono [of a 1 b 1] by simp

lemma unit_power: "a dvd 1 \<Longrightarrow> a ^ n dvd (1 :: 'a :: comm_ring_1)"
  using dvd_power_same [of a 1 n] by simp

lemma dbl_affine:
  fixes Z :: "'a :: comm_ring_1"
  assumes "affine X Y Z p" "tangent l p" "(2 :: 'a) dvd 1"
  shows "affine (dblX X Y) (dblY X Y) (2 * Y * Z) (line_sum l p p)"
proof -
  obtain x y where p: "p = (x, y)" by (cases p)
  have XY: "X = x * Z ^ 2" "Y = y * Z ^ 3" and Z: "Z dvd 1" using assms(1) by (simp_all add: affine_def p)
  have l: "3 * x ^ 2 = l * (2 * y)" and y: "y dvd 1" using assms(2) by (simp_all add: tangent_def p)
  have unit: "2 * Y * Z dvd 1" using XY y Z assms(3) by (intro unit_mult) (simp_all add: unit_mult unit_power)
  have "3 * X ^ 2 = (3 * x ^ 2) * Z ^ 4" unfolding XY by (simp add: eval_nat_numeral mult_ac)
  also have "\<dots> = 2 * l * Y * Z" unfolding l XY by (simp add: eval_nat_numeral mult_ac)
  finally have e: "3 * X ^ 2 = 2 * l * Y * Z" .
  define t where "t = l ^ 2 - x - x"
  have X3: "dblX X Y = t * (2 * Y * Z) ^ 2"
    unfolding dblX_def e t_def unfolding XY(1) by (simp add: eval_nat_numeral algebra_simps)
  have "dblY X Y = 2 * l * Y * Z * (4 * X * Y ^ 2 - t * (2 * Y * Z) ^ 2) - 8 * Y ^ 4"
    unfolding dblY_def e X3 ..
  also have "\<dots> = l * (x - t) * (2 * Y * Z) ^ 3 - 8 * (y * Z ^ 3) * Y ^ 3"
    unfolding XY(1) XY(2) [symmetric] by (simp add: eval_nat_numeral algebra_simps)
  also have "\<dots> = (l * (x - t) - y) * (2 * Y * Z) ^ 3" by (simp add: power_mult_distrib algebra_simps)
  finally show ?thesis using X3 unit by (simp add: affine_def line_sum_def p t_def Let_def)
qed

lemma add_affine:
  fixes Z1 Z2 :: "'a :: comm_ring_1"
  assumes "affine X1 Y1 Z1 p" "affine X2 Y2 Z2 q" "chord l p q" "(2 :: 'a) dvd 1"
  shows "affine (addX (X1 * Z2 ^ 2) (Y1 * Z2 ^ 3) (X2 * Z1 ^ 2) (Y2 * Z1 ^ 3))
     (addY (X1 * Z2 ^ 2) (Y1 * Z2 ^ 3) (X2 * Z1 ^ 2) (Y2 * Z1 ^ 3))
     (2 * (Z1 * Z2) * (X2 * Z1 ^ 2 - X1 * Z2 ^ 2)) (line_sum l p q)"
proof -
  obtain x1 y1 x2 y2 where pq: "p = (x1, y1)" "q = (x2, y2)" by (cases p, cases q)
  define Z where "Z = Z1 * Z2"
  have Z1: "Z1 dvd 1" "Z2 dvd 1" using assms(1,2) by (simp_all add: affine_def)
  have l: "y2 - y1 = l * (x2 - x1)" and h: "x2 - x1 dvd 1" using assms(3) by (simp_all add: chord_def pq)
  define h where "h = x2 - x1"
  have u: "X1 * Z2 ^ 2 = x1 * Z ^ 2" "X2 * Z1 ^ 2 = x2 * Z ^ 2"
    and s: "Y1 * Z2 ^ 3 = y1 * Z ^ 3" "Y2 * Z1 ^ 3 = y2 * Z ^ 3"
    using assms(1,2) by (simp_all add: affine_def pq Z_def power_mult_distrib mult_ac)
  have du: "X2 * Z1 ^ 2 - X1 * Z2 ^ 2 = h * Z ^ 2" and ds: "Y2 * Z1 ^ 3 - Y1 * Z2 ^ 3 = l * h * Z ^ 3"
    unfolding u s h_def l [symmetric] by (simp_all add: algebra_simps)
  have unit: "2 * Z * (h * Z ^ 2) dvd 1"
    using Z1 h assms(4) by (auto intro!: unit_mult unit_power simp: Z_def h_def)
  define t where "t = l ^ 2 - x1 - x2"
  have x2: "x2 = x1 + h" by (simp add: h_def)
  have X3: "addX (X1 * Z2 ^ 2) (Y1 * Z2 ^ 3) (X2 * Z1 ^ 2) (Y2 * Z1 ^ 3) = t * (2 * Z * (h * Z ^ 2)) ^ 2"
    unfolding addX_def du ds unfolding u t_def x2 by (simp add: eval_nat_numeral algebra_simps)
  have Y3: "addY (X1 * Z2 ^ 2) (Y1 * Z2 ^ 3) (X2 * Z1 ^ 2) (Y2 * Z1 ^ 3)
      = (l * (x1 - t) - y1) * (2 * Z * (h * Z ^ 2)) ^ 3"
    unfolding addY_def X3 unfolding du ds unfolding u s by (simp add: eval_nat_numeral algebra_simps)
  show ?thesis using X3 Y3 unit
    by (simp add: affine_def line_sum_def pq t_def Let_def Z_def [symmetric] du)
qed

definition on_jacobian :: "'a :: comm_ring_1 \<Rightarrow> 'a \<Rightarrow> 'a \<Rightarrow> 'a \<Rightarrow> bool" where
  "on_jacobian B X Y Z \<longleftrightarrow> Y ^ 2 = X ^ 3 + B * Z ^ 6"

lemma affine_inverse:
  fixes Z :: "'a :: comm_ring_1"
  assumes "w * Z = 1"
  shows "affine X Y Z (X * w ^ 2, Y * w ^ 3)"
proof -
  have "X * w ^ 2 * Z ^ 2 = X" "Y * w ^ 3 * Z ^ 3 = Y"
    using assms by (simp_all add: mult.assoc flip: power_mult_distrib)
  then show ?thesis using assms by (metis affine_def dvd_triv_right fst_conv snd_conv)
qed

lemma affine_on_jacobian:
  assumes "affine X Y Z p" "on_jacobian B X Y Z"
  shows "snd p ^ 2 = fst p ^ 3 + B"
proof -
  obtain w where w: "Z * w = 1" using assms(1) by (metis affine_def dvdE)
  have "snd p ^ 2 * Z ^ 6 = (fst p ^ 3 + B) * Z ^ 6"
    using assms by (simp add: affine_def on_jacobian_def power_mult_distrib algebra_simps flip: power_mult)
  from arg_cong [OF this, of "\<lambda>x. x * w ^ 6"] show ?thesis
    using w by (simp add: mult.assoc flip: power_mult_distrib)
qed

text \<open>
  What the two curves promise: coordinates in a ring in which 2 has an inverse, a test for
  infinity that is exact on points with a normalised \<open>Z\<close>, and methods that compute the
  formulas.
\<close>

locale jacobian =
  fixes X Y Z :: "'p \<Rightarrow> 'a :: comm_ring_1" and B :: 'a and inf ok :: "'p \<Rightarrow> bool"
    and Dbl :: "'p \<Rightarrow> 'p \<Rightarrow> 'p" and Add :: "'p \<Rightarrow> 'p \<Rightarrow> 'p \<Rightarrow> 'p"
  assumes two: "(2 :: 'a) dvd 1"
    and inf_Z: "ok p \<Longrightarrow> inf p \<longleftrightarrow> Z p = 0"
    and Dbl_coords: "X (Dbl c a) = dblX (X a) (Y a)" "Y (Dbl c a) = dblY (X a) (Y a)"
      "Z (Dbl c a) = 2 * Y a * Z a"
    and Add_inf1: "inf a \<Longrightarrow> Add c a b = b"
    and Add_inf2: "\<not> inf a \<Longrightarrow> inf b \<Longrightarrow> Add c a b = a"
    and Add_same: "\<not> inf a \<Longrightarrow> \<not> inf b \<Longrightarrow> X a * Z b ^ 2 = X b * Z a ^ 2 \<Longrightarrow>
      Y a * Z b ^ 3 = Y b * Z a ^ 3 \<Longrightarrow> Add c a b = Dbl c a"
    and Add_coords: "\<not> inf a \<Longrightarrow> \<not> inf b \<Longrightarrow>
      \<not> (X a * Z b ^ 2 = X b * Z a ^ 2 \<and> Y a * Z b ^ 3 = Y b * Z a ^ 3) \<Longrightarrow>
      X (Add c a b) = addX (X a * Z b ^ 2) (Y a * Z b ^ 3) (X b * Z a ^ 2) (Y b * Z a ^ 3) \<and>
      Y (Add c a b) = addY (X a * Z b ^ 2) (Y a * Z b ^ 3) (X b * Z a ^ 2) (Y b * Z a ^ 3) \<and>
      Z (Add c a b) = 2 * (Z a * Z b) * (X b * Z a ^ 2 - X a * Z b ^ 2)"
    and ok_Dbl: "ok (Dbl c a)" and ok_Add: "ok a \<Longrightarrow> ok b \<Longrightarrow> ok (Add c a b)"
begin

lemma Dbl_valid:
  assumes "ok a" "inf a \<or> on_jacobian B (X a) (Y a) (Z a)"
  shows "inf (Dbl c a) \<or> on_jacobian B (X (Dbl c a)) (Y (Dbl c a)) (Z (Dbl c a))"
proof (cases "inf a")
  case True
  then have "Z (Dbl c a) = 0" using inf_Z [OF assms(1)] Dbl_coords(3) [of c a] by simp
  then show ?thesis using inf_Z [OF ok_Dbl] by blast
next
  case False
  then show ?thesis using assms(2) dbl_on_curve [of "Y a" "X a" B "Z a"]
    by (simp add: on_jacobian_def Dbl_coords)
qed

lemma Add_valid:
  assumes "ok a" "ok b" "inf a \<or> on_jacobian B (X a) (Y a) (Z a)" "inf b \<or> on_jacobian B (X b) (Y b) (Z b)"
  shows "inf (Add c a b) \<or> on_jacobian B (X (Add c a b)) (Y (Add c a b)) (Z (Add c a b))"
proof -
  consider "inf a" | "\<not> inf a" "inf b" | "\<not> inf a" "\<not> inf b"
      "X a * Z b ^ 2 = X b * Z a ^ 2 \<and> Y a * Z b ^ 3 = Y b * Z a ^ 3"
    | "\<not> inf a" "\<not> inf b" "\<not> (X a * Z b ^ 2 = X b * Z a ^ 2 \<and> Y a * Z b ^ 3 = Y b * Z a ^ 3)" by blast
  then show ?thesis
  proof cases
    case 3
    then show ?thesis using Add_same [of a b c] Dbl_valid [OF assms(1,3), of c] by simp
  next
    case 4
    have scaled: "(Y a * Z b ^ 3) ^ 2 = (X a * Z b ^ 2) ^ 3 + B * (Z a * Z b) ^ 6"
      if "on_jacobian B (X a) (Y a) (Z a)" for a b
    proof -
      have "(Y a * Z b ^ 3) ^ 2 = Y a ^ 2 * Z b ^ 6" by (simp add: power_mult_distrib flip: power_mult)
      then show ?thesis using that
        by (simp add: on_jacobian_def power_mult_distrib algebra_simps flip: power_mult)
    qed
    show ?thesis using 4 assms(3,4) Add_coords [OF 4, of c]
      add_on_curve [OF scaled [of a b] scaled [of b a, unfolded mult.commute [of "Z b" "Z a"]]]
      by (simp add: on_jacobian_def)
  qed (use assms(3,4) Add_inf1 Add_inf2 in auto)
qed

lemma affine_not_inf: "ok a \<Longrightarrow> affine (X a) (Y a) (Z a) p \<Longrightarrow> \<not> inf a"
  by (auto simp: inf_Z affine_def)

lemma Dbl_tangent:
  "affine (X a) (Y a) (Z a) p \<Longrightarrow> tangent l p \<Longrightarrow>
    affine (X (Dbl c a)) (Y (Dbl c a)) (Z (Dbl c a)) (line_sum l p p)"
  using dbl_affine two by (simp add: Dbl_coords)

lemma Add_tangent:
  assumes "ok a" "ok b" "affine (X a) (Y a) (Z a) p" "affine (X b) (Y b) (Z b) p" "tangent l p"
  shows "affine (X (Add c a b)) (Y (Add c a b)) (Z (Add c a b)) (line_sum l p p)"
proof -
  have "X a * Z b ^ 2 = X b * Z a ^ 2" "Y a * Z b ^ 3 = Y b * Z a ^ 3"
    using assms(3,4) by (simp_all add: affine_def mult_ac)
  then have "Add c a b = Dbl c a"
    using Add_same affine_not_inf assms(1-4) by blast
  then show ?thesis using Dbl_tangent [OF assms(3,5)] by simp
qed

lemma Add_chord:
  assumes "ok a" "ok b" "affine (X a) (Y a) (Z a) p" "affine (X b) (Y b) (Z b) q" "chord l p q"
  shows "affine (X (Add c a b)) (Y (Add c a b)) (Z (Add c a b)) (line_sum l p q)"
proof -
  note aff = add_affine [OF assms(3-5) two]
  have "2 * (Z a * Z b) * (X b * Z a ^ 2 - X a * Z b ^ 2) dvd 1" using aff by (simp add: affine_def)
  then have "X a * Z b ^ 2 \<noteq> X b * Z a ^ 2" by auto
  then show ?thesis using Add_coords [of a b c] affine_not_inf assms(1-4) aff by simp
qed

lemma Add_opposite:
  assumes "ok a" "ok b" "affine (X a) (Y a) (Z a) (x, y)" "affine (X b) (Y b) (Z b) (x, - y)" "y dvd 1"
  shows "inf (Add c a b)"
proof -
  have z: "Z a dvd 1" "Z b dvd 1" and coords: "X a = x * Z a ^ 2" "Y a = y * Z a ^ 3"
      "X b = x * Z b ^ 2" "Y b = - y * Z b ^ 3"
    using assms(3,4) by (simp_all add: affine_def)
  have "2 * y * (Z a ^ 3 * Z b ^ 3) dvd 1" using z two assms(5) by (intro unit_mult unit_power)
  then have "2 * y * (Z a ^ 3 * Z b ^ 3) \<noteq> 0" by (metis dvd_0_left zero_neq_one)
  moreover have "Y a * Z b ^ 3 - Y b * Z a ^ 3 = 2 * y * (Z a ^ 3 * Z b ^ 3)"
    unfolding coords by (simp add: algebra_simps)
  ultimately have "Y a * Z b ^ 3 \<noteq> Y b * Z a ^ 3" by (metis diff_self)
  moreover have "X a * Z b ^ 2 = X b * Z a ^ 2" by (simp add: coords mult_ac)
  ultimately have "Z (Add c a b) = 0" using Add_coords [of a b c] affine_not_inf assms(1-4) by simp
  then show ?thesis using inf_Z ok_Add assms(1,2) by blast
qed

end

end
