(* ===== verification/Bn_Curve.thy ===== *)
theory Bn_Curve
  imports Bn_Jacobian
begin

text \<open>
  \<^verbatim>\<open>crypto/bn256/google/curve.go\<close>: the points of G1 in Jacobian coordinates with unreduced
  integers, and the methods that compute with them.  The interpretation \<open>g1\<close> of the contract
  \<open>jacobian\<close> carries the laws of the formulas over to the code.
\<close>

section \<open>Points\<close>

record curvePoint =
  cx :: int
  cy :: int
  cz :: int
  ct :: int

definition curveB :: int where
  "curveB = 3"

definition curveGen :: curvePoint where
  "curveGen = \<lparr>cx = 1, cy = 2, cz = 1, ct = 1\<rparr>"

definition curve_IsOnCurve :: "curvePoint \<Rightarrow> bool" where
  "curve_IsOnCurve c =
     (let yy = cy c * cy c;
          xxx = cx c * cx c;
          xxx = xxx * cx c;
          yy = yy - xxx;
          yy = yy - curveB;
          yy = (if yy < 0 \<or> yy \<ge> P then yy mod P else yy)
      in yy = 0)"

definition curve_SetInfinity :: "curvePoint \<Rightarrow> curvePoint" where
  "curve_SetInfinity c = c\<lparr>cz := 0\<rparr>"

definition curve_IsInfinity :: "curvePoint \<Rightarrow> bool" where
  "curve_IsInfinity c \<longleftrightarrow> cz c = 0"

text \<open>
  The receiver \<open>c\<close> of \<^verbatim>\<open>Double\<close> and \<^verbatim>\<open>Add\<close> keeps its \<^verbatim>\<open>t\<close>.  \<^verbatim>\<open>Double\<close> reads \<^verbatim>\<open>a.y\<close> after it has
  written \<^verbatim>\<open>c.y\<close>, so the function describes calls whose receiver is not the operand.
\<close>

definition curve_Double :: "curvePoint \<Rightarrow> curvePoint \<Rightarrow> curvePoint" where
  "curve_Double c a =
     (let A = cx a * cx a mod P;
          B = cy a * cy a mod P;
          C = B * B mod P;
          t = cx a + B;
          t2 = t * t mod P;
          t = t2 - A;
          t2 = t - C;
          d = t2 + t2;
          t = A + A;
          e = t + A;
          f = e * e mod P;
          t = d + d;
          x = f - t;
          t = C + C;
          t2 = t + t;
          t = t2 + t2;
          y = d - x;
          t2 = e * y mod P;
          y = t2 - t;
          t = cy a * cz a mod P
      in c\<lparr>cx := x, cy := y, cz := t + t\<rparr>)"

definition curve_Add :: "curvePoint \<Rightarrow> curvePoint \<Rightarrow> curvePoint \<Rightarrow> curvePoint" where
  "curve_Add c a b =
     (if curve_IsInfinity a then b
      else if curve_IsInfinity b then a
      else
        (let z1z1 = cz a * cz a mod P;
             z2z2 = cz b * cz b mod P;
             u1 = cx a * z2z2 mod P;
             u2 = cx b * z1z1 mod P;
             t = cz b * z2z2 mod P;
             s1 = cy a * t mod P;
             t = cz a * z1z1 mod P;
             s2 = cy b * t mod P;
             h = u2 - u1;
             xEqual = (h = 0);
             t = h + h;
             i = t * t mod P;
             j = h * i mod P;
             t = s2 - s1;
             yEqual = (t = 0)
         in if xEqual \<and> yEqual then curve_Double c a
            else
              (let r = t + t;
                   v = u1 * i mod P;
                   t4 = r * r mod P;
                   t = v + v;
                   t6 = t4 - j;
                   x = t6 - t;
                   t = v - x;
                   t4 = s1 * j mod P;
                   t6 = t4 + t4;
                   t4 = r * t mod P;
                   y = t4 - t6;
                   t = cz a + cz b;
                   t4 = t * t mod P;
                   t = t4 - z1z1;
                   t4 = t - z2z2
               in c\<lparr>cx := x, cy := y, cz := t4 * h mod P\<rparr>)))"

text \<open>
  \<open>s\<close> and \<open>t\<close> are what the points taken from the pool hold at first; \<^verbatim>\<open>SetInfinity\<close> only
  clears \<^verbatim>\<open>z\<close>.
\<close>

definition curve_Mul :: "curvePoint \<Rightarrow> curvePoint \<Rightarrow> curvePoint \<Rightarrow> int \<Rightarrow> curvePoint" where
  "curve_Mul s t a scalar =
     fst (bit_loop
       (\<lambda>(s, t). (s, curve_Double t s))
       (\<lambda>(s, t). (curve_Add s t a, t))
       (\<lambda>(s, t). (t, t))
       scalar (BitLen scalar + 1) (curve_SetInfinity s, t))"

text \<open>The nil that \<^verbatim>\<open>ModInverse\<close> returns for a \<^verbatim>\<open>z\<close> without inverse makes the next call panic.\<close>

definition curve_MakeAffine :: "curvePoint \<Rightarrow> curvePoint option" where
  "curve_MakeAffine c =
     (if bits_is_one (cz c) then Some c
      else if curve_IsInfinity c then Some \<lparr>cx = 0, cy = 1, cz = 0, ct = 0\<rparr>
      else
        (case ModInverse (cz c) P of
           None \<Rightarrow> None
         | Some zInv \<Rightarrow>
             (let t = cy c * zInv mod P;
                  zInv2 = zInv * zInv mod P;
                  y = t * zInv2 mod P;
                  t = cx c * zInv2 mod P
              in Some \<lparr>cx = t, cy = y, cz = 1, ct = 1\<rparr>)))"

definition curve_Negative :: "curvePoint \<Rightarrow> curvePoint" where
  "curve_Negative a = \<lparr>cx = cx a, cy = - cy a, cz = cz a, ct = 0\<rparr>"

section \<open>The curve laws\<close>

text \<open>The \<^verbatim>\<open>z\<close> of the points the code builds: not negative, and zero if it is zero modulo \<open>P\<close>.\<close>

definition curve_ok :: "curvePoint \<Rightarrow> bool" where
  "curve_ok c \<longleftrightarrow> 0 \<le> cz c \<and> (cz c mod P = 0 \<longrightarrow> cz c = 0)"

definition on_curve :: "curvePoint \<Rightarrow> bool" where
  "on_curve c \<longleftrightarrow> on_jacobian (fp_of_int curveB) (fp_of_int (cx c)) (fp_of_int (cy c)) (fp_of_int (cz c))"

lemma fp_two: "(2 :: fp) dvd 1"
proof -
  have "fp_of_int (2 * ((P + 1) div 2)) = 1" by (simp add: fp_of_int_eq_1 P_def)
  then have "2 * fp_of_int ((P + 1) div 2) = (1 :: fp)"
    by (simp only: fp_of_int_hom fp_of_int_numeral)
  then show ?thesis by (metis dvd_triv_left)
qed

lemma curve_Double_coords:
  "fp_of_int (cx (curve_Double c a)) = dblX (fp_of_int (cx a)) (fp_of_int (cy a))"
  "fp_of_int (cy (curve_Double c a)) = dblY (fp_of_int (cx a)) (fp_of_int (cy a))"
  "fp_of_int (cz (curve_Double c a)) = 2 * fp_of_int (cy a) * fp_of_int (cz a)"
  by (simp_all add: curve_Double_def Let_def dblX_def dblY_def eval_nat_numeral fp_of_int_numeral algebra_simps)

text \<open>The normalised coordinates \<^verbatim>\<open>u1\<close>, \<^verbatim>\<open>s1\<close> (and with swapped arguments \<^verbatim>\<open>u2\<close>, \<^verbatim>\<open>s2\<close>) of \<^verbatim>\<open>Add\<close>.\<close>

definition curve_u :: "curvePoint \<Rightarrow> curvePoint \<Rightarrow> int" where
  "curve_u a b = cx a * (cz b * cz b mod P) mod P"

definition curve_s :: "curvePoint \<Rightarrow> curvePoint \<Rightarrow> int" where
  "curve_s a b = cy a * (cz b * (cz b * cz b mod P) mod P) mod P"

lemma curve_us:
  "fp_of_int (curve_u a b) = fp_of_int (cx a) * fp_of_int (cz b) ^ 2"
  "fp_of_int (curve_s a b) = fp_of_int (cy a) * fp_of_int (cz b) ^ 3"
  by (simp_all add: curve_u_def curve_s_def power2_eq_square power3_eq_cube mult.assoc)

lemma curve_us_eq:
  "curve_u b a - curve_u a b = 0 \<longleftrightarrow> fp_of_int (curve_u a b) = fp_of_int (curve_u b a)"
  "curve_s b a - curve_s a b = 0 \<longleftrightarrow> fp_of_int (curve_s a b) = fp_of_int (curve_s b a)"
proof -
  have m: "curve_u a b mod P = curve_u a b" "curve_s a b mod P = curve_s a b" for a b
    by (simp_all add: curve_u_def curve_s_def)
  show "curve_u b a - curve_u a b = 0 \<longleftrightarrow> fp_of_int (curve_u a b) = fp_of_int (curve_u b a)"
    "curve_s b a - curve_s a b = 0 \<longleftrightarrow> fp_of_int (curve_s a b) = fp_of_int (curve_s b a)"
    unfolding fp_of_int_eq m by auto
qed

lemma curve_Add_same:
  assumes "\<not> curve_IsInfinity a" "\<not> curve_IsInfinity b"
    "fp_of_int (curve_u a b) = fp_of_int (curve_u b a)" "fp_of_int (curve_s a b) = fp_of_int (curve_s b a)"
  shows "curve_Add c a b = curve_Double c a"
  using assms(1,2) curve_us_eq [of b a] assms(3,4)
  unfolding curve_Add_def Let_def curve_u_def [symmetric] curve_s_def [symmetric] by simp

lemma curve_Add_coords:
  assumes "\<not> curve_IsInfinity a" "\<not> curve_IsInfinity b"
    "\<not> (fp_of_int (curve_u a b) = fp_of_int (curve_u b a) \<and> fp_of_int (curve_s a b) = fp_of_int (curve_s b a))"
  defines "u1 \<equiv> fp_of_int (curve_u a b)" and "s1 \<equiv> fp_of_int (curve_s a b)"
    and "u2 \<equiv> fp_of_int (curve_u b a)" and "s2 \<equiv> fp_of_int (curve_s b a)"
  shows "fp_of_int (cx (curve_Add c a b)) = addX u1 s1 u2 s2"
    "fp_of_int (cy (curve_Add c a b)) = addY u1 s1 u2 s2"
    "fp_of_int (cz (curve_Add c a b)) = 2 * (fp_of_int (cz a) * fp_of_int (cz b)) * (u2 - u1)"
proof -
  have ne: "\<not> (curve_u b a - curve_u a b = 0 \<and> curve_s b a - curve_s a b = 0)"
    using assms(3) curve_us_eq [of b a] by auto
  show "fp_of_int (cx (curve_Add c a b)) = addX u1 s1 u2 s2"
    "fp_of_int (cy (curve_Add c a b)) = addY u1 s1 u2 s2"
    "fp_of_int (cz (curve_Add c a b)) = 2 * (fp_of_int (cz a) * fp_of_int (cz b)) * (u2 - u1)"
    using assms(1,2)
    unfolding curve_Add_def Let_def curve_u_def [symmetric] curve_s_def [symmetric] if_not_P [OF ne]
    by (simp_all add: u1_def s1_def u2_def s2_def addX_def addY_def eval_nat_numeral fp_of_int_numeral algebra_simps)
qed

lemma two_mod_P: "0 \<le> t \<Longrightarrow> t < P \<Longrightarrow> (t + t) mod P = 0 \<Longrightarrow> t = 0"
proof -
  assume t: "0 \<le> t" "t < P" "(t + t) mod P = 0"
  then obtain q where q: "t + t = P * q" by (metis dvdE mod_eq_0_iff_dvd)
  have lt: "P * q < P * 2" and ge: "P * 0 \<le> P * q" using t unfolding q [symmetric] by simp_all
  have "q < 2" "0 \<le> q" using lt ge by (simp_all only: mult_less_cancel_left_pos mult_le_cancel_left_pos P_pos(1))
  moreover have "q \<noteq> 1"
  proof
    assume "q = 1"
    then have "even P" using q by (metis even_add mult.right_neutral)
    then show False by (simp add: P_def)
  qed
  ultimately have "q = 0" by simp
  then show "t = 0" using q by simp
qed

lemma curve_ok_Double: "curve_ok (curve_Double c a)"
  using two_mod_P [of "cy a * cz a mod P"] by (auto simp: curve_ok_def curve_Double_def Let_def)

lemma curve_ok_mod: "curve_ok (c\<lparr>cx := x, cy := y, cz := n mod P\<rparr>)"
  by (simp add: curve_ok_def)

lemma curve_ok_Add: "curve_ok a \<Longrightarrow> curve_ok b \<Longrightarrow> curve_ok (curve_Add c a b)"
  unfolding curve_Add_def Let_def by (simp only: curve_ok_mod curve_ok_Double simp_thms split: if_split)

interpretation g1: jacobian "\<lambda>c. fp_of_int (cx c)" "\<lambda>c. fp_of_int (cy c)" "\<lambda>c. fp_of_int (cz c)"
  "fp_of_int curveB" curve_IsInfinity curve_ok curve_Double curve_Add
proof unfold_locales
  fix p :: curvePoint
  assume "curve_ok p"
  then show "curve_IsInfinity p = (fp_of_int (cz p) = 0)"
    by (auto simp: curve_ok_def curve_IsInfinity_def fp_of_int_eq_0)
qed (simp_all add: fp_two curve_Double_coords curve_Add_same curve_Add_coords curve_ok_Double curve_ok_Add curve_us,
     simp_all add: curve_Add_def)

definition curve_affine :: "curvePoint \<Rightarrow> fp \<times> fp \<Rightarrow> bool" where
  "curve_affine c p \<longleftrightarrow> affine (fp_of_int (cx c)) (fp_of_int (cy c)) (fp_of_int (cz c)) p"

section \<open>Every operation stays on the curve\<close>

definition curve_valid :: "curvePoint \<Rightarrow> bool" where
  "curve_valid c \<longleftrightarrow> curve_ok c \<and> (curve_IsInfinity c \<or> on_curve c)"

lemma curve_valid_Double: "curve_valid a \<Longrightarrow> curve_valid (curve_Double c a)"
  using g1.Dbl_valid [of a c] curve_ok_Double by (auto simp: curve_valid_def on_curve_def)

lemma curve_valid_Add: "curve_valid a \<Longrightarrow> curve_valid b \<Longrightarrow> curve_valid (curve_Add c a b)"
  using g1.Add_valid [of a b c] curve_ok_Add by (auto simp: curve_valid_def on_curve_def)

lemma curve_valid_Infinity: "curve_valid (curve_SetInfinity c)"
  by (simp add: curve_valid_def curve_ok_def curve_IsInfinity_def curve_SetInfinity_def)

lemma curve_valid_Negative: "curve_valid a \<Longrightarrow> curve_valid (curve_Negative a)"
  by (auto simp: curve_valid_def curve_ok_def curve_IsInfinity_def on_curve_def on_jacobian_def curve_Negative_def)

lemma curve_valid_Mul:
  assumes "curve_valid a"
  shows "curve_valid (curve_Mul s t a k)"
  unfolding curve_Mul_def
  by (rule bit_loop_inv [where I = "\<lambda>x. curve_valid (fst x)" and J = "\<lambda>x. curve_valid (snd x)"])
    (auto simp: curve_valid_Infinity curve_valid_Double curve_valid_Add [OF _ assms])

text \<open>Where \<^verbatim>\<open>z\<close> has an inverse, \<^verbatim>\<open>MakeAffine\<close> returns the affine coordinates.\<close>

lemma curve_MakeAffine_affine:
  assumes "affine (fp_of_int (cx c)) (fp_of_int (cy c)) (fp_of_int (cz c)) p" "curve_ok c"
  shows "\<exists>c'. curve_MakeAffine c = Some c' \<and> cz c' = 1 \<and> fp_of_int (cx c') = fst p \<and> fp_of_int (cy c') = snd p"
proof (cases "cz c = 1")
  case True
  then show ?thesis using assms by (simp add: curve_MakeAffine_def bits_is_one_def affine_def)
next
  case False
  have ok: "0 \<le> cz c" using assms(2) by (simp add: curve_ok_def)
  obtain w where w: "fp_of_int w * fp_of_int (cz c) = 1"
    using assms(1) by (metis affine_def dvdE fp_cases mult.commute)
  then have "w * cz c mod P = 1 mod P" by (metis fp_of_int_eq fp_of_int_hom(3,6))
  then obtain v where v: "ModInverse (cz c) P = Some v" using ModInverse_exists [of P w "cz c"] by auto
  have vz: "fp_of_int v * fp_of_int (cz c) = 1"
    using ModInverse_Some(1) [OF v] by (metis P_pos(1) fp_of_int_eq fp_of_int_hom(3,6))
  have "cz c \<noteq> 0" using w by auto
  then have ma: "curve_MakeAffine c = Some \<lparr>cx = cx c * (v * v mod P) mod P,
      cy = (cy c * v mod P) * (v * v mod P) mod P, cz = 1, ct = 1\<rparr>"
    using False ok v by (simp add: curve_MakeAffine_def bits_is_one_def curve_IsInfinity_def Let_def)
  let ?v = "fp_of_int v" and ?z = "fp_of_int (cz c)"
  have "fst p * ?z ^ 2 * (?v * ?v) = fst p * (?v * ?z) * (?v * ?z)"
    "snd p * ?z ^ 3 * ?v * (?v * ?v) = snd p * (?v * ?z) * (?v * ?z) * (?v * ?z)"
    by (simp_all add: power2_eq_square power3_eq_cube mult_ac)
  then show ?thesis using assms(1) unfolding vz by (simp add: ma affine_def)
qed

lemma curve_MakeAffine_infinity:
  "curve_IsInfinity c \<Longrightarrow> curve_MakeAffine c = Some \<lparr>cx = 0, cy = 1, cz = 0, ct = 0\<rparr>"
  by (simp add: curve_MakeAffine_def curve_IsInfinity_def bits_is_one_def)

lemma curve_IsOnCurve_iff:
  "curve_IsOnCurve c \<longleftrightarrow> fp_of_int (cy c) ^ 2 = fp_of_int (cx c) ^ 3 + fp_of_int curveB"
proof -
  have "curve_IsOnCurve c \<longleftrightarrow> (cy c * cy c - cx c * cx c * cx c - curveB) mod P = 0"
    by (auto simp: curve_IsOnCurve_def Let_def)
  also have "\<dots> \<longleftrightarrow> fp_of_int (cy c * cy c - cx c * cx c * cx c - curveB) = 0"
    by (simp only: fp_of_int_eq_0)
  also have "\<dots> \<longleftrightarrow> fp_of_int (cy c) ^ 2 = fp_of_int (cx c) ^ 3 + fp_of_int curveB"
    by (auto simp: power2_eq_square power3_eq_cube algebra_simps)
  finally show ?thesis .
qed

lemma curve_valid_MakeAffine:
  assumes "curve_valid c" "curve_MakeAffine c = Some c'"
  shows "curve_valid c' \<and> (cz c' = 1 \<or> curve_IsInfinity c')"
proof -
  consider "cz c = 1" | "curve_IsInfinity c" | "cz c \<noteq> 1" "\<not> curve_IsInfinity c" by blast
  then show ?thesis
  proof cases
    case 3
    have ok: "curve_ok c" "0 \<le> cz c" using assms(1) by (simp_all add: curve_valid_def curve_ok_def)
    then obtain v where v: "ModInverse (cz c) P = Some v"
      using 3 assms(2) by (auto simp: curve_MakeAffine_def bits_is_one_def split: option.splits)
    have "fp_of_int v * fp_of_int (cz c) = 1"
      using ModInverse_Some(1) [OF v] by (metis P_pos(1) fp_of_int_eq fp_of_int_hom(3,6))
    then obtain p where p: "affine (fp_of_int (cx c)) (fp_of_int (cy c)) (fp_of_int (cz c)) p"
      using affine_inverse by blast
    have c': "cz c' = 1" "fp_of_int (cx c') = fst p" "fp_of_int (cy c') = snd p"
      using curve_MakeAffine_affine [OF p ok(1)] assms(2) by auto
    have "on_curve c" using assms(1) 3 by (simp add: curve_valid_def)
    then show ?thesis using affine_on_jacobian [OF p] c'
      by (simp add: curve_valid_def curve_ok_def on_curve_def on_jacobian_def)
  qed (use assms in \<open>auto simp: curve_MakeAffine_def bits_is_one_def curve_IsInfinity_def curve_valid_def curve_ok_def\<close>)
qed

lemma curve_valid_Gen: "curve_valid curveGen"
  by (simp add: curve_valid_def curve_ok_def curveGen_def on_curve_def on_jacobian_def curveB_def
      fp_of_int_numeral P_def)

section \<open>Properties\<close>





text \<open>
  \<^verbatim>\<open>c.Double(c)\<close>: the operand's \<^verbatim>\<open>y\<close> is read after it has been overwritten.  \<^verbatim>\<open>Add\<close> makes this
  call when receiver and operands are one point, as in \<^verbatim>\<open>e.Add(e, e)\<close>.
\<close>

definition curve_Double_self :: "curvePoint \<Rightarrow> curvePoint" where
  "curve_Double_self c =
     (let r = curve_Double c c;
          t = cy r * cz c mod P
      in r\<lparr>cz := t + t\<rparr>)"

text \<open>
  C40: doubling the generator in place leaves a point that is not on the curve.
\<close>

theorem curve_Double_self_invalid:
  "curve_valid curveGen \<and> \<not> curve_valid (curve_Double_self curveGen)"
proof -
  have r: "curve_Double curveGen curveGen = \<lparr>cx = -23, cy = -11, cz = 4, ct = 1\<rparr>"
    by (simp add: curve_Double_def curveGen_def Let_def P_def)
  have self: "curve_Double_self curveGen = \<lparr>cx = -23, cy = -11, cz = 2 * (P - 11), ct = 1\<rparr>"
    by (simp add: curve_Double_self_def r Let_def) (simp add: curveGen_def P_def)
  have "2 * (P - 11) = -22 + 2 * P" by simp
  then have z: "fp_of_int (2 * (P - 11)) = fp_of_int (-22)" by (simp only: fp_of_int_eq mod_mult_self1)
  have "(-11) ^ 2 mod P \<noteq> ((-23) ^ 3 + 3 * (-22) ^ 6) mod P" by (simp add: P_def)
  then have "\<not> on_curve (curve_Double_self curveGen)"
    unfolding self on_curve_def on_jacobian_def curvePoint.simps z curveB_def
    by (simp only: fp_of_int_eq not_False_eq_True flip: fp_of_int_hom(1,3) fp_of_int_power)
  then show ?thesis using curve_valid_Gen self by (simp add: curve_valid_def curve_IsInfinity_def P_def)
qed

end
