(* ===== verification/Bn_Twist.thy ===== *)
theory Bn_Twist
  imports Bn_Curve
begin

text \<open>
  \<^verbatim>\<open>crypto/bn256/google/twist.go\<close>: the points of G2, in Jacobian coordinates over \<^verbatim>\<open>gfP2\<close>.  The
  interpretation \<open>g2\<close> of the contract \<open>jacobian\<close> gives them the laws that \<open>g1\<close> gives the points of
  \<^verbatim>\<open>curve.go\<close>.
\<close>

section \<open>Points\<close>

record twistPoint =
  tx :: gfP2
  ty :: gfP2
  tz :: gfP2
  tt :: gfP2

definition twistB :: gfP2 where
  "twistB =
     \<lparr>x2 = 266929791119991161246907387137283842545076965332900288569378510910307636690,
      y2 = 19485874751759354771024239261021720505790618469301721065564631296452457478373\<rparr>"

definition twistGen :: twistPoint where
  "twistGen =
     \<lparr>tx = \<lparr>x2 = 11559732032986387107991004021392285783925812861821192530917403151452391805634,
            y2 = 10857046999023057135944570762232829481370756359578518086990519993285655852781\<rparr>,
      ty = \<lparr>x2 = 4082367875863433681332203403145435568316851327593401208105741076214120093531,
            y2 = 8495653923123431417604973247489272438418190587263600148770280649306958101930\<rparr>,
      tz = \<lparr>x2 = 0, y2 = 1\<rparr>,
      tt = \<lparr>x2 = 0, y2 = 1\<rparr>\<rparr>"

definition twist_SetInfinity :: "twistPoint \<Rightarrow> twistPoint" where
  "twist_SetInfinity c = c\<lparr>tz := gfP2_SetZero\<rparr>"

definition twist_IsInfinity :: "twistPoint \<Rightarrow> bool" where
  "twist_IsInfinity c = gfP2_IsZero (tz c)"

definition twist_Double :: "twistPoint \<Rightarrow> twistPoint \<Rightarrow> twistPoint" where
  "twist_Double c a =
     (let A = gfP2_Square (tx a);
          B = gfP2_Square (ty a);
          C = gfP2_Square B;
          t = gfP2_Add (tx a) B;
          t2 = gfP2_Square t;
          t = gfP2_Sub t2 A;
          t2 = gfP2_Sub t C;
          d = gfP2_Add t2 t2;
          t = gfP2_Add A A;
          e = gfP2_Add t A;
          f = gfP2_Square e;
          t = gfP2_Add d d;
          x = gfP2_Sub f t;
          t = gfP2_Add C C;
          t2 = gfP2_Add t t;
          t = gfP2_Add t2 t2;
          y = gfP2_Sub d x;
          t2 = gfP2_Mul e y;
          y = gfP2_Sub t2 t;
          t = gfP2_Mul (ty a) (tz a)
      in c\<lparr>tx := x, ty := y, tz := gfP2_Add t t\<rparr>)"

definition twist_Add :: "twistPoint \<Rightarrow> twistPoint \<Rightarrow> twistPoint \<Rightarrow> twistPoint" where
  "twist_Add c a b =
     (if twist_IsInfinity a then b
      else if twist_IsInfinity b then a
      else
        (let z1z1 = gfP2_Square (tz a);
             z2z2 = gfP2_Square (tz b);
             u1 = gfP2_Mul (tx a) z2z2;
             u2 = gfP2_Mul (tx b) z1z1;
             t = gfP2_Mul (tz b) z2z2;
             s1 = gfP2_Mul (ty a) t;
             t = gfP2_Mul (tz a) z1z1;
             s2 = gfP2_Mul (ty b) t;
             h = gfP2_Sub u2 u1;
             xEqual = gfP2_IsZero h;
             t = gfP2_Add h h;
             i = gfP2_Square t;
             j = gfP2_Mul h i;
             t = gfP2_Sub s2 s1;
             yEqual = gfP2_IsZero t
         in if xEqual \<and> yEqual then twist_Double c a
            else
              (let r = gfP2_Add t t;
                   v = gfP2_Mul u1 i;
                   t4 = gfP2_Square r;
                   t = gfP2_Add v v;
                   t6 = gfP2_Sub t4 j;
                   x = gfP2_Sub t6 t;
                   t = gfP2_Sub v x;
                   t4 = gfP2_Mul s1 j;
                   t6 = gfP2_Add t4 t4;
                   t4 = gfP2_Mul r t;
                   y = gfP2_Sub t4 t6;
                   t = gfP2_Add (tz a) (tz b);
                   t4 = gfP2_Square t;
                   t = gfP2_Sub t4 z1z1;
                   t4 = gfP2_Sub t z2z2
               in c\<lparr>tx := x, ty := y, tz := gfP2_Mul t4 h\<rparr>)))"

definition twist_Mul :: "twistPoint \<Rightarrow> twistPoint \<Rightarrow> twistPoint \<Rightarrow> int \<Rightarrow> twistPoint" where
  "twist_Mul s t a scalar =
     fst (bit_loop
       (\<lambda>(s, t). (s, twist_Double t s))
       (\<lambda>(s, t). (twist_Add s t a, t))
       (\<lambda>(s, t). (t, t))
       scalar (BitLen scalar + 1) (twist_SetInfinity s, t))"

definition twist_MakeAffine :: "int \<Rightarrow> twistPoint \<Rightarrow> twistPoint" where
  "twist_MakeAffine stale c =
     (if gfP2_IsOne (tz c) then c
      else if twist_IsInfinity c then
        \<lparr>tx = gfP2_SetZero, ty = gfP2_SetOne, tz = gfP2_SetZero, tt = gfP2_SetZero\<rparr>
      else
        (let zInv = gfP2_Invert stale (tz c);
             t = gfP2_Mul (ty c) zInv;
             zInv2 = gfP2_Square zInv;
             y = gfP2_Mul t zInv2;
             t = gfP2_Mul (tx c) zInv2
         in \<lparr>tx = t, ty = y, tz = gfP2_SetOne, tt = gfP2_SetOne\<rparr>))"

definition twist_Negative :: "twistPoint \<Rightarrow> twistPoint" where
  "twist_Negative a = \<lparr>tx = tx a, ty = gfP2_Sub gfP2_SetZero (ty a), tz = tz a, tt = gfP2_SetZero\<rparr>"

text \<open>
  \<^verbatim>\<open>IsOnCurve\<close> also tests that the point has order \<^verbatim>\<open>Order\<close>; \<open>s\<close> and \<open>t\<close> are the recycled points
  the multiplication starts from.
\<close>

definition twist_IsOnCurve :: "twistPoint \<Rightarrow> twistPoint \<Rightarrow> twistPoint \<Rightarrow> bool" where
  "twist_IsOnCurve s t c =
     (let yy = gfP2_Square (ty c);
          xxx = gfP2_Square (tx c);
          xxx = gfP2_Mul xxx (tx c);
          yy = gfP2_Sub yy xxx;
          yy = gfP2_Sub yy twistB;
          yy = gfP2_Minimal yy
      in if x2 yy \<noteq> 0 \<or> y2 yy \<noteq> 0 then False
         else gfP2_IsZero (tz (twist_Mul s t c Order)))"

section \<open>The curve laws\<close>

definition twist_ok :: "twistPoint \<Rightarrow> bool" where
  "twist_ok c \<longleftrightarrow> 0 \<le> x2 (tz c) \<and> (x2 (tz c) mod P = 0 \<longrightarrow> x2 (tz c) = 0) \<and>
     0 \<le> y2 (tz c) \<and> (y2 (tz c) mod P = 0 \<longrightarrow> y2 (tz c) = 0)"

lemma abs2_eq_0: "abs2 a = 0 \<longleftrightarrow> x2 a mod P = 0 \<and> y2 a mod P = 0"
  by (simp add: abs2_def zero_fp2_def fp_of_int_eq_0)

lemma twist_ok_IsInfinity: "twist_ok c \<Longrightarrow> twist_IsInfinity c \<longleftrightarrow> abs2 (tz c) = 0"
  by (auto simp: twist_ok_def twist_IsInfinity_def gfP2_IsZero_def abs2_eq_0)

lemma scal2_numeral: "scal2 (numeral n) = numeral n"
proof (induction n)
  case One
  then show ?case by simp
next
  case (Bit0 n)
  have "scal2 (numeral n + numeral n) = scal2 (numeral n) + scal2 (numeral n)" by (simp add: scal2_def fp2_ops)
  then show ?case using Bit0 by (simp only: numeral_Bit0)
next
  case (Bit1 n)
  have "scal2 (numeral n + numeral n + 1) = scal2 (numeral n) + scal2 (numeral n) + scal2 1"
    by (simp add: scal2_def fp2_ops)
  then show ?case using Bit1 by (simp only: numeral_Bit1 scal2_hom(2))
qed

lemma fp2_two: "(2 :: fp2) dvd 1"
proof -
  obtain h where "(1 :: fp) = 2 * h" using fp_two by (rule dvdE)
  then have "(1 :: fp2) = 2 * scal2 h" by (metis scal2_hom scal2_numeral)
  then show ?thesis by (rule dvdI)
qed

lemma twist_Double_coords:
  "abs2 (tx (twist_Double c a)) = dblX (abs2 (tx a)) (abs2 (ty a))"
  "abs2 (ty (twist_Double c a)) = dblY (abs2 (tx a)) (abs2 (ty a))"
  "abs2 (tz (twist_Double c a)) = 2 * abs2 (ty a) * abs2 (tz a)"
  by (simp_all add: twist_Double_def Let_def gf_abs dblX_def dblY_def eval_nat_numeral algebra_simps)

definition twist_u :: "twistPoint \<Rightarrow> twistPoint \<Rightarrow> gfP2" where
  "twist_u a b = gfP2_Mul (tx a) (gfP2_Square (tz b))"

definition twist_s :: "twistPoint \<Rightarrow> twistPoint \<Rightarrow> gfP2" where
  "twist_s a b = gfP2_Mul (ty a) (gfP2_Mul (tz b) (gfP2_Square (tz b)))"

lemma twist_us:
  "abs2 (twist_u a b) = abs2 (tx a) * abs2 (tz b) ^ 2"
  "abs2 (twist_s a b) = abs2 (ty a) * abs2 (tz b) ^ 3"
  by (simp_all add: twist_u_def twist_s_def gf_abs power2_eq_square power3_eq_cube)

text \<open>Products are reduced, so their difference is zero exactly if they are equal.\<close>

lemma gfP2_Mul_diff_zero:
  "gfP2_IsZero (gfP2_Sub (gfP2_Mul a b) (gfP2_Mul c d)) \<longleftrightarrow> abs2 (gfP2_Mul c d) = abs2 (gfP2_Mul a b)"
proof -
  have m: "x2 (gfP2_Mul a b) mod P = x2 (gfP2_Mul a b)" "y2 (gfP2_Mul a b) mod P = y2 (gfP2_Mul a b)" for a b
    by (simp_all add: gfP2_Mul_def Let_def)
  show ?thesis unfolding gfP2_IsZero_def gfP2_Sub_def gfP2.simps abs2_def fp2.inject fp_of_int_eq m by auto
qed

lemma twist_us_eq:
  "gfP2_IsZero (gfP2_Sub (twist_u b a) (twist_u a b)) \<longleftrightarrow> abs2 (twist_u a b) = abs2 (twist_u b a)"
  "gfP2_IsZero (gfP2_Sub (twist_s b a) (twist_s a b)) \<longleftrightarrow> abs2 (twist_s a b) = abs2 (twist_s b a)"
  unfolding twist_u_def twist_s_def by (rule gfP2_Mul_diff_zero)+

lemma twist_Add_same:
  assumes "\<not> twist_IsInfinity a" "\<not> twist_IsInfinity b"
    "abs2 (twist_u a b) = abs2 (twist_u b a)" "abs2 (twist_s a b) = abs2 (twist_s b a)"
  shows "twist_Add c a b = twist_Double c a"
  using assms(1,2) twist_us_eq [of b a] assms(3,4)
  unfolding twist_Add_def Let_def twist_u_def [symmetric] twist_s_def [symmetric] by simp

lemma twist_Add_coords:
  assumes "\<not> twist_IsInfinity a" "\<not> twist_IsInfinity b"
    "\<not> (abs2 (twist_u a b) = abs2 (twist_u b a) \<and> abs2 (twist_s a b) = abs2 (twist_s b a))"
  defines "u1 \<equiv> abs2 (twist_u a b)" and "s1 \<equiv> abs2 (twist_s a b)"
    and "u2 \<equiv> abs2 (twist_u b a)" and "s2 \<equiv> abs2 (twist_s b a)"
  shows "abs2 (tx (twist_Add c a b)) = addX u1 s1 u2 s2"
    "abs2 (ty (twist_Add c a b)) = addY u1 s1 u2 s2"
    "abs2 (tz (twist_Add c a b)) = 2 * (abs2 (tz a) * abs2 (tz b)) * (u2 - u1)"
proof -
  have ne: "\<not> (gfP2_IsZero (gfP2_Sub (twist_u b a) (twist_u a b)) \<and> gfP2_IsZero (gfP2_Sub (twist_s b a) (twist_s a b)))"
    using assms(3) twist_us_eq [of b a] by auto
  show "abs2 (tx (twist_Add c a b)) = addX u1 s1 u2 s2"
    "abs2 (ty (twist_Add c a b)) = addY u1 s1 u2 s2"
    "abs2 (tz (twist_Add c a b)) = 2 * (abs2 (tz a) * abs2 (tz b)) * (u2 - u1)"
    using assms(1,2)
    unfolding twist_Add_def Let_def twist_u_def [symmetric] twist_s_def [symmetric] if_not_P [OF ne]
    by (simp_all add: gf_abs u1_def s1_def u2_def s2_def addX_def addY_def eval_nat_numeral algebra_simps)
qed

lemma twist_ok_Double: "twist_ok (twist_Double c a)"
proof -
  obtain m n where "gfP2_Mul (ty a) (tz a) = \<lparr>x2 = m mod P, y2 = n mod P\<rparr>" by (simp add: gfP2_Mul_def Let_def)
  then show ?thesis using two_mod_P [of "m mod P"] two_mod_P [of "n mod P"]
    by (auto simp: twist_ok_def twist_Double_def Let_def gfP2_Add_def)
qed

lemma twist_ok_Mul: "twist_ok (c\<lparr>tx := x, ty := y, tz := gfP2_Mul a b\<rparr>)"
  by (simp add: twist_ok_def gfP2_Mul_def Let_def)

lemma twist_ok_Add: "twist_ok a \<Longrightarrow> twist_ok b \<Longrightarrow> twist_ok (twist_Add c a b)"
  unfolding twist_Add_def Let_def by (simp only: twist_ok_Mul twist_ok_Double simp_thms split: if_split)

interpretation g2: jacobian "\<lambda>c. abs2 (tx c)" "\<lambda>c. abs2 (ty c)" "\<lambda>c. abs2 (tz c)"
  "abs2 twistB" twist_IsInfinity twist_ok twist_Double twist_Add
  by unfold_locales
    (simp_all add: fp2_two twist_ok_IsInfinity twist_Double_coords twist_Add_same twist_Add_coords twist_ok_Double
      twist_ok_Add twist_us, simp_all add: twist_Add_def)
section \<open>Every operation stays on the curve\<close>

definition on_twist :: "twistPoint \<Rightarrow> bool" where
  "on_twist c \<longleftrightarrow> on_jacobian (abs2 twistB) (abs2 (tx c)) (abs2 (ty c)) (abs2 (tz c))"

definition twist_affine :: "twistPoint \<Rightarrow> fp2 \<times> fp2 \<Rightarrow> bool" where
  "twist_affine c p \<longleftrightarrow> affine (abs2 (tx c)) (abs2 (ty c)) (abs2 (tz c)) p"

definition twist_valid :: "twistPoint \<Rightarrow> bool" where
  "twist_valid c \<longleftrightarrow> twist_ok c \<and> (twist_IsInfinity c \<or> on_twist c)"

lemma twist_valid_Double: "twist_valid a \<Longrightarrow> twist_valid (twist_Double c a)"
  using g2.Dbl_valid [of a c] twist_ok_Double by (auto simp: twist_valid_def on_twist_def)

lemma twist_valid_Add: "twist_valid a \<Longrightarrow> twist_valid b \<Longrightarrow> twist_valid (twist_Add c a b)"
  using g2.Add_valid [of a b c] twist_ok_Add by (auto simp: twist_valid_def on_twist_def)

lemma twist_valid_Infinity: "twist_valid (twist_SetInfinity c)"
  by (simp add: twist_valid_def twist_ok_def twist_IsInfinity_def twist_SetInfinity_def gfP2_SetZero_def gfP2_IsZero_def)

lemma twist_valid_Negative: "twist_valid a \<Longrightarrow> twist_valid (twist_Negative a)"
  by (auto simp: twist_valid_def twist_ok_def twist_IsInfinity_def on_twist_def on_jacobian_def twist_Negative_def gf_abs)

lemma twist_valid_Mul:
  assumes "twist_valid a"
  shows "twist_valid (twist_Mul s t a k)"
  unfolding twist_Mul_def
  by (rule bit_loop_inv [where I = "\<lambda>x. twist_valid (fst x)" and J = "\<lambda>x. twist_valid (snd x)"])
    (auto simp: twist_valid_Infinity twist_valid_Double twist_valid_Add [OF _ assms])

lemma twist_ok_IsOne: "twist_ok c \<Longrightarrow> gfP2_IsOne (tz c) \<Longrightarrow> abs2 (tz c) = 1"
  by (auto simp: twist_ok_def gfP2_IsOne_def bits_is_one_def abs2_def one_fp2_def split: if_splits)

lemma twist_MakeAffine_affine:
  assumes "twist_affine c p" "twist_ok c"
  shows "abs2 (tx (twist_MakeAffine stale c)) = fst p" "abs2 (ty (twist_MakeAffine stale c)) = snd p"
    "abs2 (tz (twist_MakeAffine stale c)) = 1"
proof -
  obtain w where w: "abs2 (tz c) * w = 1" using assms(1) by (metis affine_def dvdE twist_affine_def)
  have "abs2 (tx (twist_MakeAffine stale c)) = fst p \<and> abs2 (ty (twist_MakeAffine stale c)) = snd p \<and>
    abs2 (tz (twist_MakeAffine stale c)) = 1"
  proof (cases "gfP2_IsOne (tz c)")
    case True
    then show ?thesis using assms twist_ok_IsOne by (simp add: twist_MakeAffine_def twist_affine_def affine_def)
  next
    case False
    have "\<not> twist_IsInfinity c" using twist_ok_IsInfinity [OF assms(2)] w by auto
    moreover have "fst p * abs2 (tz c) ^ 2 * (w * w) = fst p * (abs2 (tz c) * w) * (abs2 (tz c) * w)"
      "snd p * abs2 (tz c) ^ 3 * w * (w * w) = snd p * (abs2 (tz c) * w) * (abs2 (tz c) * w) * (abs2 (tz c) * w)"
      by (simp_all add: power2_eq_square power3_eq_cube mult_ac)
    ultimately show ?thesis using False assms(1) unfolding w
      by (simp add: twist_MakeAffine_def Let_def gf_abs abs2_Invert [OF w] twist_affine_def affine_def)
  qed
  then show "abs2 (tx (twist_MakeAffine stale c)) = fst p" "abs2 (ty (twist_MakeAffine stale c)) = snd p"
    "abs2 (tz (twist_MakeAffine stale c)) = 1" by simp_all
qed

lemma twist_ok_MakeAffine: "twist_ok c \<Longrightarrow> twist_ok (twist_MakeAffine stale c)"
  by (auto simp: twist_MakeAffine_def Let_def twist_ok_def gfP2_SetZero_def gfP2_SetOne_def)

lemma twist_affineI: "w * abs2 (tz c) = 1 \<Longrightarrow> \<exists>p. twist_affine c p"
  unfolding twist_affine_def using affine_inverse by blast

lemma twist_valid_MakeAffine:
  assumes "twist_valid c" "twist_IsInfinity c \<or> abs2 (tz c) dvd 1"
  shows "twist_valid (twist_MakeAffine stale c)"
proof (cases "twist_IsInfinity c")
  case True
  then have "\<not> gfP2_IsOne (tz c)"
    by (auto simp: twist_IsInfinity_def gfP2_IsZero_def gfP2_IsOne_def bits_is_one_def)
  then show ?thesis using True
    by (simp add: twist_MakeAffine_def twist_valid_def twist_ok_def twist_IsInfinity_def gfP2_SetZero_def gfP2_IsZero_def)
next
  case False
  then obtain p where p: "twist_affine c p" using assms(2) twist_affineI by (metis dvdE mult.commute)
  have "on_twist c" "twist_ok c" using assms(1) False by (simp_all add: twist_valid_def)
  then show ?thesis
    using twist_MakeAffine_affine [OF p, of stale] affine_on_jacobian [OF p [unfolded twist_affine_def]]
      twist_ok_MakeAffine [of c stale]
    by (simp add: twist_valid_def on_twist_def on_jacobian_def)
qed

lemma twist_IsOnCurve_iff:
  "twist_IsOnCurve s t c \<longleftrightarrow>
     abs2 (ty c) ^ 2 = abs2 (tx c) ^ 3 + abs2 twistB \<and> twist_IsInfinity (twist_Mul s t c Order)"
proof -
  define e where "e = gfP2_Sub (gfP2_Sub (gfP2_Square (ty c)) (gfP2_Mul (gfP2_Square (tx c)) (tx c))) twistB"
  have "abs2 e = abs2 (ty c) ^ 2 - abs2 (tx c) ^ 3 - abs2 twistB"
    by (simp add: e_def gf_abs power2_eq_square power3_eq_cube)
  then have "abs2 e = 0 \<longleftrightarrow> abs2 (ty c) ^ 2 = abs2 (tx c) ^ 3 + abs2 twistB"
    by (metis add.commute diff_add_cancel diff_diff_eq diff_self)
  moreover have "twist_IsOnCurve s t c \<longleftrightarrow> abs2 e = 0 \<and> twist_IsInfinity (twist_Mul s t c Order)"
    using gfP2_IsZero_Minimal [of e]
    by (auto simp: twist_IsOnCurve_def Let_def e_def [symmetric] gfP2_IsZero_def twist_IsInfinity_def)
  ultimately show ?thesis by simp
qed

text \<open>The constant is \<open>3/\<xi>\<close>, and the generator is on the curve.\<close>

lemma xi_twistB: "xi * abs2 twistB = abs2 \<lparr>x2 = 0, y2 = 3\<rparr>"
  unfolding abs2_xi(1) by (rule abs2_mult_eqI [of _ _ _ 1 8]) (simp_all add: twistB_def P_def)

lemma twist_valid_Gen: "twist_valid twistGen"
proof -
  let ?xx = "\<lparr>x2 = 1837384903404616869280368109057824469904033017901941306968221631236329083166,
    y2 = 21740980388926906057426892996120422348616989628855161897682971020692097960281\<rparr>"
  let ?xxx = "\<lparr>x2 = 18731819480823831763230454102224971938956392180592755584362846046169105903289,
    y2 = 17325333118563567127851667797750321471171453547099705001540310225555311263340\<rparr>"
  let ?yy = "\<lparr>x2 = 18998749271943822924477361489362255781501469145925655872932224557079413539979,
    y2 = 14922964998483646676629501313514766888265760859103602404415903627362542533130\<rparr>"
  have xx: "abs2 (tx twistGen) * abs2 (tx twistGen) = abs2 ?xx"
    by (rule abs2_mult_eqI [of _ _ _
          11467759629048686117894849069235246766403203637883258795037926137579317846074
          "-719652793862314264003180062754339384390891005191370485917012582332181624172"])
      (simp_all add: twistGen_def P_def)
  have xxx: "abs2 ?xx * abs2 (tx twistGen) = abs2 ?xxx"
    by (rule abs2_mult_eqI [of _ _ _
          12393342091016911084624211557957971527515431206414711678262613052091343774217
          9813632369684871093633712214989803915475791572887658100852785874047213526619])
      (simp_all add: twistGen_def P_def)
  have yy: "abs2 (ty twistGen) * abs2 (ty twistGen) = abs2 ?yy"
    by (rule abs2_mult_eqI [of _ _ _
          3169042381637085631969340255475657347465997364048155542326807191678134711207
          2536083340843168943765111218252959982070198762835983662926263033120061560823])
      (simp_all add: twistGen_def P_def)
  have "abs2 ?xxx + abs2 twistB = abs2 (gfP2_Add ?xxx twistB)" by (simp add: gf_abs)
  also have "gfP2_Add ?xxx twistB = \<lparr>x2 = x2 ?yy, y2 = y2 ?yy + 1 * P\<rparr>"
    by (simp add: gfP2_Add_def twistB_def P_def)
  also have "abs2 \<dots> = abs2 ?yy" unfolding abs2_def gfP2.simps fp2.inject fp_of_int_eq by (simp only: mod_mult_self1)
  finally have "abs2 (ty twistGen) ^ 2 = abs2 (tx twistGen) ^ 3 + abs2 twistB"
    by (simp add: power2_eq_square power3_eq_cube xx xxx yy)
  moreover have "abs2 (tz twistGen) = 1" by (simp add: twistGen_def abs2_def one_fp2_def)
  ultimately have "on_twist twistGen" by (simp add: on_twist_def on_jacobian_def)
  moreover have "twist_ok twistGen" by (simp add: twist_ok_def twistGen_def P_def)
  ultimately show ?thesis by (simp add: twist_valid_def)
qed

section \<open>Properties\<close>



text \<open>
  On the twisted curve, too, Add follows the chord and tangent rules in affine
  coordinates, is infinity for opposite points, and has infinity as its neutral element.
\<close>

theorem twist_Add_group_law:
  assumes "twist_ok a" "twist_ok b" "twist_affine a p" "twist_affine b q" "twist_IsInfinity z"
  shows "(chord l p q \<longrightarrow> twist_affine (twist_Add c a b) (line_sum l p q)) \<and>
    (p = q \<and> tangent l p \<longrightarrow> twist_affine (twist_Add c a b) (line_sum l p q)) \<and>
    (fst q = fst p \<and> snd q = - snd p \<and> snd p dvd 1 \<longrightarrow> twist_IsInfinity (twist_Add c a b)) \<and>
    twist_Add c z b = b \<and> twist_Add c a z = a"
proof -
  note aff = assms(3,4) [unfolded twist_affine_def]
  have na: "\<not> twist_IsInfinity a" using g2.affine_not_inf [OF assms(1) aff(1)] .
  have "twist_IsInfinity (twist_Add c a b)" if "fst q = fst p" "snd q = - snd p" "snd p dvd 1"
    using g2.Add_opposite [of a b "fst p" "snd p" c] assms(1,2) aff that by (cases p, cases q) simp
  moreover have "twist_affine (twist_Add c a b) (line_sum l p q)" if "chord l p q"
    using g2.Add_chord [OF assms(1,2) aff that] by (simp add: twist_affine_def)
  moreover have "twist_affine (twist_Add c a b) (line_sum l p q)" if "p = q" "tangent l p"
    using g2.Add_tangent [OF assms(1,2) aff(1) _ that(2)] aff(2) that(1) by (simp add: twist_affine_def)
  ultimately show ?thesis using g2.Add_inf1 [OF assms(5)] g2.Add_inf2 [OF na assms(5)] by blast
qed

theorem twist_Add_group_law_witness:
  "twist_Add twistGen (twist_SetInfinity twistGen) twistGen = twistGen"
  using twist_Add_group_law [of twistGen twistGen "(abs2 (tx twistGen), abs2 (ty twistGen))"
      "(abs2 (tx twistGen), abs2 (ty twistGen))" "twist_SetInfinity twistGen" 0 twistGen]
    twist_valid_Gen
  by (simp add: twist_valid_def twist_affine_def affine_def twist_IsInfinity_def twist_SetInfinity_def
      gfP2_SetZero_def gfP2_IsZero_def) (simp add: twistGen_def abs2_def flip: one_fp2_def)

end
