(* ===== verification/Bn_Pairing.thy ===== *)
theory Bn_Pairing
  imports Bn_Twist
begin

text \<open>
  \<^verbatim>\<open>crypto/bn256/google/optate.go\<close>: the line functions, the Miller loop and the final
  exponentiation of the optimal Ate pairing.  The lemmas show which lines and points the loop
  works with and what the final exponentiation computes in the ring \<open>fp12\<close>.
\<close>

section \<open>Line functions\<close>

definition lineFunctionAdd :: "twistPoint \<Rightarrow> twistPoint \<Rightarrow> curvePoint \<Rightarrow> gfP2 \<Rightarrow> gfP2 \<times> gfP2 \<times> gfP2 \<times> twistPoint" where
  "lineFunctionAdd r p q r2 =
     (let B = gfP2_Mul (tx p) (tt r);
          D = gfP2_Add (ty p) (tz r);
          D = gfP2_Square D;
          D = gfP2_Sub D r2;
          D = gfP2_Sub D (tt r);
          D = gfP2_Mul D (tt r);
          H = gfP2_Sub B (tx r);
          I = gfP2_Square H;
          E = gfP2_Add I I;
          E = gfP2_Add E E;
          J = gfP2_Mul H E;
          L1 = gfP2_Sub D (ty r);
          L1 = gfP2_Sub L1 (ty r);
          V = gfP2_Mul (tx r) E;
          ox = gfP2_Square L1;
          ox = gfP2_Sub ox J;
          ox = gfP2_Sub ox V;
          ox = gfP2_Sub ox V;
          oz = gfP2_Add (tz r) H;
          oz = gfP2_Square oz;
          oz = gfP2_Sub oz (tt r);
          oz = gfP2_Sub oz I;
          t = gfP2_Sub V ox;
          t = gfP2_Mul t L1;
          t2 = gfP2_Mul (ty r) J;
          t2 = gfP2_Add t2 t2;
          oy = gfP2_Sub t t2;
          ot = gfP2_Square oz;
          t = gfP2_Add (ty p) oz;
          t = gfP2_Square t;
          t = gfP2_Sub t r2;
          t = gfP2_Sub t ot;
          t2 = gfP2_Mul L1 (tx p);
          t2 = gfP2_Add t2 t2;
          a = gfP2_Sub t2 t;
          c = gfP2_MulScalar oz (cy q);
          c = gfP2_Add c c;
          b = gfP2_SetZero;
          b = gfP2_Sub b L1;
          b = gfP2_MulScalar b (cx q);
          b = gfP2_Add b b
      in (a, b, c, \<lparr>tx = ox, ty = oy, tz = oz, tt = ot\<rparr>))"

definition lineFunctionDouble :: "twistPoint \<Rightarrow> curvePoint \<Rightarrow> gfP2 \<times> gfP2 \<times> gfP2 \<times> twistPoint" where
  "lineFunctionDouble r q =
     (let A = gfP2_Square (tx r);
          B = gfP2_Square (ty r);
          C = gfP2_Square B;
          D = gfP2_Add (tx r) B;
          D = gfP2_Square D;
          D = gfP2_Sub D A;
          D = gfP2_Sub D C;
          D = gfP2_Add D D;
          E = gfP2_Add A A;
          E = gfP2_Add E A;
          G = gfP2_Square E;
          ox = gfP2_Sub G D;
          ox = gfP2_Sub ox D;
          oz = gfP2_Add (ty r) (tz r);
          oz = gfP2_Square oz;
          oz = gfP2_Sub oz B;
          oz = gfP2_Sub oz (tt r);
          oy = gfP2_Sub D ox;
          oy = gfP2_Mul oy E;
          t = gfP2_Add C C;
          t = gfP2_Add t t;
          t = gfP2_Add t t;
          oy = gfP2_Sub oy t;
          ot = gfP2_Square oz;
          t = gfP2_Mul E (tt r);
          t = gfP2_Add t t;
          b = gfP2_SetZero;
          b = gfP2_Sub b t;
          b = gfP2_MulScalar b (cx q);
          a = gfP2_Add (tx r) E;
          a = gfP2_Square a;
          a = gfP2_Sub a A;
          a = gfP2_Sub a G;
          t = gfP2_Add B B;
          t = gfP2_Add t t;
          a = gfP2_Sub a t;
          c = gfP2_Mul oz (tt r);
          c = gfP2_Add c c;
          c = gfP2_MulScalar c (cy q)
      in (a, b, c, \<lparr>tx = ox, ty = oy, tz = oz, tt = ot\<rparr>))"

definition mulLine :: "gfP12 \<Rightarrow> gfP2 \<Rightarrow> gfP2 \<Rightarrow> gfP2 \<Rightarrow> gfP12" where
  "mulLine ret a b c =
     (let a2 = \<lparr>x6 = gfP2_SetZero, y6 = a, z6 = b\<rparr>;
          a2 = gfP6_Mul a2 (x12 ret);
          t3 = gfP6_MulScalar (y12 ret) c;
          t = gfP2_Add b c;
          t2 = \<lparr>x6 = gfP2_SetZero, y6 = a, z6 = t\<rparr>;
          rx = gfP6_Add (x12 ret) (y12 ret);
          ry = t3;
          rx = gfP6_Mul rx t2;
          rx = gfP6_Sub rx a2;
          rx = gfP6_Sub rx ry;
          a2 = gfP6_MulTau a2;
          ry = gfP6_Add ry a2
      in \<lparr>x12 = rx, y12 = ry\<rparr>)"

section \<open>The Miller loop\<close>

definition sixuPlus2NAF :: "int list" where
  "sixuPlus2NAF =
     [0, 0, 0, 1, 0, 1, 0, -1, 0, 0, 1, -1, 0, 0, 1, 0,
      0, 1, 1, 0, -1, 0, 0, 1, 0, -1, 0, 0, 0, 0, 1, 1,
      1, 0, 0, -1, 0, 0, 1, 0, 0, 0, 0, 0, -1, 0, 0, 1,
      1, 0, 0, -1, 0, 0, 0, 1, 1, 0, -1, 0, 0, 1, 0, 1, 1]"

text \<open>One round with index \<open>Suc j\<close> of \<^verbatim>\<open>for i := len(sixuPlus2NAF) - 1; i > 0; i--\<close>.\<close>

definition miller_round ::
  "twistPoint \<Rightarrow> twistPoint \<Rightarrow> curvePoint \<Rightarrow> gfP2 \<Rightarrow> nat \<Rightarrow> gfP12 \<times> twistPoint \<Rightarrow> gfP12 \<times> twistPoint" where
  "miller_round aAffine minusA bAffine r2 j s =
     (let (ret, r) = s;
          (a, b, c, newR) = lineFunctionDouble r bAffine;
          ret = (if Suc j \<noteq> length sixuPlus2NAF - 1 then gfP12_Square ret else ret);
          ret = mulLine ret a b c;
          r = newR
      in if sixuPlus2NAF ! j = 1 then
           (let (a, b, c, newR) = lineFunctionAdd r aAffine bAffine r2 in (mulLine ret a b c, newR))
         else if sixuPlus2NAF ! j = -1 then
           (let (a, b, c, newR) = lineFunctionAdd r minusA bAffine r2 in (mulLine ret a b c, newR))
         else (ret, r))"

fun miller_loop ::
  "twistPoint \<Rightarrow> twistPoint \<Rightarrow> curvePoint \<Rightarrow> gfP2 \<Rightarrow> nat \<Rightarrow> gfP12 \<times> twistPoint \<Rightarrow> gfP12 \<times> twistPoint" where
  "miller_loop aAffine minusA bAffine r2 0 s = s"
| "miller_loop aAffine minusA bAffine r2 (Suc j) s =
     miller_loop aAffine minusA bAffine r2 j (miller_round aAffine minusA bAffine r2 j s)"

text \<open>The two points the loop is followed by.\<close>

definition miller_q1 :: "twistPoint \<Rightarrow> twistPoint" where
  "miller_q1 aAffine =
     \<lparr>tx = gfP2_Mul (gfP2_Conjugate (tx aAffine)) xiToPMinus1Over3,
      ty = gfP2_Mul (gfP2_Conjugate (ty aAffine)) xiToPMinus1Over2,
      tz = gfP2_SetOne, tt = gfP2_SetOne\<rparr>"

definition miller_minusQ2 :: "twistPoint \<Rightarrow> twistPoint" where
  "miller_minusQ2 aAffine =
     \<lparr>tx = gfP2_MulScalar (tx aAffine) xiToPSquaredMinus1Over3,
      ty = ty aAffine, tz = gfP2_SetOne, tt = gfP2_SetOne\<rparr>"

text \<open>The result is None if \<^verbatim>\<open>MakeAffine\<close> panics.\<close>

definition miller :: "int \<Rightarrow> twistPoint \<Rightarrow> curvePoint \<Rightarrow> gfP12 option" where
  "miller stale q p =
     (let aAffine = twist_MakeAffine stale q in
      case curve_MakeAffine p of
        None \<Rightarrow> None
      | Some bAffine \<Rightarrow>
          (let minusA = twist_Negative aAffine;
               r2 = gfP2_Square (ty aAffine);
               (ret, r) = miller_loop aAffine minusA bAffine r2 (length sixuPlus2NAF - 1) (gfP12_SetOne, aAffine);
               q1 = miller_q1 aAffine;
               minusQ2 = miller_minusQ2 aAffine;
               r2 = gfP2_Square (ty q1);
               (a, b, c, newR) = lineFunctionAdd r q1 bAffine r2;
               ret = mulLine ret a b c;
               r = newR;
               r2 = gfP2_Square (ty minusQ2);
               (a, b, c, newR) = lineFunctionAdd r minusQ2 bAffine r2;
               ret = mulLine ret a b c
           in Some ret))"

section \<open>The final exponentiation\<close>

definition finalExponentiation :: "int \<Rightarrow> gfP12 \<Rightarrow> gfP12" where
  "finalExponentiation stale inp =
     (let t1 = \<lparr>x12 = gfP6_Negative (x12 inp), y12 = y12 inp\<rparr>;
          inv = gfP12_Invert stale inp;
          t1 = gfP12_Mul t1 inv;
          t2 = gfP12_FrobeniusP2 t1;
          t1 = gfP12_Mul t1 t2;
          fp = gfP12_Frobenius t1;
          fp2 = gfP12_FrobeniusP2 t1;
          fp3 = gfP12_Frobenius fp2;
          fu = gfP12_Exp t1 u;
          fu2 = gfP12_Exp fu u;
          fu3 = gfP12_Exp fu2 u;
          y3 = gfP12_Frobenius fu;
          fu2p = gfP12_Frobenius fu2;
          fu3p = gfP12_Frobenius fu3;
          y2 = gfP12_FrobeniusP2 fu2;
          y0 = gfP12_Mul fp fp2;
          y0 = gfP12_Mul y0 fp3;
          y1 = gfP12_Conjugate t1;
          y5 = gfP12_Conjugate fu2;
          y3 = gfP12_Conjugate y3;
          y4 = gfP12_Mul fu fu2p;
          y4 = gfP12_Conjugate y4;
          y6 = gfP12_Mul fu3 fu3p;
          y6 = gfP12_Conjugate y6;
          t0 = gfP12_Square y6;
          t0 = gfP12_Mul t0 y4;
          t0 = gfP12_Mul t0 y5;
          t1 = gfP12_Mul y3 y5;
          t1 = gfP12_Mul t1 t0;
          t0 = gfP12_Mul t0 y2;
          t1 = gfP12_Square t1;
          t1 = gfP12_Mul t1 t0;
          t1 = gfP12_Square t1;
          t0 = gfP12_Mul t1 y1;
          t1 = gfP12_Mul t1 y0;
          t0 = gfP12_Square t0;
          t0 = gfP12_Mul t0 t1
      in t0)"

definition optimalAte :: "int \<Rightarrow> twistPoint \<Rightarrow> curvePoint \<Rightarrow> gfP12 option" where
  "optimalAte stale a b =
     (case miller stale a b of
        None \<Rightarrow> None
      | Some e \<Rightarrow>
          (let ret = finalExponentiation stale e in
           Some (if twist_IsInfinity a \<or> curve_IsInfinity b then gfP12_SetOne else ret)))"

section \<open>What the line functions compute\<close>

definition line_point :: "gfP2 \<times> gfP2 \<times> gfP2 \<times> twistPoint \<Rightarrow> twistPoint" where
  "line_point l = snd (snd (snd l))"

text \<open>The cached \<^verbatim>\<open>t\<close> of a valid point is \<open>z\<^sup>2\<close>.\<close>

definition t_ok :: "twistPoint \<Rightarrow> bool" where
  "t_ok r \<longleftrightarrow> abs2 (tt r) = abs2 (tz r) ^ 2"

lemma lineFunctionDouble_point:
  assumes "t_ok r"
  shows "abs2 (tx (line_point (lineFunctionDouble r q))) = dblX (abs2 (tx r)) (abs2 (ty r))"
    "abs2 (ty (line_point (lineFunctionDouble r q))) = dblY (abs2 (tx r)) (abs2 (ty r))"
    "abs2 (tz (line_point (lineFunctionDouble r q))) = 2 * abs2 (ty r) * abs2 (tz r)"
    "t_ok (line_point (lineFunctionDouble r q))"
  using assms
  by (simp_all add: line_point_def lineFunctionDouble_def Let_def gf_abs t_ok_def dblX_def dblY_def
      eval_nat_numeral algebra_simps)

lemma lineFunctionAdd_point:
  assumes "t_ok r" "abs2 r2 = abs2 (ty p) ^ 2"
  defines "u2 \<equiv> abs2 (tx p) * abs2 (tz r) ^ 2" and "s2 \<equiv> abs2 (ty p) * abs2 (tz r) ^ 3"
  shows "abs2 (tx (line_point (lineFunctionAdd r p q r2))) = addX (abs2 (tx r)) (abs2 (ty r)) u2 s2"
    "abs2 (ty (line_point (lineFunctionAdd r p q r2))) = addY (abs2 (tx r)) (abs2 (ty r)) u2 s2"
    "abs2 (tz (line_point (lineFunctionAdd r p q r2))) = 2 * abs2 (tz r) * (u2 - abs2 (tx r))"
    "t_ok (line_point (lineFunctionAdd r p q r2))"
  using assms(1,2)
  by (simp_all add: line_point_def lineFunctionAdd_def Let_def gf_abs t_ok_def addX_def addY_def u2_def s2_def
      eval_nat_numeral algebra_simps)

lemma mulLine_abs:
  "abs12 (mulLine ret a b c) = abs12 ret * Fp12 (Fp6 0 (abs2 a) (abs2 b)) (scal6 (abs2 c))"
proof -
  let ?l = "Fp6 0 (abs2 a) (abs2 b)"
  have l: "abs6 \<lparr>x6 = gfP2_SetZero, y6 = a, z6 = b\<rparr> = ?l"
    "abs6 \<lparr>x6 = gfP2_SetZero, y6 = a, z6 = gfP2_Add b c\<rparr> = ?l + scal6 (abs2 c)"
    by (simp_all add: abs6_def gf_abs fp6_ops scal6_def)
  show ?thesis by (simp add: mulLine_def Let_def abs12_def gf_abs l fp12_ops algebra_simps)
qed

text \<open>
  The line as an affine function of the point \<open>(X, Y)\<close> of the twist: the coefficient \<open>a\<close> is
  constant, \<open>b\<close> and \<open>c\<close> are multiplied with the coordinates of \<open>q\<close>.
\<close>

lemma lineFunctionAdd_line:
  assumes "t_ok r" "abs2 r2 = abs2 (ty p) ^ 2" "lineFunctionAdd r p q r2 = (a, b, c, r')"
  shows "\<exists>l m. abs2 b = l * scal2 (fp_of_int (cx q)) \<and> abs2 c = m * scal2 (fp_of_int (cy q)) \<and>
    m = 2 * abs2 (tz r') \<and> abs2 a + l * abs2 (tx p) + m * abs2 (ty p) = 0 \<and>
    abs2 a * abs2 (tz r) ^ 3 + l * abs2 (tx r) * abs2 (tz r) + m * abs2 (ty r) = 0"
proof -
  let ?L = "2 * abs2 (ty p) * abs2 (tz r) ^ 3 - 2 * abs2 (ty r)"
  have z: "abs2 (tz r') = 2 * abs2 (tz r) * (abs2 (tx p) * abs2 (tz r) ^ 2 - abs2 (tx r))"
    using lineFunctionAdd_point(3) [OF assms(1,2), of q] assms(3) by (simp add: line_point_def)
  have bc: "abs2 b = (- 2 * ?L) * scal2 (fp_of_int (cx q))"
    "abs2 c = (2 * abs2 (tz r')) * scal2 (fp_of_int (cy q))"
    "abs2 a = 2 * ?L * abs2 (tx p) - 2 * abs2 (ty p) * abs2 (tz r')"
    using assms
    by (auto simp: lineFunctionAdd_def Let_def gf_abs t_ok_def eval_nat_numeral algebra_simps)
  have "abs2 a * abs2 (tz r) ^ 3 + (- 2 * ?L) * abs2 (tx r) * abs2 (tz r) + (2 * abs2 (tz r')) * abs2 (ty r) = 0"
    unfolding bc(3) z by (simp add: eval_nat_numeral algebra_simps)
  moreover have "abs2 a + (- 2 * ?L) * abs2 (tx p) + (2 * abs2 (tz r')) * abs2 (ty p) = 0"
    unfolding bc(3) by (simp add: algebra_simps)
  ultimately show ?thesis using bc(1,2) by blast
qed

lemma lineFunctionDouble_line:
  assumes "t_ok r" "lineFunctionDouble r q = (a, b, c, r')"
  shows "\<exists>l m. abs2 b = l * scal2 (fp_of_int (cx q)) \<and> abs2 c = m * scal2 (fp_of_int (cy q)) \<and>
    m = 2 * abs2 (tz r') * abs2 (tz r) ^ 2 \<and>
    abs2 a * abs2 (tz r) ^ 3 + l * abs2 (tx r) * abs2 (tz r) + m * abs2 (ty r) = 0 \<and>
    m * (3 * abs2 (tx r) ^ 2) + l * abs2 (tz r) * (2 * abs2 (ty r)) = 0"
proof -
  let ?x = "abs2 (tx r)" and ?y = "abs2 (ty r)" and ?z = "abs2 (tz r)"
  have z: "abs2 (tz r') = 2 * ?y * ?z"
    using lineFunctionDouble_point(3) [OF assms(1), of q] assms(2) by (simp add: line_point_def)
  have bc: "abs2 b = (- 6 * ?x ^ 2 * ?z ^ 2) * scal2 (fp_of_int (cx q))"
    "abs2 c = (2 * abs2 (tz r') * ?z ^ 2) * scal2 (fp_of_int (cy q))"
    "abs2 a = 6 * ?x ^ 3 - 4 * ?y ^ 2"
    using assms
    by (auto simp: lineFunctionDouble_def Let_def gf_abs t_ok_def eval_nat_numeral algebra_simps)
  have "abs2 a * ?z ^ 3 + (- 6 * ?x ^ 2 * ?z ^ 2) * ?x * ?z + (2 * abs2 (tz r') * ?z ^ 2) * ?y = 0"
    "(2 * abs2 (tz r') * ?z ^ 2) * (3 * ?x ^ 2) + (- 6 * ?x ^ 2 * ?z ^ 2) * ?z * (2 * ?y) = 0"
    unfolding bc(3) z by (simp_all add: eval_nat_numeral algebra_simps)
  then show ?thesis using bc(1,2) by blast
qed

section \<open>The points of the Miller loop\<close>

definition line_ok :: "twistPoint \<Rightarrow> bool" where
  "line_ok r \<longleftrightarrow> t_ok r \<and> on_twist r"

definition affine_on_twist :: "twistPoint \<Rightarrow> bool" where
  "affine_on_twist p \<longleftrightarrow> abs2 (ty p) ^ 2 = abs2 (tx p) ^ 3 + abs2 twistB"

lemma line_ok_Double: "line_ok r \<Longrightarrow> line_ok (line_point (lineFunctionDouble r q))"
  using lineFunctionDouble_point [of r q] dbl_on_curve [of "abs2 (ty r)" "abs2 (tx r)" "abs2 twistB" "abs2 (tz r)"]
  by (simp add: line_ok_def on_twist_def on_jacobian_def)

lemma line_ok_Add:
  assumes "line_ok r" "affine_on_twist p" "abs2 r2 = abs2 (ty p) ^ 2"
  shows "line_ok (line_point (lineFunctionAdd r p q r2))"
proof -
  let ?z = "abs2 (tz r)"
  have "(abs2 (ty p) * ?z ^ 3) ^ 2 = abs2 (ty p) ^ 2 * ?z ^ 6" by (simp add: power_mult_distrib flip: power_mult)
  also have "\<dots> = (abs2 (tx p) * ?z ^ 2) ^ 3 + abs2 twistB * ?z ^ 6"
    using assms(2) by (simp add: affine_on_twist_def power_mult_distrib distrib_right flip: power_mult)
  finally show ?thesis
    using add_on_curve [of "abs2 (ty r)" "abs2 (tx r)" "abs2 twistB" ?z "abs2 (ty p) * ?z ^ 3" "abs2 (tx p) * ?z ^ 2"]
      assms(1) lineFunctionAdd_point [of r r2 p q] assms(3)
    by (simp add: line_ok_def on_twist_def on_jacobian_def)
qed

lemma miller_round_ok:
  assumes "line_ok (snd s)" "affine_on_twist a" "affine_on_twist m"
    "abs2 r2 = abs2 (ty a) ^ 2" "abs2 r2 = abs2 (ty m) ^ 2"
  shows "line_ok (snd (miller_round a m b r2 j s))"
proof -
  note d = line_ok_Double [OF assms(1), of b]
  show ?thesis
    using d line_ok_Add [OF d assms(2,4), of b] line_ok_Add [OF d assms(3,5), of b]
    by (simp add: miller_round_def Let_def line_point_def case_prod_beta)
qed

lemma miller_loop_ok:
  assumes "affine_on_twist a" "affine_on_twist m" "abs2 r2 = abs2 (ty a) ^ 2" "abs2 r2 = abs2 (ty m) ^ 2"
  shows "line_ok (snd s) \<Longrightarrow> line_ok (snd (miller_loop a m b r2 n s))"
  by (induction n arbitrary: s) (simp_all add: miller_round_ok [OF _ assms])

lemma xi_unit: "xi dvd 1"
proof -
  have "xi * abs2 \<lparr>x2 = 14681138511599513868579906292550611339979233093309515871315818100066920017952,
      y2 = 21087453498479301738505683583845423561061080261299122796980902361914303298513\<rparr> = abs2 \<lparr>x2 = 0, y2 = 1\<rparr>"
    unfolding abs2_xi(1) by (rule abs2_mult_eqI [of _ _ _ 7 8]) (simp_all add: P_def)
  then show ?thesis by (metis abs2_ops(2) dvd_triv_left gfP2_SetOne_def)
qed

lemma conj2_scal: "conj2 (abs2 \<lparr>x2 = 0, y2 = n\<rparr>) = abs2 \<lparr>x2 = 0, y2 = n\<rparr>"
  by (simp add: abs2_def conj2_def)

lemma conj2_power: "conj2 (a ^ n) = conj2 a ^ n"
  by (induction n) simp_all

lemma conj2_twistB: "conj2 (abs2 twistB) * (k1 * k1 * k1) = abs2 twistB"
proof -
  have "xi * (conj2 (abs2 twistB) * (k1 * k1 * k1)) = conj2 (abs2 twistB) * (xi * (k1 * k1 * k1))"
    by (simp only: mult_ac)
  also have "\<dots> = conj2 (xi * abs2 twistB)" 
    unfolding k_eqs(4) by (simp add: mult.commute)
  also have "\<dots> = xi * abs2 twistB" by (simp only: xi_twistB conj2_scal)
  finally have eq: "xi * (conj2 (abs2 twistB) * (k1 * k1 * k1)) = xi * abs2 twistB" .
  obtain w where "w * xi = 1" using xi_unit by (metis dvdE mult.commute)
  then show ?thesis using arg_cong [OF eq, of "\<lambda>x. w * x"] by (metis mult.assoc mult_1)
qed

lemma miller_q1_ok: "affine_on_twist a \<Longrightarrow> affine_on_twist (miller_q1 a)"
proof -
  assume a: "affine_on_twist a"
  have "(conj2 (abs2 (ty a)) * (k6 * k1)) ^ 2 = conj2 (abs2 (ty a) ^ 2) * (k1 * k1 * k1)"
    by (simp add: conj2_power power_mult_distrib) (simp add: power2_eq_square mult_ac flip: k_eqs(1))
  also have "\<dots> = conj2 (abs2 (tx a)) ^ 3 * (k1 * k1 * k1) + conj2 (abs2 twistB) * (k1 * k1 * k1)"
    using a by (simp add: affine_on_twist_def conj2_power distrib_right)
  also have "\<dots> = (conj2 (abs2 (tx a)) * k1) ^ 3 + abs2 twistB"
    by (simp only: conj2_twistB power_mult_distrib) (simp add: power3_eq_cube)
  finally show ?thesis by (simp add: affine_on_twist_def miller_q1_def gf_abs k_eqs k1_def [symmetric])
qed

lemma miller_minusQ2_ok: "affine_on_twist a \<Longrightarrow> affine_on_twist (miller_minusQ2 a)"
proof -
  let ?s = "fp_of_int xiToPSquaredMinus1Over6" and ?c = "fp_of_int xiToPSquaredMinus1Over3"
  have "?c * ?c * ?c = (?s * ?c) * (?s * ?c)" using xi_square_relations(1) by (simp add: mult_ac)
  then have "?c * ?c * ?c = 1" using xi_square_relations(3) by simp
  then have "scal2 ?c ^ 3 = 1" by (metis power3_eq_cube scal2_hom)
  then show "affine_on_twist a \<Longrightarrow> affine_on_twist (miller_minusQ2 a)"
    by (simp add: affine_on_twist_def miller_minusQ2_def gf_abs power_mult_distrib)
qed

lemma sixuPlus2NAF_value: "foldr (\<lambda>d acc. d + 2 * acc) sixuPlus2NAF 0 = 6 * u + 2"
  by (simp add: sixuPlus2NAF_def u_def)

section \<open>The final exponentiation is multiplicative\<close>

text \<open>
  What \<^verbatim>\<open>finalExponentiation\<close> computes from an element \<open>x\<close> with inverse \<open>y\<close>, first the power that
  the conjugation and the Frobenius map give, then the rest.
\<close>

definition easy_part :: "fp12 \<Rightarrow> fp12 \<Rightarrow> fp12" where
  "easy_part x y = conj12 x * y * frobp2 (conj12 x * y)"

definition hard_part :: "fp12 \<Rightarrow> fp12" where
  "hard_part t =
     (let n = nat u; f = t ^ n; f2 = f ^ n; f3 = f2 ^ n;
          y6 = conj12 (f3 * frob12 f3); y4 = conj12 (f * frob12 f2);
          y5 = conj12 f2; y3 = conj12 (frob12 f); y2 = frobp2 f2;
          y1 = conj12 t; y0 = frob12 t * frobp2 t * frob12 (frobp2 t);
          t0 = y6 ^ 2 * y4 * y5;
          t1 = ((y3 * y5 * t0) ^ 2 * (t0 * y2)) ^ 2
      in (t1 * y1) ^ 2 * (t1 * y0))"

lemma u_nonneg: "0 \<le> u"
  by (simp add: u_def)

lemma finalExponentiation_abs:
  assumes "abs12 a * y = 1"
  shows "abs12 (finalExponentiation stale a) = hard_part (easy_part (abs12 a) y)"
proof -
  have c: "abs12 \<lparr>x12 = gfP6_Negative (x12 a), y12 = y12 a\<rparr> = conj12 (abs12 a)"
    by (simp add: abs12_def conj12_def gf_abs)
  show ?thesis
    by (simp add: finalExponentiation_def Let_def hard_part_def easy_part_def gf_abs c abs12_Invert [OF assms]
        abs12_Exp [OF u_nonneg] power2_eq_square mult.assoc)
qed

lemma easy_part_mult: "easy_part (x * x') (y * y') = easy_part x y * easy_part x' y'"
  by (simp add: easy_part_def mult_ac)

lemma power_hom: "frob12 (a ^ n) = frob12 a ^ n" "frobp2 (a ^ n) = frobp2 a ^ n" "conj12 (a ^ n) = conj12 a ^ n"
  by (induction n) simp_all

lemma hard_part_mult: "hard_part (s * t) = hard_part s * hard_part t"
  unfolding hard_part_def Let_def by (simp only: power_mult_distrib frob12_hom frobp2_hom conj12_hom mult_ac)

lemma hard_part_1: "hard_part 1 = 1"
  by (simp add: hard_part_def Let_def)

lemma easy_part_1: "easy_part 1 1 = 1"
  by (simp add: easy_part_def)

lemma finalExponentiation_hom:
  assumes "abs12 a dvd 1" "abs12 b dvd 1"
  shows "abs12 (finalExponentiation stale (gfP12_Mul a b)) =
    abs12 (finalExponentiation stale' a) * abs12 (finalExponentiation stale'' b)"
proof -
  obtain x y where xy: "abs12 a * x = 1" "abs12 b * y = 1" using assms by (metis dvdE)
  then have "abs12 (gfP12_Mul a b) * (x * y) = 1" by (simp add: gf_abs) (metis mult.assoc mult.left_commute mult_1)
  then show ?thesis using xy
    by (simp add: finalExponentiation_abs hard_part_mult easy_part_mult gf_abs flip: hard_part_mult)
qed

section \<open>Properties\<close>

text \<open>
  C29: the Miller loop only works on points of the twisted curve whose cached \<open>t\<close> is \<open>z\<^sup>2\<close>.
  Started at an affine point of the curve, it keeps this of its running point through every
  round, and the points Q1 and -Q2 of the last two steps are on the curve as well.
\<close>

theorem miller_points_on_twist:
  assumes "affine_on_twist a" "abs2 (tz a) = 1" "abs2 (tt a) = 1"
  shows "line_ok (snd (miller_loop a (twist_Negative a) b (gfP2_Square (ty a)) n (ret, a))) \<and>
    affine_on_twist (miller_q1 a) \<and> affine_on_twist (miller_minusQ2 a)"
proof -
  have "line_ok a" using assms by (simp add: line_ok_def t_ok_def on_twist_def on_jacobian_def affine_on_twist_def)
  moreover have "affine_on_twist (twist_Negative a)"
    using assms(1) by (simp add: affine_on_twist_def twist_Negative_def gf_abs)
  ultimately show ?thesis
    using miller_loop_ok [of a "twist_Negative a" "gfP2_Square (ty a)" "(ret, a)"] assms(1)
      miller_q1_ok miller_minusQ2_ok
    by (simp add: gf_abs power2_eq_square twist_Negative_def)
qed

theorem miller_points_on_twist_witness:
  "line_ok (snd (miller_loop twistGen (twist_Negative twistGen) curveGen (gfP2_Square (ty twistGen)) 64
     (gfP12_SetOne, twistGen)))"
proof -
  have z: "abs2 (tz twistGen) = 1" "abs2 (tt twistGen) = 1"
    by (simp_all add: twistGen_def abs2_def flip: one_fp2_def)
  have "\<not> twist_IsInfinity twistGen" by (simp add: twist_IsInfinity_def gfP2_IsZero_def twistGen_def)
  then have "affine_on_twist twistGen"
    using twist_valid_Gen z(1) by (simp add: twist_valid_def on_twist_def on_jacobian_def affine_on_twist_def)
  then show ?thesis using miller_points_on_twist [OF _ z] by blast
qed

text \<open>
  C30: the line functions return the right lines.  The line of lineFunctionAdd (its
  coefficients scaled by the coordinates of the point it is evaluated at) passes through both
  points that are added, the one of lineFunctionDouble through the point that is doubled, with
  the slope of the tangent; and mulLine multiplies with the value of the line.
\<close>

theorem line_functions_correct:
  assumes "t_ok r" "abs2 r2 = abs2 (ty p) ^ 2"
    and "lineFunctionAdd r p q r2 = (a, b, c, r')" and "lineFunctionDouble r q = (a', b', c', r'')"
  shows "(\<exists>l m. abs2 b = l * scal2 (fp_of_int (cx q)) \<and> abs2 c = m * scal2 (fp_of_int (cy q)) \<and>
      m = 2 * abs2 (tz r') \<and> abs2 a + l * abs2 (tx p) + m * abs2 (ty p) = 0 \<and>
      abs2 a * abs2 (tz r) ^ 3 + l * abs2 (tx r) * abs2 (tz r) + m * abs2 (ty r) = 0) \<and>
    (\<exists>l m. abs2 b' = l * scal2 (fp_of_int (cx q)) \<and> abs2 c' = m * scal2 (fp_of_int (cy q)) \<and>
      m = 2 * abs2 (tz r'') * abs2 (tz r) ^ 2 \<and>
      abs2 a' * abs2 (tz r) ^ 3 + l * abs2 (tx r) * abs2 (tz r) + m * abs2 (ty r) = 0 \<and>
      m * (3 * abs2 (tx r) ^ 2) + l * abs2 (tz r) * (2 * abs2 (ty r)) = 0) \<and>
    abs12 (mulLine ret a b c) = abs12 ret * Fp12 (Fp6 0 (abs2 a) (abs2 b)) (scal6 (abs2 c))"
  using lineFunctionAdd_line [OF assms(1-3)] lineFunctionDouble_line [OF assms(1,4)] mulLine_abs by blast

theorem line_functions_correct_witness:
  "\<exists>a b c r' l m. lineFunctionAdd twistGen (twist_Negative twistGen) curveGen (gfP2_Square (ty twistGen)) = (a, b, c, r') \<and>
     m = 2 * abs2 (tz r') \<and> abs2 a + l * abs2 (tx twistGen) - m * abs2 (ty twistGen) = 0"
proof -
  have t: "t_ok twistGen" by (simp add: t_ok_def twistGen_def abs2_def flip: one_fp2_def)
  have r2: "abs2 (gfP2_Square (ty twistGen)) = abs2 (ty (twist_Negative twistGen)) ^ 2"
    by (simp add: twist_Negative_def gf_abs power2_eq_square)
  obtain a b c r' where l: "lineFunctionAdd twistGen (twist_Negative twistGen) curveGen (gfP2_Square (ty twistGen)) = (a, b, c, r')"
    by (metis prod_cases4)
  obtain a' b' c' r'' where d: "lineFunctionDouble twistGen curveGen = (a', b', c', r'')" by (metis prod_cases4)
  from line_functions_correct [OF t r2 l d, of gfP12_SetOne] l show ?thesis
    by (auto simp: twist_Negative_def gf_abs)
qed

text \<open>
  The final exponentiation is multiplicative on invertible elements, whatever integers
  the pool hands out: the exponentiation of a product is the product of the exponentiations.
\<close>

theorem finalExponentiation_mult:
  assumes "abs12 a dvd 1" "abs12 b dvd 1"
  shows "abs12 (finalExponentiation stale (gfP12_Mul a b)) =
    abs12 (finalExponentiation stale' a) * abs12 (finalExponentiation stale'' b)"
  using assms by (rule finalExponentiation_hom)

theorem finalExponentiation_mult_witness:
  "abs12 (finalExponentiation 0 (gfP12_Mul gfP12_SetOne gfP12_SetOne)) =
    abs12 (finalExponentiation 1 gfP12_SetOne) * abs12 (finalExponentiation 2 gfP12_SetOne)"
  by (rule finalExponentiation_mult) (simp_all add: gf_abs)

end
