(* ===== verification/Bn_Api.thy ===== *)
theory Bn_Api
  imports Bn_Pairing
begin

text \<open>
  \<^verbatim>\<open>crypto/bn256/google/bn256.go\<close>: the groups G1, G2 and GT with their byte encodings, the
  pairing, the check of a product of pairings, and the pool of integers.
\<close>

section \<open>Bytes\<close>

declare be_fixed_numeral [simp del]

datatype bn_error = NotEnoughData | ExceedsModulus | MalformedPoint

text \<open>
  \<^verbatim>\<open>copy(ret[n-len(b):], b)\<close>: the bytes \<open>b\<close> right before position \<open>n\<close>; a negative offset panics.
\<close>

definition copy_before :: "bytes \<Rightarrow> nat \<Rightarrow> bytes \<Rightarrow> bytes option" where
  "copy_before ret n b =
     (if length b \<le> n \<and> n \<le> length ret
      then Some (take (n - length b) ret @ b @ drop n ret) else None)"

text \<open>The coordinates, one after the other, each in a field of 32 bytes.\<close>

fun copy_coords :: "bytes \<Rightarrow> nat \<Rightarrow> int list \<Rightarrow> bytes option" where
  "copy_coords ret i [] = Some ret"
| "copy_coords ret i (v # vs) =
     (case copy_before ret (Suc i * 32) (be_bytes (nat v)) of
        None \<Rightarrow> None
      | Some ret' \<Rightarrow> copy_coords ret' (Suc i) vs)"

definition coord :: "bytes \<Rightarrow> nat \<Rightarrow> int" where
  "coord m i = int (be_val (take 32 (drop (i * 32) m)))"

definition be_fields :: "int list \<Rightarrow> bytes" where
  "be_fields vs = concat (map (\<lambda>v. be_fixed 32 (nat v)) vs)"

lemma length_fields [simp]: "length (be_fields vs) = length vs * 32"
  by (induction vs) (simp_all add: be_fields_def)

lemma copy_coords_fields:
  assumes "\<forall>v \<in> set vs. 0 \<le> v \<and> v < 2 ^ 256"
  shows "copy_coords (be_fields us @ replicate (length vs * 32) 0) (length us) vs = Some (be_fields (us @ vs))"
  using assms
proof (induction vs arbitrary: us)
  case (Cons v vs)
  have lt: "nat v < 256 ^ 32" using Cons.prems by (simp add: nat_less_iff)
  then have len: "length (be_bytes (nat v)) \<le> 32" by (simp only: length_be_bytes_le)
  let ?ret = "be_fields us @ replicate (length (v # vs) * 32) 0"
  have sp: "replicate (32 + length vs * 32) 0 = replicate (32 - length (be_bytes (nat v))) 0 @
      replicate (length (be_bytes (nat v))) 0 @ replicate (length vs * 32) (0 :: byte)"
    using len by (simp flip: replicate_add)
  have "copy_before ?ret (Suc (length us) * 32) (be_bytes (nat v)) =
      Some (be_fields us @ be_fixed 32 (nat v) @ replicate (length vs * 32) 0)"
    using len by (simp add: copy_before_def sp be_fixed_pad [OF iffD2 [OF length_be_bytes_le lt]])
  then show ?case using Cons.IH [of "us @ [v]"] Cons.prems by (simp add: be_fields_def)
qed simp

lemma coord_fields:
  assumes "i < length vs" "\<forall>v \<in> set vs. 0 \<le> v \<and> v < 2 ^ 256"
  shows "coord (be_fields vs) i = vs ! i"
  using assms
proof (induction vs arbitrary: i)
  case (Cons v vs)
  show ?case
  proof (cases i)
    case 0
    have "nat v < 256 ^ 32" using Cons.prems by (simp add: nat_less_iff)
    then have "be_val (be_fixed 32 (nat v)) = nat v" by (simp only: be_val_be_fixed mod_less)
    then show ?thesis using 0 Cons.prems by (simp add: coord_def be_fields_def)
  next
    case (Suc j)
    have "drop (i * 32) (be_fields (v # vs)) = drop (j * 32) (be_fields vs)" by (simp add: be_fields_def Suc)
    then show ?thesis using Cons Suc by (simp add: coord_def)
  qed
qed simp

lemma be_fields_coords: "length m = n * 32 \<Longrightarrow> be_fields (map (coord m) [0..<n]) = m"
proof (induction n arbitrary: m)
  case (Suc n)
  let ?m = "take (n * 32) m"
  have "coord ?m i = coord m i" if "i < n" for i
  proof -
    have "take 32 (drop (i * 32) ?m) = take 32 (drop (i * 32) m)"
      using that by (simp add: drop_take min_def)
    then show ?thesis by (simp add: coord_def)
  qed
  then have eq: "map (coord ?m) [0..<n] = map (coord m) [0..<n]" by simp
  have "be_fields (map (coord ?m) [0..<n]) = ?m" using Suc.prems by (intro Suc.IH) simp
  then have "be_fields (map (coord m) [0..<n]) = ?m" by (simp only: eq)
  moreover have "be_fixed 32 (nat (coord m n)) = drop (n * 32) m"
    using be_fixed_be_val [of "drop (n * 32) m" 32] Suc.prems by (simp add: coord_def)
  ultimately show ?case by (simp add: be_fields_def)
qed (simp add: be_fields_def)

section \<open>G1\<close>

text \<open>
  A group element is the point it points to; a nil pointer is replaced by a fresh point,
  \<open>newCurvePoint\<close>.  The points of a fresh pool are fresh, too.
\<close>

definition newCurvePoint :: curvePoint where
  "newCurvePoint = \<lparr>cx = 0, cy = 0, cz = 0, ct = 0\<rparr>"

definition G1_ScalarBaseMult :: "int \<Rightarrow> curvePoint" where
  "G1_ScalarBaseMult k = curve_Mul newCurvePoint newCurvePoint curveGen k"

definition G1_ScalarMult :: "curvePoint \<Rightarrow> int \<Rightarrow> curvePoint" where
  "G1_ScalarMult a k = curve_Mul newCurvePoint newCurvePoint a k"

definition G1_Add :: "curvePoint option \<Rightarrow> curvePoint \<Rightarrow> curvePoint \<Rightarrow> curvePoint" where
  "G1_Add e a b = curve_Add (case e of None \<Rightarrow> newCurvePoint | Some p \<Rightarrow> p) a b"

definition G1_Neg :: "curvePoint \<Rightarrow> curvePoint" where
  "G1_Neg a = curve_Negative a"

text \<open>\<^verbatim>\<open>Marshal\<close> also leaves its receiver in affine form; None is a panic.\<close>

definition G1_Marshal :: "curvePoint \<Rightarrow> (bytes \<times> curvePoint) option" where
  "G1_Marshal p =
     (if curve_IsInfinity p then Some (replicate (32 * 2) 0, p)
      else
        (case curve_MakeAffine p of
           None \<Rightarrow> None
         | Some p' \<Rightarrow>
             map_option (\<lambda>ret. (ret, p')) (copy_coords (replicate (32 * 2) 0) 0 [cx p' mod P, cy p' mod P])))"

text \<open>A failing \<^verbatim>\<open>Unmarshal\<close> leaves the coordinates it has read in the receiver.\<close>

definition G1_Unmarshal :: "curvePoint option \<Rightarrow> bytes \<Rightarrow> (bn_error + bytes) \<times> curvePoint option" where
  "G1_Unmarshal e m =
     (if length m \<noteq> 2 * 32 then (Inl NotEnoughData, e)
      else
        (let p = (case e of None \<Rightarrow> newCurvePoint | Some p \<Rightarrow> p);
             p = p\<lparr>cx := coord m 0\<rparr>
         in if cx p \<ge> P then (Inl ExceedsModulus, Some p)
            else
              (let p = p\<lparr>cy := coord m 1\<rparr>
               in if cy p \<ge> P then (Inl ExceedsModulus, Some p)
                  else if cx p = 0 \<and> cy p = 0 then (Inr (drop (2 * 32) m), Some (p\<lparr>cy := 1, cz := 0, ct := 0\<rparr>))
                  else
                    (let p = p\<lparr>cz := 1, ct := 1\<rparr>
                     in if \<not> curve_IsOnCurve p then (Inl MalformedPoint, Some p)
                        else (Inr (drop (2 * 32) m), Some p)))))"

section \<open>G2\<close>

definition newTwistPoint :: twistPoint where
  "newTwistPoint = \<lparr>tx = gfP2_SetZero, ty = gfP2_SetZero, tz = gfP2_SetZero, tt = gfP2_SetZero\<rparr>"

definition G2_ScalarBaseMult :: "int \<Rightarrow> twistPoint" where
  "G2_ScalarBaseMult k = twist_Mul newTwistPoint newTwistPoint twistGen k"

definition G2_ScalarMult :: "twistPoint \<Rightarrow> int \<Rightarrow> twistPoint" where
  "G2_ScalarMult a k = twist_Mul newTwistPoint newTwistPoint a k"

definition G2_Add :: "twistPoint option \<Rightarrow> twistPoint \<Rightarrow> twistPoint \<Rightarrow> twistPoint" where
  "G2_Add e a b = twist_Add (case e of None \<Rightarrow> newTwistPoint | Some p \<Rightarrow> p) a b"

text \<open>The nil pool hands out fresh integers, so a failed inversion finds zero.\<close>

definition G2_Marshal :: "twistPoint \<Rightarrow> (bytes \<times> twistPoint) option" where
  "G2_Marshal p =
     (if twist_IsInfinity p then Some (replicate (32 * 4) 0, p)
      else
        (let p' = twist_MakeAffine 0 p
         in map_option (\<lambda>ret. (ret, p'))
              (copy_coords (replicate (32 * 4) 0) 0
                [x2 (tx p') mod P, y2 (tx p') mod P, x2 (ty p') mod P, y2 (ty p') mod P])))"

text \<open>\<open>s\<close> and \<open>t\<close> are the recycled points that the order test of \<^verbatim>\<open>IsOnCurve\<close> computes in.\<close>

definition G2_Unmarshal ::
  "twistPoint \<Rightarrow> twistPoint \<Rightarrow> twistPoint option \<Rightarrow> bytes \<Rightarrow> (bn_error + bytes) \<times> twistPoint option" where
  "G2_Unmarshal s t e m =
     (if length m \<noteq> 4 * 32 then (Inl NotEnoughData, e)
      else
        (let p = (case e of None \<Rightarrow> newTwistPoint | Some p \<Rightarrow> p);
             p = p\<lparr>tx := (tx p)\<lparr>x2 := coord m 0\<rparr>\<rparr>
         in if x2 (tx p) \<ge> P then (Inl ExceedsModulus, Some p)
         else
        (let p = p\<lparr>tx := (tx p)\<lparr>y2 := coord m 1\<rparr>\<rparr>
         in if y2 (tx p) \<ge> P then (Inl ExceedsModulus, Some p)
         else
        (let p = p\<lparr>ty := (ty p)\<lparr>x2 := coord m 2\<rparr>\<rparr>
         in if x2 (ty p) \<ge> P then (Inl ExceedsModulus, Some p)
         else
        (let p = p\<lparr>ty := (ty p)\<lparr>y2 := coord m 3\<rparr>\<rparr>
         in if y2 (ty p) \<ge> P then (Inl ExceedsModulus, Some p)
         else if x2 (tx p) = 0 \<and> y2 (tx p) = 0 \<and> x2 (ty p) = 0 \<and> y2 (ty p) = 0 then
           (Inr (drop (4 * 32) m), Some (p\<lparr>ty := gfP2_SetOne, tz := gfP2_SetZero, tt := gfP2_SetZero\<rparr>))
         else
        (let p = p\<lparr>tz := gfP2_SetOne, tt := gfP2_SetOne\<rparr>
         in if \<not> twist_IsOnCurve s t p then (Inl MalformedPoint, Some p)
            else (Inr (drop (4 * 32) m), Some p)))))))"

section \<open>GT\<close>

definition GT_ScalarMult :: "gfP12 \<Rightarrow> int \<Rightarrow> gfP12" where
  "GT_ScalarMult a k = gfP12_Exp a k"

definition GT_Add :: "gfP12 \<Rightarrow> gfP12 \<Rightarrow> gfP12" where
  "GT_Add a b = gfP12_Mul a b"

definition GT_Neg :: "gfP12 \<Rightarrow> gfP12" where
  "GT_Neg a = gfP12_Invert 0 a"

definition GT_Marshal :: "gfP12 \<Rightarrow> (bytes \<times> gfP12) option" where
  "GT_Marshal n =
     (let n = gfP12_Minimal n
      in map_option (\<lambda>ret. (ret, n))
           (copy_coords (replicate (32 * 12) 0) 0
             [x2 (x6 (x12 n)), y2 (x6 (x12 n)), x2 (y6 (x12 n)), y2 (y6 (x12 n)), x2 (z6 (x12 n)), y2 (z6 (x12 n)),
              x2 (x6 (y12 n)), y2 (x6 (y12 n)), x2 (y6 (y12 n)), y2 (y6 (y12 n)), x2 (z6 (y12 n)), y2 (z6 (y12 n))]))"

definition GT_Unmarshal :: "bytes \<Rightarrow> gfP12 option" where
  "GT_Unmarshal m =
     (if length m \<noteq> 12 * 32 then None
      else Some
        \<lparr>x12 = \<lparr>x6 = \<lparr>x2 = coord m 0, y2 = coord m 1\<rparr>, y6 = \<lparr>x2 = coord m 2, y2 = coord m 3\<rparr>,
                 z6 = \<lparr>x2 = coord m 4, y2 = coord m 5\<rparr>\<rparr>,
         y12 = \<lparr>x6 = \<lparr>x2 = coord m 6, y2 = coord m 7\<rparr>, y6 = \<lparr>x2 = coord m 8, y2 = coord m 9\<rparr>,
                 z6 = \<lparr>x2 = coord m 10, y2 = coord m 11\<rparr>\<rparr>\<rparr>)"

section \<open>Pairings\<close>

definition Pair :: "int \<Rightarrow> curvePoint \<Rightarrow> twistPoint \<Rightarrow> gfP12 option" where
  "Pair stale g1 g2 = optimalAte stale g2 g1"

text \<open>
  The loop of \<^verbatim>\<open>PairingCheck\<close>; \<open>stale i\<close> is what the \<open>i\<close>-th Miller loop finds in the pool.  A
  missing \<^verbatim>\<open>b[i]\<close> is noticed only when \<^verbatim>\<open>a[i]\<close> is not infinity, and panics.
\<close>

fun PairingLoop :: "(nat \<Rightarrow> int) \<Rightarrow> nat \<Rightarrow> gfP12 \<Rightarrow> curvePoint list \<Rightarrow> twistPoint list \<Rightarrow> gfP12 option" where
  "PairingLoop stale i acc [] bs = Some acc"
| "PairingLoop stale i acc (a # as) bs =
     (if curve_IsInfinity a then PairingLoop stale (Suc i) acc as (drop 1 bs)
      else
        (case bs of
           [] \<Rightarrow> None
         | b # bs' \<Rightarrow>
             (if twist_IsInfinity b then PairingLoop stale (Suc i) acc as bs'
              else
                (case miller (stale i) b a of
                   None \<Rightarrow> None
                 | Some m \<Rightarrow> PairingLoop stale (Suc i) (gfP12_Mul acc m) as bs'))))"

definition PairingCheck :: "(nat \<Rightarrow> int) \<Rightarrow> int \<Rightarrow> curvePoint list \<Rightarrow> twistPoint list \<Rightarrow> bool option" where
  "PairingCheck stale stale' a b =
     map_option (\<lambda>acc. gfP12_IsOne (finalExponentiation stale' acc)) (PairingLoop stale 0 gfP12_SetOne a b)"

section \<open>The pool\<close>

record bnPool =
  bns :: "int list"
  pcount :: int

text \<open>A nil pool is None.  \<^verbatim>\<open>Get\<close> takes the last integer that was put back, or a fresh zero.\<close>

definition pool_Get :: "bnPool option \<Rightarrow> int \<times> bnPool option" where
  "pool_Get pool =
     (case pool of
        None \<Rightarrow> (0, None)
      | Some p \<Rightarrow>
          (let p = p\<lparr>pcount := pcount p + 1\<rparr>
           in if bns p = [] then (0, Some p)
              else (last (bns p), Some (p\<lparr>bns := butlast (bns p)\<rparr>))))"

definition pool_Put :: "int \<Rightarrow> bnPool option \<Rightarrow> bnPool option" where
  "pool_Put bn pool =
     (case pool of
        None \<Rightarrow> None
      | Some p \<Rightarrow> Some \<lparr>bns = bns p @ [bn], pcount = pcount p - 1\<rparr>)"

definition pool_Count :: "bnPool \<Rightarrow> int" where
  "pool_Count pool = pcount pool"

section \<open>Marshalling\<close>

lemma P_bound: "P < 2 ^ 256"
  by (simp add: P_def)

lemma mod_P_bounds: "0 \<le> n mod P" "n mod P < 2 ^ 256"
proof -
  show "0 \<le> n mod P" by simp
  have "n mod P < P" by simp
  then show "n mod P < 2 ^ 256" using P_bound by (rule less_trans)
qed

lemma copy_coords_all:
  assumes "\<forall>v \<in> set vs. 0 \<le> v \<and> v < 2 ^ 256" "n = 32 * length vs"
  shows "copy_coords (replicate n 0) 0 vs = Some (be_fields vs)"
  using copy_coords_fields [OF assms(1), of "[]"] assms(2) by (simp add: be_fields_def mult.commute)

declare copy_coords.simps [simp del]

lemma coord_nonneg: "0 \<le> coord m i"
  by (simp add: coord_def)

lemma coord_range: "coord m i < P \<Longrightarrow> coord m i mod P = coord m i"
  using coord_nonneg [of m i] by simp

lemma be_fields_zero: "be_fields (replicate n 0) = replicate (32 * n) 0"
proof -
  have "be_fixed k 0 = replicate k 0" for k
    by (induction k) (simp_all add: replicate_append_same)
  then show ?thesis by (induction n) (simp_all add: be_fields_def replicate_add)
qed

lemma upt_numeral: "[0..<2] = [0, 1 :: nat]" "[0..<4] = [0, 1, 2, 3 :: nat]"
  by (simp_all add: upt_rec)

lemma G1_Unmarshal_Inr:
  assumes "G1_Unmarshal e m = (Inr r, p')"
  shows "r = []" and "\<exists>p p''. p' = Some p \<and> curve_valid p \<and> G1_Marshal p = Some (m, p'')"
proof -
  let ?x = "coord m 0" and ?y = "coord m 1"
  have len: "length m = 2 * 32" and x: "?x < P" and y: "?y < P"
    using assms by (auto simp: G1_Unmarshal_def Let_def split: if_splits)
  show "r = []" using assms len by (auto simp: G1_Unmarshal_def Let_def split: if_splits)
  have rng: "coord m 0 mod P = coord m 0" "coord m (Suc 0) mod P = coord m (Suc 0)"
    using coord_range x y by simp_all
  have m: "be_fields [?x, ?y] = m" using be_fields_coords [OF len] by (simp add: upt_numeral)
  show "\<exists>p p''. p' = Some p \<and> curve_valid p \<and> G1_Marshal p = Some (m, p'')"
  proof (cases "?x = 0 \<and> ?y = 0")
    case True
    then obtain p where p: "p' = Some p" "curve_IsInfinity p"
      using assms len x y by (auto simp: G1_Unmarshal_def Let_def curve_IsInfinity_def)
    moreover have "m = replicate (32 * 2) 0" using m be_fields_zero [of 2] True by (simp add: numeral_2_eq_2)
    ultimately show ?thesis by (simp add: G1_Marshal_def curve_valid_def curve_ok_def curve_IsInfinity_def)
  next
    case False
    then obtain p where p: "p' = Some p" "cx p = ?x" "cy p = ?y" "cz p = 1" "curve_IsOnCurve p"
      using assms len x y by (auto simp: G1_Unmarshal_def Let_def split: if_splits)
    have "curve_valid p"
      using p(4,5) by (simp add: curve_valid_def curve_ok_def on_curve_def on_jacobian_def curve_IsOnCurve_iff)
    moreover have "copy_coords (replicate (32 * 2) 0) 0 [?x, ?y] = Some m"
      using m mod_P_bounds(2) [of ?x] mod_P_bounds(2) [of ?y]
      by (subst copy_coords_all) (simp_all only: coord_range x y coord_nonneg list.set ball_simps simp_thms, simp_all)
    then have "G1_Marshal p = Some (m, p)" using p
      by (simp add: G1_Marshal_def curve_IsInfinity_def curve_MakeAffine_def bits_is_one_def rng)
    ultimately show ?thesis using p(1) by blast
  qed
qed

lemma G1_Marshal_Unmarshal_infinity:
  assumes "curve_IsInfinity p"
  shows "\<exists>q. G1_Unmarshal e (replicate (32 * 2) 0) = (Inr [], Some q) \<and> curve_IsInfinity q"
proof -
  have "coord (replicate (32 * 2) 0) i = 0" if "i < 2" for i
    using coord_fields [of i "replicate 2 0"] that by (simp add: be_fields_zero)
  from this [of 0] this [of 1] show ?thesis
    by (simp add: G1_Unmarshal_def Let_def curve_IsInfinity_def not_le)
qed

lemma G1_Marshal_affine:
  assumes "curve_valid p" "curve_affine p xy"
  shows "\<exists>m p' q. G1_Marshal p = Some (m, p') \<and> G1_Unmarshal e m = (Inr [], Some q) \<and> curve_affine q xy \<and> cz q = 1"
proof -
  have ok: "curve_ok p" using assms(1) by (simp add: curve_valid_def)
  note aff = assms(2) [unfolded curve_affine_def]
  have ninf: "\<not> curve_IsInfinity p" using g1.affine_not_inf [OF ok aff] .
  obtain p' where p': "curve_MakeAffine p = Some p'" "cz p' = 1" "fp_of_int (cx p') = fst xy" "fp_of_int (cy p') = snd xy"
    using curve_MakeAffine_affine [OF aff ok] by blast
  let ?x = "cx p' mod P" and ?y = "cy p' mod P"
  let ?m = "be_fields [?x, ?y]"
  have b: "\<forall>v \<in> set [?x, ?y]. 0 \<le> v \<and> v < 2 ^ 256" using mod_P_bounds by simp
  have ms: "G1_Marshal p = Some (?m, p')"
    using ninf p'(1) copy_coords_all [OF b, of 64] by (simp add: G1_Marshal_def)
  have c: "coord ?m 0 = ?x" "coord ?m 1 = ?y" using coord_fields [OF _ b, of 0] coord_fields [OF _ b, of 1] by simp_all
  have curve: "fp_of_int ?y ^ 2 = fp_of_int ?x ^ 3 + fp_of_int curveB"
    using affine_on_jacobian [OF aff] assms(1) ninf p' by (simp add: curve_valid_def on_curve_def)
  have nz: "\<not> (?x = 0 \<and> ?y = 0)"
  proof
    assume "?x = 0 \<and> ?y = 0"
    then have "fp_of_int curveB = 0" using curve by (metis add_0 fp_of_int_hom(5) zero_power2 power_zero_numeral)
    then have "curveB mod P = 0" by (simp only: fp_of_int_eq_0)
    then show False by (simp add: curveB_def P_def)
  qed
  have "G1_Unmarshal e ?m = (Inr [], Some ((case e of None \<Rightarrow> newCurvePoint | Some p \<Rightarrow> p)
      \<lparr>cx := ?x, cy := ?y, cz := 1, ct := 1\<rparr>))"
    using c nz curve by (auto simp: G1_Unmarshal_def Let_def curve_IsOnCurve_iff not_le)
  then show ?thesis
    using ms p' by (simp add: curve_affine_def affine_def)
qed

lemma G2_Unmarshal_Inr:
  assumes "G2_Unmarshal s t e m = (Inr r, p')"
  shows "r = []" and "\<exists>p p''. p' = Some p \<and> twist_valid p \<and> G2_Marshal p = Some (m, p'') \<and>
    (twist_IsInfinity p \<or> twist_IsInfinity (twist_Mul s t p Order))"
proof -
  let ?a = "coord m 0" and ?b = "coord m (Suc 0)" and ?c = "coord m 2" and ?d = "coord m 3"
  have len: "length m = 4 * 32" and lt: "?a < P" "?b < P" "?c < P" "?d < P"
    using assms by (auto simp: G2_Unmarshal_def Let_def split: if_splits)
  note rng = lt [THEN coord_range]
  show "r = []" using assms len by (auto simp: G2_Unmarshal_def Let_def split: if_splits)
  have m: "be_fields [?a, ?b, ?c, ?d] = m" using be_fields_coords [OF len] by (simp add: upt_numeral)
  show "\<exists>p p''. p' = Some p \<and> twist_valid p \<and> G2_Marshal p = Some (m, p'') \<and>
    (twist_IsInfinity p \<or> twist_IsInfinity (twist_Mul s t p Order))"
  proof (cases "?a = 0 \<and> ?b = 0 \<and> ?c = 0 \<and> ?d = 0")
    case True
    then obtain p where p: "p' = Some p" "tz p = gfP2_SetZero"
      using assms len lt by (auto simp: G2_Unmarshal_def Let_def)
    moreover have "m = replicate (32 * 4) 0" using m be_fields_zero [of 4] True by (simp add: numeral_eq_Suc)
    ultimately show ?thesis
      by (simp add: G2_Marshal_def twist_valid_def twist_ok_def twist_IsInfinity_def gfP2_SetZero_def gfP2_IsZero_def)
  next
    case False
    then obtain p where p: "p' = Some p" "tx p = \<lparr>x2 = ?a, y2 = ?b\<rparr>" "ty p = \<lparr>x2 = ?c, y2 = ?d\<rparr>"
        "tz p = gfP2_SetOne" "twist_IsOnCurve s t p"
      using assms len lt by (auto simp: G2_Unmarshal_def Let_def split: if_splits)
    have one: "\<not> twist_IsInfinity p" "gfP2_IsOne (tz p)" "abs2 (tz p) = 1"
      using p(4) by (simp_all add: twist_IsInfinity_def gfP2_IsZero_def gfP2_IsOne_def bits_is_one_def gfP2_SetOne_def
          abs2_def flip: one_fp2_def)
    have "twist_valid p"
      using p(4,5) one by (simp add: twist_valid_def twist_ok_def on_twist_def on_jacobian_def twist_IsOnCurve_iff gfP2_SetOne_def)
    moreover have "copy_coords (replicate (32 * 4) 0) 0 [?a, ?b, ?c, ?d] = Some m"
      using m mod_P_bounds(2) [of ?a] mod_P_bounds(2) [of ?b] mod_P_bounds(2) [of ?c] mod_P_bounds(2) [of ?d]
      by (subst copy_coords_all) (simp_all only: rng coord_nonneg list.set ball_simps simp_thms, simp_all)
    then have "G2_Marshal p = Some (m, p)" using p one
      by (simp add: G2_Marshal_def twist_MakeAffine_def Let_def rng)
    ultimately show ?thesis using p(1,5) by (auto simp: twist_IsOnCurve_iff)
  qed
qed

lemma minimal_bounds: "0 \<le> minimal n \<and> minimal n < 2 ^ 256"
  using mod_P_bounds by (simp add: minimal_eq)

section \<open>Checking a product of pairings\<close>

text \<open>The pairings of the pairs, one by one.\<close>

fun pairings :: "(nat \<Rightarrow> int) \<Rightarrow> nat \<Rightarrow> curvePoint list \<Rightarrow> twistPoint list \<Rightarrow> gfP12 option list" where
  "pairings stale i (a # as) (b # bs) = Pair (stale i) a b # pairings stale (Suc i) as bs"
| "pairings stale i _ _ = []"

text \<open>The Miller loop of every pair returns, with an invertible value unless a point is infinity.\<close>

fun millers_ok :: "(nat \<Rightarrow> int) \<Rightarrow> nat \<Rightarrow> curvePoint list \<Rightarrow> twistPoint list \<Rightarrow> bool" where
  "millers_ok stale i (a # as) (b # bs) \<longleftrightarrow>
     (case miller (stale i) b a of
        None \<Rightarrow> False
      | Some m \<Rightarrow> curve_IsInfinity a \<or> twist_IsInfinity b \<or> abs12 m dvd 1) \<and>
     millers_ok stale (Suc i) as bs"
| "millers_ok stale i [] [] \<longleftrightarrow> True"
| "millers_ok stale i _ _ \<longleftrightarrow> False"

definition fexp :: "gfP12 \<Rightarrow> fp12" where
  "fexp a = abs12 (finalExponentiation 0 a)"

lemma fexp_stale: "abs12 a dvd 1 \<Longrightarrow> abs12 (finalExponentiation stale a) = fexp a"
  unfolding fexp_def by (metis dvdE finalExponentiation_abs)

lemma fexp_Mul: "abs12 a dvd 1 \<Longrightarrow> abs12 b dvd 1 \<Longrightarrow> fexp (gfP12_Mul a b) = fexp a * fexp b"
  unfolding fexp_def using finalExponentiation_hom by blast

lemma fexp_One: "fexp gfP12_SetOne = 1"
  unfolding fexp_def using finalExponentiation_abs [of gfP12_SetOne 1]
  by (simp add: gf_abs easy_part_1 hard_part_1)

lemma PairingLoop_prod:
  assumes "millers_ok stale i as bs" "abs12 acc dvd 1"
  shows "\<exists>r es. PairingLoop stale i acc as bs = Some r \<and> abs12 r dvd 1 \<and> pairings stale i as bs = map Some es \<and>
    fexp r = fexp acc * prod_list (map abs12 es)"
  using assms
proof (induction stale i as bs arbitrary: acc rule: millers_ok.induct)
  case (1 stale i a as b bs)
  then obtain m where m: "miller (stale i) b a = Some m" "curve_IsInfinity a \<or> twist_IsInfinity b \<or> abs12 m dvd 1"
    and ok: "millers_ok stale (Suc i) as bs"
    by (auto split: option.splits)
  show ?case
  proof (cases "curve_IsInfinity a \<or> twist_IsInfinity b")
    case True
    obtain r es where r: "PairingLoop stale (Suc i) acc as bs = Some r" "abs12 r dvd 1"
        "pairings stale (Suc i) as bs = map Some es" "fexp r = fexp acc * prod_list (map abs12 es)"
      using "1.IH" [OF ok "1.prems"(2)] by blast
    then show ?thesis using True m(1)
      by (intro exI [of _ r] exI [of _ "gfP12_SetOne # es"]) (auto simp: Pair_def optimalAte_def gf_abs)
  next
    case False
    then have mu: "abs12 m dvd 1" using m(2) by blast
    then have "abs12 (gfP12_Mul acc m) dvd 1" using "1.prems"(2) by (simp add: gf_abs unit_mult)
    from "1.IH" [OF ok this] obtain r es where r: "PairingLoop stale (Suc i) (gfP12_Mul acc m) as bs = Some r"
        "abs12 r dvd 1" "pairings stale (Suc i) as bs = map Some es"
        "fexp r = fexp (gfP12_Mul acc m) * prod_list (map abs12 es)"
      by blast
    then show ?thesis using False m(1) fexp_Mul [OF "1.prems"(2) mu] fexp_stale [OF mu]
      by (intro exI [of _ r] exI [of _ "finalExponentiation (stale i) m # es"])
        (simp add: Pair_def optimalAte_def mult.assoc)
  qed
qed auto

section \<open>Properties\<close>



text \<open>
  C31: Unmarshal of G1 only accepts canonical encodings of points of the curve: the point it
  returns is on the curve, nothing of the input is left over, and Marshal of the point gives
  the input back.
\<close>

theorem G1_Unmarshal_canonical:
  assumes "G1_Unmarshal e m = (Inr r, p')"
  shows "r = [] \<and> (\<exists>p p''. p' = Some p \<and> curve_valid p \<and> G1_Marshal p = Some (m, p''))"
  using G1_Unmarshal_Inr [OF assms] by blast

theorem G1_Unmarshal_canonical_witness:
  "\<exists>p p''. snd (G1_Unmarshal None (replicate 64 0)) = Some p \<and> G1_Marshal p = Some (replicate 64 0, p'')"
proof -
  obtain q where "G1_Unmarshal None (replicate 64 0) = (Inr [], Some q)"
    using G1_Marshal_Unmarshal_infinity [of newCurvePoint None] by (auto simp: newCurvePoint_def curve_IsInfinity_def)
  then show ?thesis using G1_Unmarshal_canonical [of None "replicate 64 0" "[]" "Some q"] by auto
qed

text \<open>
  C32: marshalling a point of G1 and unmarshalling the bytes gives the point back: infinity
  for infinity, and the same affine coordinates for every other point.
\<close>

theorem G1_Marshal_Unmarshal:
  assumes "curve_valid p" "curve_IsInfinity p \<or> curve_affine p xy"
  shows "\<exists>m p' q. G1_Marshal p = Some (m, p') \<and> G1_Unmarshal e m = (Inr [], Some q) \<and>
    (if curve_IsInfinity p then curve_IsInfinity q else curve_affine q xy \<and> cz q = 1)"
proof (cases "curve_IsInfinity p")
  case True
  then show ?thesis using G1_Marshal_Unmarshal_infinity [OF True, of e] by (auto simp: G1_Marshal_def)
next
  case False
  then show ?thesis using G1_Marshal_affine [OF assms(1), of xy e] assms(2) by auto
qed

theorem G1_Marshal_Unmarshal_witness:
  "\<exists>m p' q. G1_Marshal curveGen = Some (m, p') \<and> G1_Unmarshal None m = (Inr [], Some q) \<and> curve_affine q (1, 2) \<and> cz q = 1"
  using G1_Marshal_Unmarshal [OF curve_valid_Gen, of "(1, 2)" None]
  by (simp add: curve_affine_def affine_def curveGen_def curve_IsInfinity_def fp_of_int_numeral)

text \<open>
  C33: Unmarshal of G2 only accepts canonical encodings of points of the twisted curve that
  the order test sends to infinity.
\<close>

theorem G2_Unmarshal_canonical:
  assumes "G2_Unmarshal s t e m = (Inr r, p')"
  shows "r = [] \<and> (\<exists>p p''. p' = Some p \<and> twist_valid p \<and> G2_Marshal p = Some (m, p'') \<and>
    (twist_IsInfinity p \<or> twist_IsInfinity (twist_Mul s t p Order)))"
  using G2_Unmarshal_Inr [OF assms] by blast

theorem G2_Unmarshal_canonical_witness:
  "\<exists>p p''. snd (G2_Unmarshal newTwistPoint newTwistPoint None (replicate 128 0)) = Some p \<and>
    G2_Marshal p = Some (replicate 128 0, p'')"
proof -
  have "coord (replicate 128 0) i = 0" if "i < 4" for i
    using coord_fields [of i "replicate 4 0"] that by (simp add: be_fields_zero)
  from this [of 0] this [of 1] this [of 2] this [of 3]
  obtain q where "G2_Unmarshal newTwistPoint newTwistPoint None (replicate 128 0) = (Inr [], Some q)"
    by (simp add: G2_Unmarshal_def Let_def not_le)
  then show ?thesis
    using G2_Unmarshal_canonical [of newTwistPoint newTwistPoint None "replicate 128 0" "[]" "Some q"] by auto
qed

text \<open>
  Marshalling an element of GT reduces it and writes its twelve coordinates in 384 bytes,
  without a panic, and unmarshalling these bytes gives the reduced element back.
\<close>

theorem GT_Marshal_Unmarshal:
  "\<exists>m. GT_Marshal n = Some (m, gfP12_Minimal n) \<and> length m = 384 \<and> GT_Unmarshal m = Some (gfP12_Minimal n)"
proof -
  let ?n = "gfP12_Minimal n"
  define vs where "vs = [x2 (x6 (x12 ?n)), y2 (x6 (x12 ?n)), x2 (y6 (x12 ?n)), y2 (y6 (x12 ?n)), x2 (z6 (x12 ?n)),
    y2 (z6 (x12 ?n)), x2 (x6 (y12 ?n)), y2 (x6 (y12 ?n)), x2 (y6 (y12 ?n)), y2 (y6 (y12 ?n)), x2 (z6 (y12 ?n)), y2 (z6 (y12 ?n))]"
  have b: "\<forall>v \<in> set vs. 0 \<le> v \<and> v < 2 ^ 256"
    unfolding vs_def gfP12_Minimal_def gfP6_Minimal_def gfP2_Minimal_def by (simp only: list.set ball_simps minimal_bounds
        gfP2.simps gfP6.simps gfP12.simps simp_thms)
  have len: "length vs = 12" by (simp add: vs_def)
  have m: "GT_Marshal n = Some (be_fields vs, ?n)"
    using copy_coords_all [OF b, of 384] len by (simp add: GT_Marshal_def Let_def vs_def)
  have "coord (be_fields vs) i = vs ! i" if "i < 12" for i using coord_fields [OF _ b, of i] that len by simp
  then have "GT_Unmarshal (be_fields vs) = Some ?n"
    using len by (simp add: GT_Unmarshal_def) (simp add: vs_def)
  then show ?thesis using m len by simp
qed

end
