(* ===== verification/Hexutil.thy ===== *)
theory Hexutil
  imports Prelude
begin

text \<open>
  The package \<^verbatim>\<open>common/hexutil\<close>: the hex form of byte strings, of quantities and of big
  numbers (\<^verbatim>\<open>hexutil.go\<close>) and the text, JSON and GraphQL methods of its types
  (\<^verbatim>\<open>json.go\<close>). Strings are byte lists. \<^verbatim>\<open>encoding/hex\<close>, \<^verbatim>\<open>strconv.ParseUint\<close> and the
  digits printed by \<^verbatim>\<open>strconv.AppendUint\<close> and \<^verbatim>\<open>%x\<close> are modelled first. The locales
  \<^verbatim>\<open>text_codec\<close> and \<^verbatim>\<open>json_codec\<close> are the contract of a type with a text form and the JSON
  methods built on it; they are interpreted for the four types of the package.
\<close>


section \<open>Hexadecimal digits\<close>

text \<open>The digits \<^verbatim>\<open>0123456789abcdef\<close> that \<^verbatim>\<open>encoding/hex\<close> and \<^verbatim>\<open>strconv\<close> write.\<close>

definition hexDigit :: "nat \<Rightarrow> byte" where
  "hexDigit n = (if n < 10 then of_nat (48 + n) else of_nat (87 + n))"

definition badNibble :: u64 where
  "badNibble = NOT 0"

definition decodeNibble :: "byte \<Rightarrow> u64" where
  "decodeNibble b =
     (if b \<ge> 48 \<and> b \<le> 57 then ucast (b - 48)
      else if b \<ge> 65 \<and> b \<le> 70 then ucast (b - 65 + 10)
      else if b \<ge> 97 \<and> b \<le> 102 then ucast (b - 97 + 10)
      else badNibble)"

text \<open>The same test and value as a natural number.\<close>

definition isHexChar :: "byte \<Rightarrow> bool" where
  "isHexChar b \<longleftrightarrow> decodeNibble b \<noteq> badNibble"

definition nib :: "byte \<Rightarrow> nat" where
  "nib b = unat (decodeNibble b)"

definition lower :: "byte \<Rightarrow> byte" where
  "lower b = (if b \<ge> 65 \<and> b \<le> 90 then b + 32 else b)"

lemma hexDigit_check:
  "\<forall>n \<in> set [0..<16]. isHexChar (hexDigit n) \<and> nib (hexDigit n) = n \<and> lower (hexDigit n) = hexDigit n"
  by code_simp

lemma hexDigit_facts [simp]:
  assumes "n < 16"
  shows "isHexChar (hexDigit n)" "nib (hexDigit n) = n" "lower (hexDigit n) = hexDigit n"
  using hexDigit_check assms by auto

lemma unat_u64_ucast: "unat (ucast (b :: byte) :: u64) = unat b"
  using unat_byte_less [of b] by (simp add: unsigned_ucast_eq take_bit_eq_mod del: unat_byte_less)

lemma badNibble_large: "(ucast (b :: byte) :: u64) \<noteq> badNibble"
proof
  assume "(ucast b :: u64) = badNibble"
  then have "unat b = unat badNibble" by (metis unat_u64_ucast)
  then show False using unat_byte_less [of b] by (simp add: badNibble_def unsigned_minus_1_eq_mask mask_eq_exp_minus_1 del: unat_byte_less)
qed

lemma isHexChar_cases:
  assumes "isHexChar b"
  obtains (digit) "48 \<le> unat b" "unat b \<le> 57" "nib b = unat b - 48"
  | (upper) "65 \<le> unat b" "unat b \<le> 70" "nib b = unat b - 65 + 10"
  | (lower) "97 \<le> unat b" "unat b \<le> 102" "nib b = unat b - 97 + 10"
proof -
  have sub: "unat (b - c) = unat b - unat c" if "c \<le> b" for c using that by (rule unat_sub)
  have add: "unat (c + 10 :: byte) = unat c + 10" if "unat c < 6" for c
    using that by (simp add: unat_word_ariths)
  have ifs: "decodeNibble b \<noteq> badNibble" using assms by (simp add: isHexChar_def)
  consider "b \<ge> 48" "b \<le> 57" | "b \<ge> 65" "b \<le> 70" | "b \<ge> 97" "b \<le> 102"
    using ifs by (auto simp: decodeNibble_def split: if_splits)
  then show ?thesis
  proof cases
    case 1
    then show ?thesis using digit by (simp add: nib_def decodeNibble_def unat_u64_ucast sub word_le_nat_alt)
  next
    case 2
    then have "unat (b - 65 + 10) = unat b - 65 + 10" using sub [of 65] add [of "b - 65"] by (simp add: word_le_nat_alt)
    with 2 show ?thesis using upper by (simp add: nib_def decodeNibble_def unat_u64_ucast word_le_nat_alt)
  next
    case 3
    then have "unat (b - 97 + 10) = unat b - 97 + 10" using sub [of 97] add [of "b - 97"] by (simp add: word_le_nat_alt)
    with 3 show ?thesis using lower by (simp add: nib_def decodeNibble_def unat_u64_ucast word_le_nat_alt)
  qed
qed

lemma nib_less: "isHexChar b \<Longrightarrow> nib b < 16"
  by (erule isHexChar_cases) auto

lemma hexDigit_nib: "isHexChar b \<Longrightarrow> hexDigit (nib b) = lower b"
proof (erule isHexChar_cases)
  assume b: "48 \<le> unat b" "unat b \<le> 57" "nib b = unat b - 48"
  then have "nib b < 10" "48 + nib b = unat b" by auto
  then have "hexDigit (nib b) = of_nat (unat b)" by (simp only: hexDigit_def if_True)
  then show ?thesis using b by (simp add: lower_def word_le_nat_alt)
next
  assume b: "65 \<le> unat b" "unat b \<le> 70" "nib b = unat b - 65 + 10"
  then have "\<not> nib b < 10" "87 + nib b = unat b + 32" by auto
  then have "hexDigit (nib b) = of_nat (unat b + 32)" by (simp only: hexDigit_def if_False)
  then show ?thesis using b by (simp add: lower_def word_le_nat_alt)
next
  assume b: "97 \<le> unat b" "unat b \<le> 102" "nib b = unat b - 97 + 10"
  then have "\<not> nib b < 10" "87 + nib b = unat b" by auto
  then have "hexDigit (nib b) = of_nat (unat b)" by (simp only: hexDigit_def if_False)
  then show ?thesis using b by (simp add: lower_def word_le_nat_alt)
qed

section \<open>\<^verbatim>\<open>encoding/hex\<close>\<close>

datatype hex_error = InvalidByteError byte | ErrLength

definition hex_Encode :: "bytes \<Rightarrow> bytes" where
  "hex_Encode b = concat (map (\<lambda>x. [hexDigit (unat x div 16), hexDigit (unat x mod 16)]) b)"

text \<open>The bytes decoded up to the error, and the error.\<close>

fun hex_Decode :: "bytes \<Rightarrow> bytes \<times> hex_error option" where
  "hex_Decode [] = ([], None)"
| "hex_Decode [a] = ([], Some (if isHexChar a then ErrLength else InvalidByteError a))"
| "hex_Decode (a # b # r) =
     (if \<not> isHexChar a then ([], Some (InvalidByteError a))
      else if \<not> isHexChar b then ([], Some (InvalidByteError b))
      else (let (d, e) = hex_Decode r in (of_nat (nib a * 16 + nib b) # d, e)))"

lemma hex_Decode_Encode [simp]: "hex_Decode (hex_Encode b) = (b, None)"
proof (induction b)
  case (Cons x b)
  have "unat x div 16 < 16" using unat_byte_less [of x] by (simp add: div_less_iff_less_mult del: unat_byte_less)
  moreover have "unat x div 16 * 16 + unat x mod 16 = unat x" by simp
  ultimately show ?case using Cons by (simp add: hex_Encode_def flip: of_nat_add of_nat_mult)
qed (simp add: hex_Encode_def)

lemma hex_Decode_None:
  "hex_Decode s = (b, None) \<Longrightarrow> map lower s = hex_Encode b \<and> (\<forall>c \<in> set s. isHexChar c) \<and> length s = 2 * length b"
proof (induction s arbitrary: b rule: hex_Decode.induct)
  case (3 x y r)
  then have xy: "isHexChar x" "isHexChar y" by (auto split: if_splits)
  then obtain d where d: "hex_Decode r = (d, None)" "b = of_nat (nib x * 16 + nib y) # d"
    using "3.prems" by (auto split: prod.splits)
  have lt: "nib x * 16 + nib y < 256" using nib_less [OF xy(1)] nib_less [OF xy(2)] by simp
  then have "unat (of_nat (nib x * 16 + nib y) :: byte) = nib x * 16 + nib y" by (simp only: unat_of_nat_byte mod_less)
  then have "hex_Encode b = hexDigit (nib x) # hexDigit (nib y) # hex_Encode d"
    using nib_less [OF xy(2)] by (simp add: d(2) hex_Encode_def)
  then show ?case using "3.IH" [OF _ _ d(1)] xy d(2) by (simp add: hexDigit_nib)
qed (auto simp: hex_Encode_def split: if_splits)

lemma hex_Decode_total:
  assumes "\<forall>c \<in> set s. isHexChar c" "even (length s)"
  shows "\<exists>b. hex_Decode s = (b, None)"
  using assms by (induction s rule: hex_Decode.induct) auto

section \<open>Numbers in base 16\<close>

text \<open>\<^verbatim>\<open>strconv.AppendUint(_, n, 16)\<close> and the digits that \<^verbatim>\<open>%x\<close> prints.\<close>

fun hex_digits :: "nat \<Rightarrow> bytes" where
  "hex_digits n = (if n < 16 then [hexDigit n] else hex_digits (n div 16) @ [hexDigit (n mod 16)])"

declare hex_digits.simps [simp del]

definition hex_val :: "bytes \<Rightarrow> nat" where
  "hex_val s = foldl (\<lambda>n c. n * 16 + nib c) 0 s"

lemma hex_val_snoc [simp]: "hex_val [] = 0" "hex_val (s @ [c]) = hex_val s * 16 + nib c"
  by (simp_all add: hex_val_def)

lemma hex_val_hex_digits [simp]: "hex_val (hex_digits n) = n"
proof (induction n rule: hex_digits.induct)
  case (1 n)
  show ?case
  proof (cases "n < 16")
    case True
    then show ?thesis using hex_val_snoc(2) [of "[]" "hexDigit n"] by (simp add: hex_digits.simps [of n])
  qed (use 1 in \<open>simp add: hex_digits.simps [of n]\<close>)
qed

lemma hex_digits_ok:
  "(\<forall>c \<in> set (hex_digits n). isHexChar c) \<and> hex_digits n \<noteq> [] \<and>
   (length (hex_digits n) > 1 \<longrightarrow> hd (hex_digits n) \<noteq> 48)"
proof (induction n rule: hex_digits.induct)
  case (1 n)
  have d48: "hexDigit m \<noteq> 48" if "m < 16" "m \<noteq> 0" for m
  proof
    assume "hexDigit m = 48"
    then have "nib (hexDigit m) = nib (hexDigit 0)" by (simp add: hexDigit_def [of 0])
    then show False using that by simp
  qed
  show ?case
  proof (cases "n < 16")
    case False
    then have IH: "\<forall>c \<in> set (hex_digits (n div 16)). isHexChar c" "hex_digits (n div 16) \<noteq> []"
      "length (hex_digits (n div 16)) > 1 \<longrightarrow> hd (hex_digits (n div 16)) \<noteq> 48" using 1 by auto
    have "hd (hex_digits (n div 16)) \<noteq> 48"
    proof (cases "n div 16 < 16")
      case True
      then show ?thesis using d48 [of "n div 16"] False by (simp add: hex_digits.simps [of "n div 16"])
    next
      case False
      then have "length (hex_digits (n div 16)) > 1"
        using hex_digits.simps [of "n div 16"] hex_digits.simps [of "n div 16 div 16"]
        by (cases "hex_digits (n div 16 div 16)") (auto split: if_splits)
      then show ?thesis using IH(3) by blast
    qed
    then show ?thesis using IH False by (simp add: hex_digits.simps [of n])
  qed (simp add: hex_digits.simps [of n])
qed

lemma hex_digits_hex_val:
  assumes "\<forall>c \<in> set s. isHexChar c" "s \<noteq> []" "length s > 1 \<longrightarrow> hd s \<noteq> 48"
  shows "hex_digits (hex_val s) = map lower s"
  using assms
proof (induction s rule: rev_induct)
  case (snoc c s)
  have c: "isHexChar c" using snoc.prems by simp
  show ?case
  proof (cases "s = []")
    case True
    then show ?thesis using c nib_less [OF c] hex_val_snoc(2) [of "[]" c]
      by (simp add: hex_digits.simps [of "nib c"] hexDigit_nib)
  next
    case False
    then have "hd s \<noteq> 48" using snoc.prems by (cases s) auto
    then have IH: "hex_digits (hex_val s) = map lower s" using snoc False by auto
    have "hex_val s \<noteq> 0"
    proof
      assume "hex_val s = 0"
      then have "[hexDigit 0] = map lower s" using IH by (simp add: hex_digits.simps)
      then obtain x where x: "s = [x]" "lower x = 48" by (auto simp: hexDigit_def)
      have "isHexChar x" using snoc.prems x by simp
      then have "nib x = 0" using hexDigit_nib [of x] hexDigit_facts(2) [OF nib_less, of x] hexDigit_facts(2) [of 0] x(2)
        by (simp add: hexDigit_def [of 0])
      with \<open>isHexChar x\<close> have "unat x = 48" by (elim isHexChar_cases) auto
      then have "x = 48" by (simp add: word_unat_eq_iff)
      then show False using \<open>hd s \<noteq> 48\<close> x by simp
    qed
    then have "\<not> hex_val (s @ [c]) < 16" "hex_val (s @ [c]) div 16 = hex_val s" "hex_val (s @ [c]) mod 16 = nib c"
      using nib_less [OF c] by auto
    then show ?thesis using IH hexDigit_nib [OF c] by (simp only: hex_digits.simps [of "hex_val (s @ [c])"] if_False) simp
  qed
qed simp

lemma hex_val_less: "\<forall>c \<in> set s. isHexChar c \<Longrightarrow> hex_val s < 16 ^ length s"
proof (induction s rule: rev_induct)
  case (snoc c s)
  then have "hex_val s + 1 \<le> 16 ^ length s" "nib c < 16" using nib_less by auto
  then have "(hex_val s + 1) * 16 \<le> 16 ^ length s * 16" by (intro mult_right_mono) auto
  then show ?case using \<open>nib c < 16\<close> by simp
qed simp

lemma length_hex_digits_le: "0 < k \<Longrightarrow> length (hex_digits n) \<le> k \<longleftrightarrow> n < 16 ^ k"
proof (induction n arbitrary: k rule: hex_digits.induct)
  case (1 n)
  show ?case
  proof (cases "n < 16")
    case True
    have "(16 :: nat) ^ 1 \<le> 16 ^ k" using "1.prems" by (intro power_increasing) auto
    then show ?thesis using True "1.prems" by (simp add: hex_digits.simps [of n])
  next
    case False
    then obtain j where k: "k = Suc j" using "1.prems" by (cases k) auto
    show ?thesis
    proof (cases "j = 0")
      case True
      have "hex_digits (n div 16) \<noteq> []" using hex_digits_ok by blast
      then show ?thesis using False k True by (cases "hex_digits (n div 16)") (auto simp: hex_digits.simps [of n])
    next
      case j: False
      have "length (hex_digits n) \<le> k \<longleftrightarrow> length (hex_digits (n div 16)) \<le> j"
        using False k by (simp add: hex_digits.simps [of n])
      also have "\<dots> \<longleftrightarrow> n div 16 < 16 ^ j" using "1.IH" [OF False] j by simp
      also have "\<dots> \<longleftrightarrow> n < 16 ^ k" using k by (simp add: div_less_iff_less_mult mult.commute)
      finally show ?thesis .
    qed
  qed
qed

section \<open>The functions of \<^verbatim>\<open>hexutil.go\<close>\<close>

datatype dec_error =
    ErrEmptyString | ErrSyntax | ErrMissingPrefix | ErrOddLength | ErrEmptyNumber
  | ErrLeadingZero | ErrUint64Range | ErrUintRange | ErrBig256Range

text \<open>
  The errors of the package: a \<^verbatim>\<open>*decError\<close>, the two messages made with \<^verbatim>\<open>fmt.Errorf\<close> and
  the \<^verbatim>\<open>json.UnmarshalTypeError\<close> that wraps a \<^verbatim>\<open>*decError\<close> or says \<^verbatim>\<open>non-string\<close>.
\<close>

datatype hexutil_error =
    DecError dec_error
  | LengthError nat nat string
  | UnexpectedType string string
  | UnmarshalTypeError dec_error string
  | NonString string

datatype num_error = RangeError | SyntaxError

datatype lib_error = NumError num_error | HexError hex_error

fun mapError :: "lib_error \<Rightarrow> dec_error" where
  "mapError (NumError RangeError) = ErrUint64Range"
| "mapError (NumError SyntaxError) = ErrSyntax"
| "mapError (HexError (InvalidByteError _)) = ErrSyntax"
| "mapError (HexError ErrLength) = ErrOddLength"

definition has0xPrefix :: "bytes \<Rightarrow> bool" where
  "has0xPrefix input \<longleftrightarrow> length input \<ge> 2 \<and> input ! 0 = 48 \<and> (input ! 1 = 120 \<or> input ! 1 = 88)"

definition checkNumber :: "bytes \<Rightarrow> dec_error + bytes" where
  "checkNumber input =
     (if length input = 0 then Inl ErrEmptyString
      else if \<not> has0xPrefix input then Inl ErrMissingPrefix
      else let input = drop 2 input in
        if length input = 0 then Inl ErrEmptyNumber
        else if length input > 1 \<and> input ! 0 = 48 then Inl ErrLeadingZero
        else Inr input)"

text \<open>The decoded prefix is returned beside the error, as \<^verbatim>\<open>hex.DecodeString\<close> does.\<close>

definition Decode :: "bytes \<Rightarrow> bytes \<times> dec_error option" where
  "Decode input =
     (if length input = 0 then ([], Some ErrEmptyString)
      else if \<not> has0xPrefix input then ([], Some ErrMissingPrefix)
      else let (b, err) = hex_Decode (drop 2 input) in (b, map_option (mapError \<circ> HexError) err))"

definition MustDecode :: "bytes \<Rightarrow> bytes option" where
  "MustDecode input = (case Decode input of (dec, None) \<Rightarrow> Some dec | _ \<Rightarrow> None)"

definition Encode :: "bytes \<Rightarrow> bytes" where
  "Encode b = [48, 120] @ hex_Encode b"

text \<open>
  \<^verbatim>\<open>strconv.ParseUint(s, 16, 64)\<close> on a non-empty string: a value of \<open>2\<^sup>6\<^sup>0\<close> or more
  cannot take another digit.
\<close>

fun ParseUint_loop :: "u64 \<Rightarrow> bytes \<Rightarrow> u64 \<times> num_error option" where
  "ParseUint_loop n [] = (n, None)"
| "ParseUint_loop n (c # s) =
     (if \<not> isHexChar c then (0, Some SyntaxError)
      else if n \<ge> 1152921504606846976 then (NOT 0, Some RangeError)
      else ParseUint_loop (n * 16 + of_nat (nib c)) s)"

definition ParseUint :: "bytes \<Rightarrow> u64 \<times> num_error option" where
  "ParseUint s = (if s = [] then (0, Some SyntaxError) else ParseUint_loop 0 s)"

definition DecodeUint64 :: "bytes \<Rightarrow> u64 \<times> dec_error option" where
  "DecodeUint64 input =
     (case checkNumber input of
        Inl err \<Rightarrow> (0, Some err)
      | Inr raw \<Rightarrow> let (dec, err) = ParseUint raw in (dec, map_option (mapError \<circ> NumError) err))"

definition MustDecodeUint64 :: "bytes \<Rightarrow> u64 option" where
  "MustDecodeUint64 input = (case DecodeUint64 input of (dec, None) \<Rightarrow> Some dec | _ \<Rightarrow> None)"

definition EncodeUint64 :: "u64 \<Rightarrow> bytes" where
  "EncodeUint64 i = [48, 120] @ hex_digits (unat i)"

text \<open>\<^verbatim>\<open>big.Word\<close> has 64 bits.\<close>

definition bigWordNibbles :: nat where
  "bigWordNibbles = 16"

fun nibble_loop :: "u64 \<Rightarrow> bytes \<Rightarrow> u64 option" where
  "nibble_loop w [] = Some w"
| "nibble_loop w (c # s) =
     (if decodeNibble c = badNibble then None else nibble_loop (w * 16 + decodeNibble c) s)"

fun word_loop :: "nat \<Rightarrow> bytes \<Rightarrow> nat \<Rightarrow> u64 list option" where
  "word_loop 0 raw e = Some []"
| "word_loop (Suc k) raw e =
     (let start = (if e < bigWordNibbles then 0 else e - bigWordNibbles) in
      case nibble_loop 0 (take (e - start) (drop start raw)) of
        None \<Rightarrow> None
      | Some w \<Rightarrow> map_option ((#) w) (word_loop k raw start))"

definition SetBits :: "u64 list \<Rightarrow> int" where
  "SetBits ws = foldr (\<lambda>w n. uint w + 2 ^ 64 * n) ws 0"

definition DecodeBig :: "bytes \<Rightarrow> dec_error + int" where
  "DecodeBig input =
     (case checkNumber input of
        Inl err \<Rightarrow> Inl err
      | Inr raw \<Rightarrow>
          if length raw > 64 then Inl ErrBig256Range
          else case word_loop (length raw div bigWordNibbles + 1) raw (length raw) of
            None \<Rightarrow> Inl ErrSyntax
          | Some words \<Rightarrow> Inr (SetBits words))"

definition MustDecodeBig :: "bytes \<Rightarrow> int option" where
  "MustDecodeBig input = (case DecodeBig input of Inr dec \<Rightarrow> Some dec | Inl _ \<Rightarrow> None)"

text \<open>\<^verbatim>\<open>%#x\<close> writes the sign of a negative number before the prefix.\<close>

definition EncodeBig :: "int \<Rightarrow> bytes" where
  "EncodeBig bigint =
     (if bigint = 0 then [48, 120, 48]
      else (if bigint < 0 then [45] else []) @ [48, 120] @ hex_digits (nat \<bar>bigint\<bar>))"

section \<open>The types of \<^verbatim>\<open>json.go\<close>\<close>

definition isString :: "bytes \<Rightarrow> bool" where
  "isString input \<longleftrightarrow> length input \<ge> 2 \<and> input ! 0 = 34 \<and> input ! (length input - 1) = 34"

definition bytesHave0xPrefix :: "bytes \<Rightarrow> bool" where
  "bytesHave0xPrefix input \<longleftrightarrow> length input \<ge> 2 \<and> input ! 0 = 48 \<and> (input ! 1 = 120 \<or> input ! 1 = 88)"

definition checkText :: "bytes \<Rightarrow> bool \<Rightarrow> dec_error + bytes" where
  "checkText input wantPrefix =
     (if length input = 0 then Inr []
      else if \<not> bytesHave0xPrefix input \<and> wantPrefix then Inl ErrMissingPrefix
      else let input = (if bytesHave0xPrefix input then drop 2 input else input) in
        if length input mod 2 \<noteq> 0 then Inl ErrOddLength else Inr input)"

definition checkNumberText :: "bytes \<Rightarrow> dec_error + bytes" where
  "checkNumberText input =
     (if length input = 0 then Inr []
      else if \<not> bytesHave0xPrefix input then Inl ErrMissingPrefix
      else let input = drop 2 input in
        if length input = 0 then Inl ErrEmptyNumber
        else if length input > 1 \<and> input ! 0 = 48 then Inl ErrLeadingZero
        else Inr input)"

fun wrapTypeError :: "hexutil_error option \<Rightarrow> string \<Rightarrow> hexutil_error option" where
  "wrapTypeError (Some (DecError e)) typ = Some (UnmarshalTypeError e typ)"
| "wrapTypeError err typ = err"

definition errNonString :: "string \<Rightarrow> hexutil_error" where
  "errNonString typ = NonString typ"

text \<open>
  An \<^verbatim>\<open>Unmarshal\<close> method gets the old value of its receiver and returns the error beside the
  value the receiver has afterwards.
\<close>

definition Bytes_MarshalText :: "bytes \<Rightarrow> bytes" where
  "Bytes_MarshalText b = [48, 120] @ hex_Encode b"

definition Bytes_UnmarshalText :: "bytes \<Rightarrow> bytes \<Rightarrow> hexutil_error option \<times> bytes" where
  "Bytes_UnmarshalText b input =
     (case checkText input True of
        Inl err \<Rightarrow> (Some (DecError err), b)
      | Inr raw \<Rightarrow>
          (case hex_Decode raw of
             (_, Some err) \<Rightarrow> (Some (DecError (mapError (HexError err))), b)
           | (dec, None) \<Rightarrow> (None, dec)))"

definition Bytes_UnmarshalJSON :: "bytes \<Rightarrow> bytes \<Rightarrow> hexutil_error option \<times> bytes" where
  "Bytes_UnmarshalJSON b input =
     (if \<not> isString input then (Some (errNonString ''hexutil.Bytes''), b)
      else let (err, b') = Bytes_UnmarshalText b (butlast (tl input)) in
        (wrapTypeError err ''hexutil.Bytes'', b'))"

definition Bytes_String :: "bytes \<Rightarrow> bytes" where
  "Bytes_String b = Encode b"

text \<open>A GraphQL argument: a string, an \<^verbatim>\<open>int32\<close>, or a value of another type, by its name.\<close>

datatype graphql_input = GString bytes | GInt32 "32 word" | GOther string

fun graphql_type :: "graphql_input \<Rightarrow> string" where
  "graphql_type (GString _) = ''string''"
| "graphql_type (GInt32 _) = ''int32''"
| "graphql_type (GOther t) = t"

definition Bytes_UnmarshalGraphQL :: "bytes \<Rightarrow> graphql_input \<Rightarrow> hexutil_error option \<times> bytes" where
  "Bytes_UnmarshalGraphQL b input =
     (case input of
        GString s \<Rightarrow> (case Decode s of (_, Some err) \<Rightarrow> (Some (DecError err), b) | (data, None) \<Rightarrow> (None, data))
      | _ \<Rightarrow> (Some (UnexpectedType (graphql_type input) ''Bytes''), b))"

definition UnmarshalFixed :: "bool \<Rightarrow> string \<Rightarrow> bytes \<Rightarrow> bytes \<Rightarrow> hexutil_error option \<times> bytes" where
  "UnmarshalFixed wantPrefix typname input out =
     (case checkText input wantPrefix of
        Inl err \<Rightarrow> (Some (DecError err), out)
      | Inr raw \<Rightarrow>
          if length raw div 2 \<noteq> length out then (Some (LengthError (length raw) (length out * 2) typname), out)
          else if \<exists>b \<in> set raw. decodeNibble b = badNibble then (Some (DecError ErrSyntax), out)
          else (None, let d = fst (hex_Decode raw) in d @ drop (length d) out))"

definition UnmarshalFixedText :: "string \<Rightarrow> bytes \<Rightarrow> bytes \<Rightarrow> hexutil_error option \<times> bytes" where
  "UnmarshalFixedText typname input out = UnmarshalFixed True typname input out"

definition UnmarshalFixedUnprefixedText :: "string \<Rightarrow> bytes \<Rightarrow> bytes \<Rightarrow> hexutil_error option \<times> bytes" where
  "UnmarshalFixedUnprefixedText typname input out = UnmarshalFixed False typname input out"

definition UnmarshalFixedJSON :: "string \<Rightarrow> bytes \<Rightarrow> bytes \<Rightarrow> hexutil_error option \<times> bytes" where
  "UnmarshalFixedJSON typ input out =
     (if \<not> isString input then (Some (errNonString typ), out)
      else let (err, out') = UnmarshalFixedText typ (butlast (tl input)) out in (wrapTypeError err typ, out'))"

definition Big_MarshalText :: "int \<Rightarrow> bytes" where
  "Big_MarshalText b = EncodeBig b"

definition Big_UnmarshalText :: "int \<Rightarrow> bytes \<Rightarrow> hexutil_error option \<times> int" where
  "Big_UnmarshalText b input =
     (case checkNumberText input of
        Inl err \<Rightarrow> (Some (DecError err), b)
      | Inr raw \<Rightarrow>
          if length raw > 64 then (Some (DecError ErrBig256Range), b)
          else case word_loop (length raw div bigWordNibbles + 1) raw (length raw) of
            None \<Rightarrow> (Some (DecError ErrSyntax), b)
          | Some words \<Rightarrow> (None, SetBits words))"

definition Big_UnmarshalJSON :: "int \<Rightarrow> bytes \<Rightarrow> hexutil_error option \<times> int" where
  "Big_UnmarshalJSON b input =
     (if \<not> isString input then (Some (errNonString ''*hexutil.Big''), b)
      else let (err, b') = Big_UnmarshalText b (butlast (tl input)) in
        (wrapTypeError err ''*hexutil.Big'', b'))"

definition Big_String :: "int \<Rightarrow> bytes" where
  "Big_String b = EncodeBig b"

definition Big_UnmarshalGraphQL :: "int \<Rightarrow> graphql_input \<Rightarrow> hexutil_error option \<times> int" where
  "Big_UnmarshalGraphQL b input =
     (case input of
        GString s \<Rightarrow> Big_UnmarshalText b s
      | GInt32 i \<Rightarrow> (None, sint i)
      | GOther t \<Rightarrow> (Some (UnexpectedType t ''BigInt''), b))"

definition Uint64_MarshalText :: "u64 \<Rightarrow> bytes" where
  "Uint64_MarshalText b = [48, 120] @ hex_digits (unat b)"

definition Uint64_UnmarshalText :: "u64 \<Rightarrow> bytes \<Rightarrow> hexutil_error option \<times> u64" where
  "Uint64_UnmarshalText b input =
     (case checkNumberText input of
        Inl err \<Rightarrow> (Some (DecError err), b)
      | Inr raw \<Rightarrow>
          if length raw > 16 then (Some (DecError ErrUint64Range), b)
          else case nibble_loop 0 raw of
            None \<Rightarrow> (Some (DecError ErrSyntax), b)
          | Some dec \<Rightarrow> (None, dec))"

definition Uint64_UnmarshalJSON :: "u64 \<Rightarrow> bytes \<Rightarrow> hexutil_error option \<times> u64" where
  "Uint64_UnmarshalJSON b input =
     (if \<not> isString input then (Some (errNonString ''hexutil.Uint64''), b)
      else let (err, b') = Uint64_UnmarshalText b (butlast (tl input)) in
        (wrapTypeError err ''hexutil.Uint64'', b'))"

definition Uint64_String :: "u64 \<Rightarrow> bytes" where
  "Uint64_String b = EncodeUint64 b"

definition Uint64_UnmarshalGraphQL :: "u64 \<Rightarrow> graphql_input \<Rightarrow> hexutil_error option \<times> u64" where
  "Uint64_UnmarshalGraphQL b input =
     (case input of
        GString s \<Rightarrow> Uint64_UnmarshalText b s
      | GInt32 i \<Rightarrow> (None, scast i)
      | GOther t \<Rightarrow> (Some (UnexpectedType t ''Long''), b))"

text \<open>\<^verbatim>\<open>uint\<close> has 64 bits.\<close>

definition Uint_MarshalText :: "u64 \<Rightarrow> bytes" where
  "Uint_MarshalText b = Uint64_MarshalText b"

definition Uint_UnmarshalText :: "u64 \<Rightarrow> bytes \<Rightarrow> hexutil_error option \<times> u64" where
  "Uint_UnmarshalText b input =
     (let (err, x) = Uint64_UnmarshalText 0 input in
      if x > NOT 0 \<or> err = Some (DecError ErrUint64Range) then (Some (DecError ErrUintRange), b)
      else if err \<noteq> None then (err, b)
      else (None, x))"

definition Uint_UnmarshalJSON :: "u64 \<Rightarrow> bytes \<Rightarrow> hexutil_error option \<times> u64" where
  "Uint_UnmarshalJSON b input =
     (if \<not> isString input then (Some (errNonString ''hexutil.Uint''), b)
      else let (err, b') = Uint_UnmarshalText b (butlast (tl input)) in
        (wrapTypeError err ''hexutil.Uint'', b'))"

definition Uint_String :: "u64 \<Rightarrow> bytes" where
  "Uint_String b = EncodeUint64 b"

section \<open>What the digit loops compute\<close>

lemma hex_val_append: "hex_val (s @ t) = hex_val s * 16 ^ length t + hex_val t"
proof (induction t rule: rev_induct)
  case (snoc c t)
  then show ?case using hex_val_snoc(2) [of "s @ t" c] by (simp add: algebra_simps)
qed simp

lemma hex_val_Cons: "hex_val (c # s) = nib c * 16 ^ length s + hex_val s"
  using hex_val_append [of "[c]" s] hex_val_snoc(2) [of "[]" c] by simp

lemma decodeNibble_nib: "decodeNibble c = of_nat (nib c)"
  by (simp add: nib_def)

lemma nibble_loop_eq:
  "nibble_loop w s =
     (if \<forall>c \<in> set s. isHexChar c then Some (w * 16 ^ length s + of_nat (hex_val s)) else None)"
proof (induction s arbitrary: w)
  case (Cons c s)
  then show ?case by (auto simp: isHexChar_def hex_val_Cons decodeNibble_nib algebra_simps)
qed simp

lemma word_loop_eq:
  fixes raw :: bytes and k e :: nat
  assumes "e \<le> length raw"
  defines "seg \<equiv> drop (e - 16 * k) (take e raw)"
  shows "if \<forall>c \<in> set seg. isHexChar c
         then \<exists>ws. word_loop k raw e = Some ws \<and> SetBits ws = int (hex_val seg)
         else word_loop k raw e = None"
  using assms(1) unfolding seg_def
proof (induction k arbitrary: e)
  case 0
  then show ?case by (simp add: SetBits_def)
next
  case (Suc k)
  define start where "start = e - 16"
  have IH: "if \<forall>c \<in> set (drop (start - 16 * k) (take start raw)). isHexChar c
    then \<exists>ws. word_loop k raw start = Some ws \<and> SetBits ws = int (hex_val (drop (start - 16 * k) (take start raw)))
    else word_loop k raw start = None" by (rule Suc.IH) (use Suc.prems in \<open>auto simp: start_def\<close>)
  let ?a = "drop (start - 16 * k) (take start raw)" and ?b = "take (e - start) (drop start raw)"
  have "take e raw = take start raw @ ?b" using take_add [of start "e - start" raw] by (simp add: start_def)
  moreover have "e - 16 * Suc k - length (take start raw) = 0" "e - 16 * Suc k = start - 16 * k"
    using Suc.prems by (auto simp: start_def)
  ultimately have seg: "drop (e - 16 * Suc k) (take e raw) = ?a @ ?b" by (metis drop_0 drop_append)
  have st: "(if e < bigWordNibbles then 0 else e - bigWordNibbles) = start"
    by (simp add: bigWordNibbles_def start_def)
  have len: "length ?b \<le> 16" by (simp add: start_def)
  have val: "hex_val ?a * 16 ^ length ?b = hex_val ?a * 2 ^ 64"
  proof (cases "e < 16")
    case True
    then show ?thesis by (simp add: start_def)
  next
    case False
    then have "length ?b = 16" using Suc.prems by (simp add: start_def)
    then show ?thesis by simp
  qed
  show ?case
  proof (cases "\<forall>c \<in> set ?b. isHexChar c")
    case True
    have "hex_val ?b < 16 ^ length ?b" using hex_val_less True by blast
    also have "(16 :: nat) ^ length ?b \<le> 16 ^ 16" using len by (intro power_increasing) auto
    finally have lt: "hex_val ?b < 2 ^ 64" by simp
    have nl: "nibble_loop 0 ?b = Some (of_nat (hex_val ?b))" using True by (simp add: nibble_loop_eq)
    have u: "uint (of_nat (hex_val ?b) :: u64) = int (hex_val ?b)"
      using lt by (simp add: uint_nat unat_of_nat)
    show ?thesis
    proof (cases "\<forall>c \<in> set ?a. isHexChar c")
      case a: True
      then obtain ws where ws: "word_loop k raw start = Some ws" "SetBits ws = int (hex_val ?a)" using IH by auto
      have "word_loop (Suc k) raw e = Some (of_nat (hex_val ?b) # ws)"
        by (simp only: word_loop.simps Let_def st nl ws option.simps)
      moreover have "SetBits (of_nat (hex_val ?b) # ws) = int (hex_val (?a @ ?b))"
      proof -
        have "SetBits (of_nat (hex_val ?b) # ws) = int (hex_val ?b) + 2 ^ 64 * int (hex_val ?a)"
          using ws(2) u by (simp add: SetBits_def)
        moreover have "hex_val (?a @ ?b) = hex_val ?a * 2 ^ 64 + hex_val ?b" by (simp only: hex_val_append val)
        ultimately show ?thesis by simp
      qed
      ultimately show ?thesis using True a unfolding seg by auto
    next
      case a: False
      then have "word_loop k raw start = None" using IH by meson
      then have "word_loop (Suc k) raw e = None" by (simp only: word_loop.simps Let_def st nl option.simps)
      then show ?thesis using a unfolding seg by auto
    qed
  next
    case False
    then have "nibble_loop 0 ?b = None" by (simp only: nibble_loop_eq if_False)
    then have "word_loop (Suc k) raw e = None" by (simp only: word_loop.simps Let_def st option.simps)
    then show ?thesis using False unfolding seg by auto
  qed
qed

lemma word_loop_all:
  "word_loop (length raw div bigWordNibbles + 1) raw (length raw) = None \<longleftrightarrow> \<not> (\<forall>c \<in> set raw. isHexChar c)"
  "word_loop (length raw div bigWordNibbles + 1) raw (length raw) = Some ws \<Longrightarrow> SetBits ws = int (hex_val raw)"
proof -
  have z: "length raw - 16 * (length raw div bigWordNibbles + 1) = 0"
    unfolding bigWordNibbles_def by presburger
  have all: "if \<forall>c \<in> set raw. isHexChar c
    then \<exists>ws. word_loop (length raw div bigWordNibbles + 1) raw (length raw) = Some ws \<and> SetBits ws = int (hex_val raw)
    else word_loop (length raw div bigWordNibbles + 1) raw (length raw) = None"
    using word_loop_eq [OF order_refl, of raw "length raw div bigWordNibbles + 1"]
    unfolding z drop_0 take_all [OF order_refl] .
  show "word_loop (length raw div bigWordNibbles + 1) raw (length raw) = None \<longleftrightarrow> \<not> (\<forall>c \<in> set raw. isHexChar c)"
    "word_loop (length raw div bigWordNibbles + 1) raw (length raw) = Some ws \<Longrightarrow> SetBits ws = int (hex_val raw)"
    using all by (auto simp del: word_loop.simps split: if_splits)
qed

lemma unat_u64_less: "unat (x :: u64) < 2 ^ 64"
  using unsigned_less [of x] by simp

lemma ParseUint_loop_iff:
  "ParseUint_loop n s = (v, None) \<longleftrightarrow>
     (\<forall>c \<in> set s. isHexChar c) \<and> unat n * 16 ^ length s + hex_val s < 2 ^ 64 \<and>
     v = of_nat (unat n * 16 ^ length s + hex_val s)"
proof (induction s arbitrary: n)
  case Nil
  show ?case using unat_u64_less [of n] by auto
next
  case (Cons c s)
  show ?case
  proof (cases "isHexChar c")
    case True
    have m: "unat n * 16 ^ length (c # s) + hex_val (c # s) = (unat n * 16 + nib c) * 16 ^ length s + hex_val s"
      by (simp add: hex_val_Cons algebra_simps)
    show ?thesis
    proof (cases "n \<ge> 1152921504606846976")
      case big: True
      then have "(2 :: nat) ^ 64 \<le> unat n * 16" by (simp add: word_le_nat_alt)
      also have "\<dots> \<le> (unat n * 16 + nib c) * 1" by simp
      also have "\<dots> \<le> (unat n * 16 + nib c) * 16 ^ length s" by (intro mult_left_mono) auto
      finally have "\<not> unat n * 16 ^ length (c # s) + hex_val (c # s) < 2 ^ 64" unfolding m by linarith
      then show ?thesis using big True by (simp del: power_Suc)
    next
      case False
      then have "unat n * 16 + nib c < 2 ^ 64" using nib_less [OF True] by (simp add: word_le_nat_alt)
      then have "unat (n * 16 + of_nat (nib c)) = unat n * 16 + nib c"
        by (simp add: unat_word_ariths unat_of_nat mod_simps)
      then show ?thesis using True False Cons.IH [of "n * 16 + of_nat (nib c)"] unfolding m by simp
    qed
  qed simp
qed

section \<open>The strings that decode\<close>

lemma unat_lower: "unat (lower c) = (if 65 \<le> unat c \<and> unat c \<le> 90 then unat c + 32 else unat c)"
  by (simp add: lower_def word_le_nat_alt unat_word_ariths)

lemma lower_eq [simp]: "lower c = 48 \<longleftrightarrow> c = 48" "lower c = 120 \<longleftrightarrow> c = 120 \<or> c = 88"
  by (auto simp: word_unat_eq_iff unat_lower split: if_splits)

lemma isHexChar_range:
  "isHexChar c \<longleftrightarrow> unat c \<in> {48..57} \<union> {65..70} \<union> {97..102}"
  using badNibble_large by (auto simp: isHexChar_def decodeNibble_def word_le_nat_alt)

lemma isHexChar_lower [simp]: "isHexChar (lower c) \<longleftrightarrow> isHexChar c"
  by (auto simp: isHexChar_range unat_lower)

lemma nib_lower [simp]: "isHexChar c \<Longrightarrow> nib (lower c) = nib c"
  by (metis hexDigit_facts(2) hexDigit_nib nib_less)

lemma hex_val_lower: "\<forall>c \<in> set s. isHexChar c \<Longrightarrow> hex_val (map lower s) = hex_val s"
  by (induction s) (auto simp: hex_val_Cons)

lemma lower_hex_digits_iff:
  "map lower raw = hex_digits v \<longleftrightarrow>
     (\<forall>c \<in> set raw. isHexChar c) \<and> raw \<noteq> [] \<and> (length raw > 1 \<longrightarrow> raw ! 0 \<noteq> 48) \<and> v = hex_val raw"
proof
  assume eq: "map lower raw = hex_digits v"
  have "\<forall>c \<in> set (map lower raw). isHexChar c" using hex_digits_ok [of v] by (simp add: eq)
  then have hex: "\<forall>c \<in> set raw. isHexChar c" by simp
  have ne: "raw \<noteq> []" using eq hex_digits_ok [of v] by auto
  have "raw ! 0 \<noteq> 48" if "length raw > 1"
  proof
    assume "raw ! 0 = 48"
    then have "hd (hex_digits v) = 48" using ne eq [symmetric] by (cases raw) auto
    then show False using hex_digits_ok [of v] that length_map [of lower raw] by (simp add: eq)
  qed
  moreover have "v = hex_val raw" using hex_val_lower [OF hex] eq by simp
  ultimately show "(\<forall>c \<in> set raw. isHexChar c) \<and> raw \<noteq> [] \<and> (length raw > 1 \<longrightarrow> raw ! 0 \<noteq> 48) \<and> v = hex_val raw"
    using hex ne by blast
qed (simp add: hex_digits_hex_val hd_conv_nth)

lemma has0xPrefix_iff: "has0xPrefix s \<longleftrightarrow> (\<exists>p q raw. s = p # q # raw \<and> lower p = 48 \<and> lower q = 120)"
  by (cases s; cases "tl s") (auto simp: has0xPrefix_def)

lemma bytesHave0xPrefix_eq: "bytesHave0xPrefix s = has0xPrefix s"
  by (simp add: bytesHave0xPrefix_def has0xPrefix_def)

lemma lower_prefix_iff:
  "map lower s = [48, 120] @ t \<longleftrightarrow> has0xPrefix s \<and> map lower (drop 2 s) = t"
  by (cases s; cases "tl s") (auto simp: has0xPrefix_def)

lemma checkNumber_Inr:
  "checkNumber s = Inr raw \<longleftrightarrow>
     has0xPrefix s \<and> raw = drop 2 s \<and> raw \<noteq> [] \<and> (length raw > 1 \<longrightarrow> raw ! 0 \<noteq> 48)"
  by (auto simp: checkNumber_def has0xPrefix_def Let_def)

lemma checkNumberText_eq: "checkNumberText s = (if s = [] then Inr [] else checkNumber s)"
  by (simp add: checkNumberText_def checkNumber_def bytesHave0xPrefix_eq)

lemma Decode_iff: "Decode s = (b, None) \<longleftrightarrow> map lower s = Encode b"
proof
  assume "Decode s = (b, None)"
  then have "has0xPrefix s" "hex_Decode (drop 2 s) = (b, None)"
    by (auto simp: Decode_def split: if_splits prod.splits)
  then show "map lower s = Encode b" using hex_Decode_None unfolding Encode_def lower_prefix_iff by blast
next
  assume "map lower s = Encode b"
  then have p: "has0xPrefix s" and eq: "map lower (drop 2 s) = hex_Encode b" unfolding Encode_def lower_prefix_iff by auto
  have "\<forall>c \<in> set (map lower (drop 2 s)). isHexChar c" "length (map lower (drop 2 s)) = 2 * length b"
    using hex_Decode_None [OF hex_Decode_Encode, of b] by (auto simp: eq)
  then obtain b' where b': "hex_Decode (drop 2 s) = (b', None)" using hex_Decode_total [of "drop 2 s"] by auto
  then have "hex_Encode b' = hex_Encode b" using hex_Decode_None [OF b'] eq by simp
  then have "b' = b" using hex_Decode_Encode by (metis prod.inject)
  then show "Decode s = (b, None)" using p b' by (auto simp: Decode_def has0xPrefix_def)
qed

lemma DecodeUint64_iff: "DecodeUint64 s = (v, None) \<longleftrightarrow> map lower s = EncodeUint64 v"
proof -
  have "DecodeUint64 s = (v, None) \<longleftrightarrow> (\<exists>raw. checkNumber s = Inr raw \<and> ParseUint_loop 0 raw = (v, None))"
  proof (cases "checkNumber s")
    case (Inr raw)
    then have "raw \<noteq> []" unfolding checkNumber_Inr by blast
    then show ?thesis using Inr by (simp add: DecodeUint64_def ParseUint_def split: prod.splits)
  qed (simp add: DecodeUint64_def)
  also have "\<dots> \<longleftrightarrow> has0xPrefix s \<and> drop 2 s \<noteq> [] \<and> (length (drop 2 s) > 1 \<longrightarrow> drop 2 s ! 0 \<noteq> 48) \<and>
      (\<forall>c \<in> set (drop 2 s). isHexChar c) \<and> hex_val (drop 2 s) < 2 ^ 64 \<and> v = of_nat (hex_val (drop 2 s))"
    by (auto simp: checkNumber_Inr ParseUint_loop_iff)
  also have "\<dots> \<longleftrightarrow> has0xPrefix s \<and> map lower (drop 2 s) = hex_digits (unat v)"
  proof -
    have "hex_val (drop 2 s) < 2 ^ 64 \<and> v = of_nat (hex_val (drop 2 s)) \<longleftrightarrow> unat v = hex_val (drop 2 s)"
      using unat_u64_less [of v] by (auto simp: unat_of_nat word_unat_eq_iff)
    then show ?thesis unfolding lower_hex_digits_iff by blast
  qed
  finally show ?thesis by (simp only: EncodeUint64_def lower_prefix_iff)
qed

lemma hex_digits_range: "map lower raw = hex_digits v \<Longrightarrow> 0 < k \<Longrightarrow> length raw \<le> k \<longleftrightarrow> v < 16 ^ k"
  using length_hex_digits_le [of k v] length_map [of lower raw] by simp

lemma EncodeBig_nonneg: "0 \<le> n \<Longrightarrow> EncodeBig n = [48, 120] @ hex_digits (nat n)"
  by (simp add: EncodeBig_def hex_digits.simps hexDigit_def)

lemma DecodeBig_iff: "DecodeBig s = Inr n \<longleftrightarrow> 0 \<le> n \<and> n < 2 ^ 256 \<and> map lower s = EncodeBig n"
proof -
  let ?raw = "drop 2 s"
  have "DecodeBig s = Inr n \<longleftrightarrow> has0xPrefix s \<and> ?raw \<noteq> [] \<and> (length ?raw > 1 \<longrightarrow> ?raw ! 0 \<noteq> 48) \<and>
      length ?raw \<le> 64 \<and> (\<forall>c \<in> set ?raw. isHexChar c) \<and> n = int (hex_val ?raw)"
  proof (cases "checkNumber s")
    case (Inl e)
    then show ?thesis using checkNumber_Inr [of s ?raw] by (auto simp: DecodeBig_def)
  next
    case (Inr raw)
    then have raw: "has0xPrefix s" "raw = ?raw" "?raw \<noteq> []" "length ?raw > 1 \<longrightarrow> ?raw ! 0 \<noteq> 48" by (auto simp: checkNumber_Inr)
    show ?thesis
      using Inr raw word_loop_all [of ?raw]
      by (auto simp: DecodeBig_def simp del: word_loop.simps split: option.splits)
  qed
  also have "\<dots> \<longleftrightarrow> 0 \<le> n \<and> has0xPrefix s \<and> map lower ?raw = hex_digits (nat n) \<and> length ?raw \<le> 64"
    unfolding lower_hex_digits_iff by auto
  also have "\<dots> \<longleftrightarrow> 0 \<le> n \<and> n < 2 ^ 256 \<and> has0xPrefix s \<and> map lower ?raw = hex_digits (nat n)"
  proof -
    have "nat n < 16 ^ 64 \<longleftrightarrow> n < 2 ^ 256" if "0 \<le> n" using that by (simp add: nat_less_iff)
    then show ?thesis using hex_digits_range [of ?raw "nat n" 64] by auto
  qed
  finally show ?thesis using EncodeBig_nonneg [of n] by (auto simp: lower_prefix_iff simp del: append.simps)
qed

section \<open>Text and JSON forms agree\<close>

lemma hex_Decode_parity: "hex_Decode s = (b, None) \<Longrightarrow> length s mod 2 = 0"
  using hex_Decode_None [of s b] by simp

lemma checkText_Inr:
  "checkText s True = Inr raw \<longleftrightarrow>
     (if s = [] then raw = [] else has0xPrefix s \<and> raw = drop 2 s \<and> length raw mod 2 = 0)"
  by (auto simp: checkText_def bytesHave0xPrefix_eq Let_def)

lemma Bytes_UnmarshalText_iff:
  "Bytes_UnmarshalText b s = (None, v) \<longleftrightarrow> Decode s = (v, None) \<or> s = [] \<and> v = []"
proof (cases "checkText s True")
  case (Inl e)
  then have "s \<noteq> []" "\<not> (has0xPrefix s \<and> length (drop 2 s) mod 2 = 0)"
    using checkText_Inr [of s "drop 2 s"] by (auto split: if_splits)
  then show ?thesis using Inl hex_Decode_parity [of "drop 2 s"]
    by (cases "snd (hex_Decode (drop 2 s))") (auto simp: Bytes_UnmarshalText_def Decode_def split: prod.splits option.splits)
next
  case (Inr raw)
  have eq: "Bytes_UnmarshalText b s = (None, v) \<longleftrightarrow> hex_Decode raw = (v, None)"
    using Inr by (auto simp: Bytes_UnmarshalText_def split: prod.splits option.splits)
  show ?thesis
  proof (cases "s = []")
    case True
    then show ?thesis using Inr unfolding eq by (auto simp: checkText_Inr Decode_def)
  next
    case False
    then have "has0xPrefix s" "raw = drop 2 s" using Inr by (auto simp: checkText_Inr)
    then show ?thesis unfolding eq using False by (auto simp: Decode_def split: prod.splits)
  qed
qed

lemma Uint64_UnmarshalText_iff:
  "Uint64_UnmarshalText b s = (None, v) \<longleftrightarrow> DecodeUint64 s = (v, None) \<or> s = [] \<and> v = 0"
proof (cases "s = []")
  case True
  then show ?thesis by (auto simp: Uint64_UnmarshalText_def checkNumberText_def DecodeUint64_def checkNumber_def)
next
  case False
  let ?raw = "drop 2 s"
  show ?thesis
  proof (cases "checkNumber s")
    case (Inl e)
    then show ?thesis using False by (simp add: Uint64_UnmarshalText_def DecodeUint64_def checkNumberText_eq)
  next
    case (Inr raw)
    then have raw: "has0xPrefix s" "raw = ?raw" "?raw \<noteq> []" "length ?raw > 1 \<longrightarrow> ?raw ! 0 \<noteq> 48"
      unfolding checkNumber_Inr by blast+
    have "Uint64_UnmarshalText b s = (None, v) \<longleftrightarrow>
        length ?raw \<le> 16 \<and> (\<forall>c \<in> set ?raw. isHexChar c) \<and> v = of_nat (hex_val ?raw)"
      using False Inr raw(2) by (auto simp: Uint64_UnmarshalText_def checkNumberText_eq nibble_loop_eq)
    also have "\<dots> \<longleftrightarrow> (\<forall>c \<in> set ?raw. isHexChar c) \<and> hex_val ?raw < 2 ^ 64 \<and> v = of_nat (hex_val ?raw)"
      using hex_digits_range [of ?raw "hex_val ?raw" 16] lower_hex_digits_iff [of ?raw "hex_val ?raw"] raw(3,4) by auto
    also have "\<dots> \<longleftrightarrow> DecodeUint64 s = (v, None)"
      using Inr raw(2,3) ParseUint_loop_iff [of 0 ?raw v] by (cases "ParseUint_loop 0 ?raw") (simp add: DecodeUint64_def ParseUint_def)
    finally show ?thesis using False by simp
  qed
qed

lemma Big_UnmarshalText_iff:
  "Big_UnmarshalText b s = (None, n) \<longleftrightarrow> DecodeBig s = Inr n \<or> s = [] \<and> n = 0"
proof (cases "s = []")
  case True
  then show ?thesis
    by (auto simp: Big_UnmarshalText_def checkNumberText_def DecodeBig_def checkNumber_def SetBits_def)
next
  case False
  then show ?thesis
    by (auto simp: Big_UnmarshalText_def DecodeBig_def checkNumberText_eq simp del: word_loop.simps
        split: sum.splits option.splits)
qed

lemma Uint_UnmarshalText_iff:
  "Uint_UnmarshalText b s = (None, v) \<longleftrightarrow> Uint64_UnmarshalText 0 s = (None, v)"
proof -
  have "\<not> x > (NOT 0 :: u64)" for x by (simp add: not_less)
  then show ?thesis by (auto simp: Uint_UnmarshalText_def split: prod.splits)
qed

text \<open>The decoders keep the receiver on an error, and report only errors of the package.\<close>

lemma unmarshal_errors:
  "Bytes_UnmarshalText b s = (Some e, b') \<Longrightarrow> b' = b \<and> (\<exists>d. e = DecError d)"
  "Uint64_UnmarshalText u s = (Some e, u') \<Longrightarrow> u' = u \<and> (\<exists>d. e = DecError d)"
  "Big_UnmarshalText i s = (Some e, i') \<Longrightarrow> i' = i \<and> (\<exists>d. e = DecError d)"
  by (auto simp: Bytes_UnmarshalText_def Uint64_UnmarshalText_def Big_UnmarshalText_def simp del: word_loop.simps
      split: sum.splits prod.splits option.splits if_splits)

lemma Uint_unmarshal_errors:
  "Uint_UnmarshalText u s = (Some e, u') \<Longrightarrow> u' = u \<and> (\<exists>d. e = DecError d)"
  using unmarshal_errors(2) [of 0 s]
  by (auto simp: Uint_UnmarshalText_def Let_def split: prod.splits if_splits)

text \<open>A string value of JSON whose characters need no escape.\<close>

definition json_quote :: "bytes \<Rightarrow> bytes" where
  "json_quote s = [34] @ s @ [34]"

lemma isString_json_quote [simp]: "isString (json_quote s)" "butlast (tl (json_quote s)) = s"
  by (simp_all add: isString_def json_quote_def nth_append)

locale text_codec =
  fixes marshal :: "'a \<Rightarrow> bytes"
    and unmarshal :: "'a \<Rightarrow> bytes \<Rightarrow> hexutil_error option \<times> 'a"
    and dom_ok :: "'a \<Rightarrow> bool"
  assumes unmarshal_marshal: "dom_ok v \<Longrightarrow> unmarshal b (marshal v) = (None, v)"
    and unmarshal_error: "unmarshal b s = (Some e, b') \<Longrightarrow> b' = b \<and> (\<exists>d. e = DecError d)"

locale json_codec = text_codec marshal unmarshal dom_ok
  for marshal :: "'a \<Rightarrow> bytes" and unmarshal :: "'a \<Rightarrow> bytes \<Rightarrow> hexutil_error option \<times> 'a" and dom_ok +
  fixes unmarshal_json :: "'a \<Rightarrow> bytes \<Rightarrow> hexutil_error option \<times> 'a"
    and typename :: string
  assumes unmarshal_json: "unmarshal_json b input =
    (if \<not> isString input then (Some (errNonString typename), b)
     else let (err, b') = unmarshal b (butlast (tl input)) in (wrapTypeError err typename, b'))"
begin

lemma json_roundtrip: "dom_ok v \<Longrightarrow> unmarshal_json b (json_quote (marshal v)) = (None, v)"
  by (simp add: unmarshal_json unmarshal_marshal)

lemma json_error:
  assumes "unmarshal_json b s = (Some e, b')"
  shows "b' = b \<and> (if isString s then \<exists>d. e = UnmarshalTypeError d typename else e = NonString typename)"
proof (cases "isString s")
  case True
  obtain err c where u: "unmarshal b (butlast (tl s)) = (err, c)" by fastforce
  then have eq: "wrapTypeError err typename = Some e" "c = b'" using assms True by (auto simp: unmarshal_json)
  then obtain x where x: "err = Some x" by (cases err) auto
  obtain d where d: "x = DecError d" "b' = b" using unmarshal_error u x eq(2) by blast
  then show ?thesis using True eq x by auto
qed (use assms in \<open>auto simp: unmarshal_json errNonString_def\<close>)

end

lemma lower_Encode [simp]: "map lower (hex_Encode b) = hex_Encode b" "map lower (hex_digits n) = hex_digits n"
proof -
  have "map lower (map lower s) = map lower s" for s by (simp add: comp_def lower_def word_le_nat_alt unat_word_ariths)
  then show "map lower (hex_Encode b) = hex_Encode b" using hex_Decode_None [OF hex_Decode_Encode, of b] by metis
  show "map lower (hex_digits n) = hex_digits n" using hex_digits_hex_val hex_digits_ok by (metis hex_val_hex_digits)
qed

lemma lower_0x [simp]: "lower 48 = 48" "lower 120 = 120"
  by simp_all

lemma unmarshal_marshal_text:
  "Bytes_UnmarshalText b (Bytes_MarshalText v) = (None, v)"
  "Uint64_UnmarshalText u (Uint64_MarshalText x) = (None, x)"
  "Uint_UnmarshalText u (Uint_MarshalText x) = (None, x)"
  "0 \<le> n \<and> n < 2 ^ 256 \<Longrightarrow> Big_UnmarshalText i (Big_MarshalText n) = (None, n)"
  by (simp_all add: Bytes_UnmarshalText_iff Decode_iff Bytes_MarshalText_def Encode_def
      Uint_UnmarshalText_iff Uint_MarshalText_def Uint64_UnmarshalText_iff DecodeUint64_iff
      Uint64_MarshalText_def EncodeUint64_def Big_UnmarshalText_iff DecodeBig_iff Big_MarshalText_def EncodeBig_nonneg)

interpretation bytes_json: json_codec Bytes_MarshalText Bytes_UnmarshalText "\<lambda>_. True"
  Bytes_UnmarshalJSON "''hexutil.Bytes''"
  by unfold_locales (simp_all add: unmarshal_marshal_text unmarshal_errors Bytes_UnmarshalJSON_def)

interpretation uint64_json: json_codec Uint64_MarshalText Uint64_UnmarshalText "\<lambda>_. True"
  Uint64_UnmarshalJSON "''hexutil.Uint64''"
  by unfold_locales (simp_all add: unmarshal_marshal_text unmarshal_errors Uint64_UnmarshalJSON_def)

interpretation uint_json: json_codec Uint_MarshalText Uint_UnmarshalText "\<lambda>_. True"
  Uint_UnmarshalJSON "''hexutil.Uint''"
  by unfold_locales (simp_all add: unmarshal_marshal_text Uint_unmarshal_errors Uint_UnmarshalJSON_def)

interpretation big_json: json_codec Big_MarshalText Big_UnmarshalText "\<lambda>n. 0 \<le> n \<and> n < 2 ^ 256"
  Big_UnmarshalJSON "''*hexutil.Big''"
  by unfold_locales (simp_all add: unmarshal_marshal_text unmarshal_errors Big_UnmarshalJSON_def)

text \<open>
  C34: Each decoder of the package accepts exactly the encodings of its values, up to the case of
  the digits and of the prefix: \<^verbatim>\<open>Decode\<close> those of byte strings, \<^verbatim>\<open>DecodeUint64\<close> those of
  64-bit numbers and \<^verbatim>\<open>DecodeBig\<close> those of numbers of at most 256 bits, without leading zeros.
\<close>

theorem hexutil_decoders_canonical:
  "(Decode s = (b, None) \<longleftrightarrow> map lower s = Encode b) \<and>
   (DecodeUint64 s = (v, None) \<longleftrightarrow> map lower s = EncodeUint64 v) \<and>
   (DecodeBig s = Inr n \<longleftrightarrow> 0 \<le> n \<and> n < 2 ^ 256 \<and> map lower s = EncodeBig n)"
  by (intro conjI Decode_iff DecodeUint64_iff DecodeBig_iff)

text \<open>
  C35: The loops of the text methods, which wrap at 64 bits and build big numbers word by word,
  accept the same strings with the same values as the string decoders, which use
  \<^verbatim>\<open>strconv\<close> and \<^verbatim>\<open>encoding/hex\<close>; besides them they accept only the empty text, as zero.
\<close>

theorem hexutil_text_equivalent:
  "(Bytes_UnmarshalText b s = (None, v) \<longleftrightarrow> Decode s = (v, None) \<or> s = [] \<and> v = []) \<and>
   (Uint64_UnmarshalText u s = (None, x) \<longleftrightarrow> DecodeUint64 s = (x, None) \<or> s = [] \<and> x = 0) \<and>
   (Uint_UnmarshalText u s = (None, x) \<longleftrightarrow> DecodeUint64 s = (x, None) \<or> s = [] \<and> x = 0) \<and>
   (Big_UnmarshalText i s = (None, n) \<longleftrightarrow> DecodeBig s = Inr n \<or> s = [] \<and> n = 0)"
  by (simp only: Bytes_UnmarshalText_iff Uint64_UnmarshalText_iff Uint_UnmarshalText_iff Big_UnmarshalText_iff simp_thms)



text \<open>
  When \<^verbatim>\<open>UnmarshalJSON\<close> fails, the receiver keeps its value, and the error is a JSON type
  error of the type being read: a non-string, or the decoding error wrapped.
\<close>

theorem hexutil_json_errors:
  "(Bytes_UnmarshalJSON b s = (Some e, b') \<longrightarrow>
     b' = b \<and> (if isString s then \<exists>d. e = UnmarshalTypeError d ''hexutil.Bytes'' else e = NonString ''hexutil.Bytes'')) \<and>
   (Uint64_UnmarshalJSON u s = (Some e, u') \<longrightarrow>
     u' = u \<and> (if isString s then \<exists>d. e = UnmarshalTypeError d ''hexutil.Uint64'' else e = NonString ''hexutil.Uint64'')) \<and>
   (Uint_UnmarshalJSON u s = (Some e, u') \<longrightarrow>
     u' = u \<and> (if isString s then \<exists>d. e = UnmarshalTypeError d ''hexutil.Uint'' else e = NonString ''hexutil.Uint'')) \<and>
   (Big_UnmarshalJSON i s = (Some e, i') \<longrightarrow>
     i' = i \<and> (if isString s then \<exists>d. e = UnmarshalTypeError d ''*hexutil.Big'' else e = NonString ''*hexutil.Big''))"
  by (rule conjI [OF _ conjI [OF _ conjI]]; rule impI;
      erule bytes_json.json_error uint64_json.json_error uint_json.json_error big_json.json_error)

theorem hexutil_json_errors_witness:
  "\<exists>e u'. Uint64_UnmarshalJSON 5 (json_quote [48, 120, 48, 49]) = (Some e, u') \<and> u' = 5 \<and>
     (\<exists>d. e = UnmarshalTypeError d ''hexutil.Uint64'')"
proof -
  have eq: "Uint64_UnmarshalJSON 5 (json_quote [48, 120, 48, 49]) =
     (Some (UnmarshalTypeError ErrLeadingZero ''hexutil.Uint64''), 5)" by code_simp
  then show ?thesis
    using hexutil_json_errors [of _ "json_quote [48, 120, 48, 49]" "UnmarshalTypeError ErrLeadingZero ''hexutil.Uint64''" _ 5 5]
    by auto
qed

section \<open>Fixed-size values\<close>

lemma UnmarshalFixed_prefixed:
  "UnmarshalFixed True t s out =
     (case checkText s True of Inl e \<Rightarrow> (Some (DecError e), out)
      | Inr raw \<Rightarrow>
          if length raw div 2 \<noteq> length out then (Some (LengthError (length raw) (length out * 2) t), out)
          else case hex_Decode raw of (d, None) \<Rightarrow> (None, d) | _ \<Rightarrow> (Some (DecError ErrSyntax), out))"
proof (cases "checkText s True")
  case (Inr raw)
  then have par: "length raw mod 2 = 0" by (auto simp: checkText_Inr split: if_splits)
  have bad: "(\<exists>c \<in> set raw. decodeNibble c = badNibble) \<longleftrightarrow> \<not> (\<forall>c \<in> set raw. isHexChar c)"
    by (simp add: isHexChar_def)
  obtain d r where d: "hex_Decode raw = (d, r)" by fastforce
  show ?thesis
  proof (cases "\<forall>c \<in> set raw. isHexChar c")
    case True
    then have "r = None" using hex_Decode_total [of raw] par d by auto
    moreover have "length raw = 2 * length d" using hex_Decode_None [of raw d] d \<open>r = None\<close> by simp
    ultimately show ?thesis using True Inr d by (simp add: UnmarshalFixed_def bad)
  next
    case False
    then have "r \<noteq> None" using hex_Decode_None [of raw d] d by (cases r) auto
    then show ?thesis using False Inr d by (auto simp: UnmarshalFixed_def bad)
  qed
qed (simp add: UnmarshalFixed_def)

text \<open>
  \<^verbatim>\<open>UnmarshalFixedText\<close> fills the output exactly when the input is the hex form of a value
  of the output's length (the empty text for length 0), it never changes the length of the output,
  and on every error the output keeps its bytes.
\<close>

theorem UnmarshalFixedText_spec:
  "case UnmarshalFixedText t s out of (err, out') \<Rightarrow>
     length out' = length out \<and> (err = None \<longleftrightarrow> (\<exists>v. length v = length out \<and> (map lower s = Encode v \<or> s = [] \<and> v = []))) \<and>
     (if err = None then map lower s = Encode out' \<or> s = [] \<and> out' = [] else out' = out)"
proof -
  have bytes: "(Bytes_UnmarshalText b s = (None, v)) = (map lower s = Encode v \<or> s = [] \<and> v = [])" for b v
    by (simp only: Bytes_UnmarshalText_iff Decode_iff)
  show ?thesis
  proof (cases "checkText s True")
    case (Inl e)
    then have "Bytes_UnmarshalText b s \<noteq> (None, v)" for b v by (simp add: Bytes_UnmarshalText_def)
    then show ?thesis using Inl unfolding bytes by (auto simp: UnmarshalFixedText_def UnmarshalFixed_prefixed)
  next
    case (Inr raw)
    obtain d r where d: "hex_Decode raw = (d, r)" by fastforce
    have iff: "(map lower s = Encode v \<or> s = [] \<and> v = []) \<longleftrightarrow> r = None \<and> v = d" for v
      using Inr d unfolding bytes [of "[]" v, symmetric] by (auto simp: Bytes_UnmarshalText_def split: option.splits)
    have len: "r = None \<Longrightarrow> length raw = 2 * length d" using hex_Decode_None [of raw d] d by simp
    show ?thesis
      unfolding iff using Inr d len by (auto simp: UnmarshalFixedText_def UnmarshalFixed_prefixed split: option.splits)
  qed
qed

end
