(* ===== verification/Common_Math.thy ===== *)
theory Common_Math
  imports Hexutil
begin

text \<open>
  The package \<^verbatim>\<open>common/math\<close>: checked 64-bit arithmetic and number parsing
  (\<^verbatim>\<open>integer.go\<close>), and helpers on big integers, which work on the 64-bit words of the
  absolute value (\<^verbatim>\<open>big.go\<close>).
\<close>

section \<open>Checked 64-bit arithmetic\<close>

definition MaxUint64 :: u64 where
  "MaxUint64 = 18446744073709551615"

definition SafeSub :: "u64 \<Rightarrow> u64 \<Rightarrow> u64 \<times> bool" where
  "SafeSub x y = (x - y, x < y)"

definition SafeAdd :: "u64 \<Rightarrow> u64 \<Rightarrow> u64 \<times> bool" where
  "SafeAdd x y = (x + y, y > MaxUint64 - x)"

definition SafeMul :: "u64 \<Rightarrow> u64 \<Rightarrow> u64 \<times> bool" where
  "SafeMul x y = (if x = 0 \<or> y = 0 then (0, False) else (x * y, y > MaxUint64 div x))"

section \<open>Parsing\<close>

definition isDigit :: "byte \<Rightarrow> bool" where
  "isDigit c \<longleftrightarrow> 48 \<le> c \<and> c \<le> 57"

text \<open>\<^verbatim>\<open>strconv.ParseUint(s, 10, 64)\<close>, with its two tests for overflow.\<close>

fun ParseUint10_loop :: "u64 \<Rightarrow> bytes \<Rightarrow> u64 \<times> num_error option" where
  "ParseUint10_loop n [] = (n, None)"
| "ParseUint10_loop n (c # s) =
     (if \<not> isDigit c then (0, Some SyntaxError)
      else if n \<ge> 1844674407370955162 then (NOT 0, Some RangeError)
      else let n1 = n * 10 + ucast (c - 48) in
        if n1 < n * 10 then (NOT 0, Some RangeError) else ParseUint10_loop n1 s)"

definition ParseUint10 :: "bytes \<Rightarrow> u64 \<times> num_error option" where
  "ParseUint10 s = (if s = [] then (0, Some SyntaxError) else ParseUint10_loop 0 s)"

definition ParseUint64 :: "bytes \<Rightarrow> u64 \<times> bool" where
  "ParseUint64 s =
     (if s = [] then (0, True)
      else if length s \<ge> 2 \<and> (take 2 s = [48, 120] \<or> take 2 s = [48, 88])
      then (let (v, err) = ParseUint (drop 2 s) in (v, err = None))
      else (let (v, err) = ParseUint10 s in (v, err = None)))"

definition MustParseUint64 :: "bytes \<Rightarrow> u64 option" where
  "MustParseUint64 s = (case ParseUint64 s of (v, True) \<Rightarrow> Some v | _ \<Rightarrow> None)"

text \<open>The receiver's new value, or the error.\<close>

definition HexOrDecimal64_UnmarshalText :: "bytes \<Rightarrow> bytes + u64" where
  "HexOrDecimal64_UnmarshalText input = (case ParseUint64 input of (v, ok) \<Rightarrow> if \<not> ok then Inl input else Inr v)"

text \<open>\<^verbatim>\<open>%#x\<close> of a number.\<close>

definition HexOrDecimal64_MarshalText :: "u64 \<Rightarrow> bytes" where
  "HexOrDecimal64_MarshalText i = [48, 120] @ hex_digits (unat i)"

text \<open>\<^verbatim>\<open>(*big.Int).SetString\<close> in base 10 and 16: an optional sign and at least one digit.\<close>

definition dec_val :: "bytes \<Rightarrow> nat" where
  "dec_val s = foldl (\<lambda>n c. n * 10 + unat (c - 48)) 0 s"

definition SetString :: "bytes \<Rightarrow> nat \<Rightarrow> int option" where
  "SetString s base =
     (let neg = (s \<noteq> [] \<and> hd s = 45); d = (if s \<noteq> [] \<and> (hd s = 45 \<or> hd s = 43) then tl s else s) in
      if d \<noteq> [] \<and> list_all (if base = 16 then isHexChar else isDigit) d
      then Some ((if neg then -1 else 1) * int (if base = 16 then hex_val d else dec_val d))
      else None)"

fun bit_len :: "nat \<Rightarrow> nat" where
  "bit_len n = (if n = 0 then 0 else Suc (bit_len (n div 2)))"

declare bit_len.simps [simp del]

definition BitLen :: "int \<Rightarrow> nat" where
  "BitLen x = bit_len (nat \<bar>x\<bar>)"

definition ParseBig256 :: "bytes \<Rightarrow> int option" where
  "ParseBig256 s =
     (if s = [] then Some 0
      else case (if length s \<ge> 2 \<and> (take 2 s = [48, 120] \<or> take 2 s = [48, 88])
                 then SetString (drop 2 s) 16 else SetString s 10) of
        Some bigint \<Rightarrow> if BitLen bigint > 256 then None else Some bigint
      | None \<Rightarrow> None)"

definition HexOrDecimal256_UnmarshalText :: "bytes \<Rightarrow> bytes + int" where
  "HexOrDecimal256_UnmarshalText input = (case ParseBig256 input of None \<Rightarrow> Inl input | Some v \<Rightarrow> Inr v)"

text \<open>A nil receiver is \<^term>\<open>None\<close>.\<close>

definition HexOrDecimal256_MarshalText :: "int option \<Rightarrow> bytes" where
  "HexOrDecimal256_MarshalText i =
     (case i of None \<Rightarrow> [48, 120, 48]
      | Some x \<Rightarrow> (if x < 0 then [45] else []) @ [48, 120] @ hex_digits (nat \<bar>x\<bar>))"

section \<open>Big integers\<close>

text \<open>\<^verbatim>\<open>(*big.Int).Bits()\<close>: the words of the absolute value, least significant first.\<close>

fun words_of :: "nat \<Rightarrow> u64 list" where
  "words_of n = (if n = 0 then [] else of_nat n # words_of (n div 2 ^ 64))"

declare words_of.simps [simp del]

definition Bits :: "int \<Rightarrow> u64 list" where
  "Bits x = words_of (nat \<bar>x\<bar>)"

definition wordBytes :: nat where
  "wordBytes = 8"

definition wordBits :: nat where
  "wordBits = 64"

definition tt255 :: int where
  "tt255 = 2 ^ 255"

definition tt256 :: int where
  "tt256 = 2 ^ 256"

definition tt256m1 :: int where
  "tt256m1 = tt256 - 1"

definition BigPow :: "int \<Rightarrow> int \<Rightarrow> int" where
  "BigPow a b = (if b \<le> 0 then 1 else a ^ nat b)"

definition BigMax :: "int \<Rightarrow> int \<Rightarrow> int" where
  "BigMax x y = (if x < y then y else x)"

definition BigMin :: "int \<Rightarrow> int \<Rightarrow> int" where
  "BigMin x y = (if x > y then y else x)"

fun FirstBitSet_loop :: "nat \<Rightarrow> nat \<Rightarrow> int \<Rightarrow> nat" where
  "FirstBitSet_loop 0 i v = i"
| "FirstBitSet_loop (Suc k) i v = (if bit v i then i else FirstBitSet_loop k (Suc i) v)"

text \<open>The bits of a negative number are those of its two's complement, as in \<^verbatim>\<open>(*big.Int).Bit\<close>.\<close>

definition FirstBitSet :: "int \<Rightarrow> nat" where
  "FirstBitSet v = FirstBitSet_loop (BitLen v) 0 v"

fun ReadBits_word :: "nat \<Rightarrow> u64 \<Rightarrow> nat \<Rightarrow> bytes \<Rightarrow> nat \<times> bytes" where
  "ReadBits_word 0 d i buf = (i, buf)"
| "ReadBits_word (Suc j) d i buf =
     (if i > 0 then ReadBits_word j (drop_bit 8 d) (i - 1) (buf[i - 1 := ucast d]) else (i, buf))"

fun ReadBits_loop :: "u64 list \<Rightarrow> nat \<Rightarrow> bytes \<Rightarrow> bytes" where
  "ReadBits_loop [] i buf = buf"
| "ReadBits_loop (d # ws) i buf = (let (i', buf') = ReadBits_word wordBytes d i buf in ReadBits_loop ws i' buf')"

definition ReadBits :: "int \<Rightarrow> bytes \<Rightarrow> bytes" where
  "ReadBits bigint buf = ReadBits_loop (Bits bigint) (length buf) buf"

definition PaddedBigBytes :: "int \<Rightarrow> nat \<Rightarrow> bytes" where
  "PaddedBigBytes bigint n =
     (if BitLen bigint div 8 \<ge> n then be_bytes (nat \<bar>bigint\<bar>)
      else ReadBits bigint (replicate n 0))"

definition bigEndianByteAt :: "int \<Rightarrow> nat \<Rightarrow> byte" where
  "bigEndianByteAt bigint n =
     (let words = Bits bigint; i = n div wordBytes in
      if i \<ge> length words then 0
      else ucast (drop_bit (8 * (n mod wordBytes)) (words ! i)))"

definition Byte :: "int \<Rightarrow> nat \<Rightarrow> nat \<Rightarrow> byte" where
  "Byte bigint padlength n = (if n \<ge> padlength then 0 else bigEndianByteAt bigint (padlength - 1 - n))"

definition U256 :: "int \<Rightarrow> int" where
  "U256 x = x AND tt256m1"

definition S256 :: "int \<Rightarrow> int" where
  "S256 x = (if x < tt255 then x else x - tt256)"

text \<open>The base is squared in place: its last value is returned beside the result.\<close>

fun Exp_bits :: "nat \<Rightarrow> u64 \<Rightarrow> int \<times> int \<Rightarrow> int \<times> int" where
  "Exp_bits 0 word s = s"
| "Exp_bits (Suc i) word (result, base) =
     Exp_bits i (drop_bit 1 word) (if word AND 1 = 1 then U256 (result * base) else result, U256 (base * base))"

fun Exp_words :: "u64 list \<Rightarrow> int \<times> int \<Rightarrow> int \<times> int" where
  "Exp_words [] s = s"
| "Exp_words (word # ws) s = Exp_words ws (Exp_bits wordBits word s)"

definition Exp :: "int \<Rightarrow> int \<Rightarrow> int \<times> int" where
  "Exp base exponent = Exp_words (Bits exponent) (1, base)"

section \<open>Correctness\<close>

lemma unat_u64_div: "unat (x div y :: u64) = unat x div unat y"
  by (simp add: unat_div)

text \<open>
  C37: The checked operations return the result modulo \<open>2\<^sup>6\<^sup>4\<close>, and their flag says exactly
  whether the true result lies outside the range of the type.
\<close>

theorem Safe_arithmetic_exact:
  "unat (fst (SafeAdd x y)) = (unat x + unat y) mod 2 ^ 64 \<and> (snd (SafeAdd x y) \<longleftrightarrow> unat x + unat y \<ge> 2 ^ 64) \<and>
   int (unat (fst (SafeSub x y))) = (int (unat x) - int (unat y)) mod 2 ^ 64 \<and> (snd (SafeSub x y) \<longleftrightarrow> unat x < unat y) \<and>
   unat (fst (SafeMul x y)) = unat x * unat y mod 2 ^ 64 \<and> (snd (SafeMul x y) \<longleftrightarrow> unat x * unat y \<ge> 2 ^ 64)"
proof -
  have max: "unat MaxUint64 = 2 ^ 64 - 1" by (simp add: MaxUint64_def)
  have le: "x \<le> MaxUint64" by (metis max word_le_nat_alt unat_u64_less Suc_pred' less_Suc_eq_le zero_less_numeral zero_less_power)
  then have "unat (MaxUint64 - x) = 2 ^ 64 - 1 - unat x" by (simp only: unat_sub max)
  then have add: "snd (SafeAdd x y) \<longleftrightarrow> unat x + unat y \<ge> 2 ^ 64"
    using unat_u64_less [of x] by (auto simp: SafeAdd_def word_less_nat_alt)
  have mul: "snd (SafeMul x y) \<longleftrightarrow> unat x * unat y \<ge> 2 ^ 64"
  proof (cases "x = 0 \<or> y = 0")
    case False
    then have px: "unat x > 0" by (simp add: unat_gt_0)
    have "unat y > (2 ^ 64 - 1) div unat x \<longleftrightarrow> unat y * unat x > 2 ^ 64 - 1"
      using px by (rule div_less_iff_less_mult)
    then show ?thesis using False by (auto simp: SafeMul_def word_less_nat_alt unat_div max mult.commute)
  qed (auto simp: SafeMul_def)
  have sub: "int (unat (x - y)) = (int (unat x) - int (unat y)) mod 2 ^ 64"
    using uint_word_ariths(2) [of x y] by simp
  have "unat (fst (SafeMul x y)) = unat x * unat y mod 2 ^ 64"
    by (auto simp: SafeMul_def unat_word_ariths)
  then show ?thesis using add mul sub by (simp add: SafeAdd_def SafeSub_def unat_word_ariths word_less_nat_alt)
qed

section \<open>Words and bytes\<close>

lemma bit_len_le: "bit_len n \<le> k \<longleftrightarrow> n < 2 ^ k"
proof (induction n arbitrary: k rule: bit_len.induct)
  case (1 n)
  show ?case
  proof (cases "n = 0")
    case False
    show ?thesis
    proof (cases k)
      case (Suc j)
      have "bit_len n \<le> k \<longleftrightarrow> bit_len (n div 2) \<le> j" using False Suc by (simp add: bit_len.simps [of n])
      also have "\<dots> \<longleftrightarrow> n div 2 < 2 ^ j" using "1.IH" [OF False] .
      finally show ?thesis using Suc by (simp add: div_less_iff_less_mult mult.commute)
    qed (use False in \<open>simp add: bit_len.simps [of n]\<close>)
  qed (simp add: bit_len.simps)
qed

lemma be_fixed_add: "be_fixed (a + b) n = be_fixed a (n div 256 ^ b) @ be_fixed b n"
  by (induction b arbitrary: n) (simp_all add: div_mult2_eq)

lemma be_fixed_mod [simp]: "be_fixed k (n mod 256 ^ k) = be_fixed k n"
  using be_fixed_be_val [of "be_fixed k n" k] by simp

lemma be_fixed_cong: "m mod 256 ^ k = n mod 256 ^ k \<Longrightarrow> be_fixed k m = be_fixed k n"
  by (metis be_fixed_mod)

lemma be_fixed_zero [simp]: "be_fixed k 0 = replicate k 0"
  by (induction k) (simp_all add: replicate_append_same)

definition words_val :: "u64 list \<Rightarrow> nat" where
  "words_val ws = foldr (\<lambda>w n. unat w + 2 ^ 64 * n) ws 0"

lemma words_val_words_of [simp]: "words_val (words_of n) = n"
proof (induction n rule: words_of.induct)
  case (1 n)
  then show ?case by (subst words_of.simps) (auto simp: words_val_def unat_of_nat)
qed

lemma words_of_less: "n < 256 ^ (8 * length (words_of n))"
proof (induction n rule: words_of.induct)
  case (1 n)
  show ?case
  proof (cases "n = 0")
    case False
    have "n div 2 ^ 64 < 256 ^ (8 * length (words_of (n div 2 ^ 64)))" using 1 False by blast
    then have "n < 256 ^ (8 * length (words_of (n div 2 ^ 64))) * 2 ^ 64" by (simp add: div_less_iff_less_mult)
    moreover have "(256 :: nat) ^ (8 * Suc j) = 256 ^ (8 * j) * 2 ^ 64" for j by (simp add: power_add)
    ultimately show ?thesis using False by (subst words_of.simps) simp
  qed simp
qed

lemma ReadBits_word_eq:
  "i \<le> length buf \<Longrightarrow> ReadBits_word j d i buf =
     (i - min j i, take (i - min j i) buf @ be_fixed (min j i) (unat d) @ drop i buf)"
proof (induction j arbitrary: d i buf)
  case (Suc j)
  show ?case
  proof (cases i)
    case (Suc k)
    have d: "unat (drop_bit 8 d) = unat d div 256" by (simp add: drop_bit_eq_div unat_div)
    have u: "(ucast d :: byte) = of_nat (unat d mod 256)" by (simp add: word_unat_eq_iff unsigned_ucast_eq take_bit_eq_mod)
    have "drop k (buf[k := ucast d]) = ucast d # drop (Suc k) buf"
      using Suc Suc.prems by (simp add: drop_update_swap Cons_nth_drop_Suc [symmetric])
    then show ?thesis using Suc Suc.prems d u by (simp add: Suc.IH)
  qed simp
qed simp

lemma ReadBits_loop_eq:
  "i \<le> length buf \<Longrightarrow> ReadBits_loop ws i buf =
     take (i - 8 * length ws) buf @ be_fixed (min i (8 * length ws)) (words_val ws) @ drop i buf"
proof (induction ws arbitrary: i buf)
  case Nil
  then show ?case by simp
next
  case (Cons d ws)
  have v: "words_val (d # ws) = unat d + 2 ^ 64 * words_val ws" by (simp add: words_val_def)
  let ?buf = "take (i - min 8 i) buf @ be_fixed (min 8 i) (unat d) @ drop i buf"
  have "ReadBits_loop (d # ws) i buf = ReadBits_loop ws (i - min 8 i) ?buf"
    using Cons.prems by (simp add: ReadBits_word_eq wordBytes_def del: be_fixed_numeral)
  also have "\<dots> = take (i - min 8 i - 8 * length ws) ?buf @
      be_fixed (min (i - min 8 i) (8 * length ws)) (words_val ws) @ drop (i - min 8 i) ?buf"
    by (rule Cons.IH) (use Cons.prems in simp)
  also have "\<dots> = take (i - 8 * length (d # ws)) buf @
      be_fixed (min i (8 * length (d # ws))) (words_val (d # ws)) @ drop i buf"
  proof (cases "i < 8")
    case True
    have "unat d mod 256 ^ i = words_val (d # ws) mod 256 ^ i"
    proof -
      have "(256 :: nat) ^ i dvd 256 ^ 8" using True by (intro le_imp_power_dvd) simp
      then have "(256 :: nat) ^ i dvd 2 ^ 64 * words_val ws" by simp
      then show ?thesis unfolding v by (metis add.right_neutral dvd_imp_mod_0 mod_add_right_eq)
    qed
    then show ?thesis using True be_fixed_cong [of "unat d" i] by (simp del: be_fixed_numeral)
  next
    case False
    define m where "m = min (i - 8) (8 * length ws)"
    have m: "min i (8 * length (d # ws)) = m + 8" using False by (simp add: m_def)
    have "words_val (d # ws) div 256 ^ 8 = words_val ws"
      unfolding v using unat_u64_less [of d] by simp
    moreover have "be_fixed 8 (words_val (d # ws)) = be_fixed 8 (unat d)"
      by (rule be_fixed_cong) (simp add: v mod_mult_self2)
    ultimately have "be_fixed (m + 8) (words_val (d # ws)) = be_fixed m (words_val ws) @ be_fixed 8 (unat d)"
      by (simp only: be_fixed_add)
    then show ?thesis unfolding m using False Cons.prems by (simp add: m_def del: be_fixed_numeral)
  qed
  finally show ?case .
qed

lemma ReadBits_eq: "ReadBits x buf =
  take (length buf - 8 * length (Bits x)) buf @ be_fixed (min (length buf) (8 * length (Bits x))) (nat \<bar>x\<bar>)"
  by (simp add: ReadBits_def ReadBits_loop_eq Bits_def)

lemma PaddedBigBytes_eq:
  "PaddedBigBytes x k = (if nat \<bar>x\<bar> < 256 ^ k then be_fixed k (nat \<bar>x\<bar>) else be_bytes (nat \<bar>x\<bar>))"
proof -
  define n where "n = nat \<bar>x\<bar>"
  have p: "(256 :: nat) ^ k = 2 ^ (8 * k)" by (simp add: power_mult)
  have big: "BitLen x div 8 \<ge> k \<longleftrightarrow> k = 0 \<or> \<not> n < 2 ^ (8 * k - 1)"
    using bit_len_le [of n "8 * k - 1"] by (auto simp: BitLen_def n_def less_eq_div_iff_mult_less_eq)
  show ?thesis
  proof (cases "BitLen x div 8 \<ge> k")
    case True
    show ?thesis
    proof (cases "n < 256 ^ k")
      case small: True
      show ?thesis
      proof (cases k)
        case (Suc j)
        then have "2 ^ (8 * k - 1) \<le> n" using True big by auto
        moreover have "(2 :: nat) ^ (8 * j) \<le> 2 ^ (8 * k - 1)" using Suc by (intro power_increasing) auto
        then have "(256 :: nat) ^ j \<le> 2 ^ (8 * k - 1)" by (simp add: power_mult)
        ultimately have "be_fixed k n = be_bytes n" using small be_fixed_be_bytes [of j n] Suc by simp
        then show ?thesis using True small by (simp add: PaddedBigBytes_def n_def)
      qed (use small in \<open>simp add: PaddedBigBytes_def n_def\<close>)
    qed (use True in \<open>simp add: PaddedBigBytes_def n_def\<close>)
  next
    case False
    then have "n < 2 ^ (8 * k - 1)" using big by simp
    also have "(2 :: nat) ^ (8 * k - 1) \<le> 256 ^ k" unfolding p by (intro power_increasing) auto
    finally have small: "n < 256 ^ k" .
    define m where "m = min k (8 * length (Bits x))"
    have "n div 256 ^ m = 0" using small words_of_less [of n] by (auto simp: m_def min_def Bits_def n_def)
    then have "be_fixed (k - m + m) n = replicate (k - m) 0 @ be_fixed m n" by (simp only: be_fixed_add be_fixed_zero)
    moreover have "k - m + m = k" "k - m = k - 8 * length (Bits x)" by (simp_all add: m_def)
    ultimately show ?thesis using False small by (simp add: PaddedBigBytes_def ReadBits_eq n_def m_def)
  qed
qed

lemma words_of_nth: "i < length (words_of n) \<Longrightarrow> words_of n ! i = of_nat (n div 2 ^ (64 * i))"
proof (induction i arbitrary: n)
  case 0
  then have "n \<noteq> 0" using words_of.simps [of 0] by (cases "n = 0") auto
  then show ?case by (subst words_of.simps) simp
next
  case (Suc i)
  then have n: "n \<noteq> 0" using words_of.simps [of 0] by (cases "n = 0") auto
  then have "i < length (words_of (n div 2 ^ 64))" using Suc.prems words_of.simps [of n] by simp
  then have "words_of n ! Suc i = of_nat (n div 2 ^ 64 div 2 ^ (64 * i))"
    using Suc.IH n by (subst words_of.simps) simp
  also have "n div 2 ^ 64 div 2 ^ (64 * i) = n div 2 ^ (64 * Suc i)"
    by (simp add: div_mult2_eq [symmetric] power_add)
  finally show ?case .
qed

lemma bigEndianByteAt_eq: "bigEndianByteAt x n = of_nat (nat \<bar>x\<bar> div 256 ^ n)"
proof -
  define m i j where "m = nat \<bar>x\<bar>" and "i = n div 8" and "j = n mod 8"
  have n: "n = 8 * i + j" by (simp add: i_def j_def)
  show ?thesis
  proof (cases "i \<ge> length (words_of m)")
    case True
    then have "(256 :: nat) ^ (8 * length (words_of m)) \<le> 256 ^ n" using n by (intro power_increasing) auto
    with words_of_less [of m] have "m < 256 ^ n" by (rule order_less_le_trans)
    then have "m div 256 ^ n = 0" by (rule div_less)
    then show ?thesis using True by (simp add: bigEndianByteAt_def Let_def Bits_def wordBytes_def m_def i_def)
  next
    case False
    have p: "(256 :: nat) ^ n = 2 ^ (64 * i) * 2 ^ (8 * j)" by (simp add: n power_add power_mult)
    let ?w = "m div 2 ^ (64 * i)"
    have "j < 8" by (simp add: j_def)
    have "unat (ucast (drop_bit (8 * j) (of_nat ?w :: u64)) :: byte) = (?w mod 2 ^ 64) div 2 ^ (8 * j) mod 2 ^ 8"
    proof -
      have "unat (drop_bit (8 * j) (of_nat ?w :: u64)) = drop_bit (8 * j) (?w mod 2 ^ 64)"
        unfolding unsigned_drop_bit_eq by (simp only: unat_of_nat take_bit_eq_mod) simp
      then show ?thesis by (simp only: unsigned_ucast_eq drop_bit_eq_div take_bit_eq_mod) simp
    qed
    also have "\<dots> = ?w div 2 ^ (8 * j) mod 2 ^ 8"
    proof -
      have "take_bit 8 (drop_bit (8 * j) (take_bit 64 ?w)) = take_bit 8 (drop_bit (8 * j) ?w)"
        using \<open>j < 8\<close> by (intro bit_eqI) (auto simp: bit_simps)
      then show ?thesis by (simp only: drop_bit_eq_div take_bit_eq_mod)
    qed
    finally have "ucast (drop_bit (8 * j) (of_nat ?w :: u64)) = (of_nat (m div 256 ^ n) :: byte)"
      by (simp add: word_unat_eq_iff p div_mult2_eq)
    then show ?thesis using False
      by (simp add: bigEndianByteAt_def Let_def Bits_def wordBytes_def m_def i_def j_def words_of_nth)
  qed
qed

lemma U256_eq: "U256 x = x mod 2 ^ 256"
proof -
  have "tt256m1 = mask 256" by (simp add: tt256m1_def tt256_def mask_eq_exp_minus_1)
  then have "U256 x = take_bit 256 x" unfolding U256_def take_bit_eq_mask by (rule arg_cong)
  then show ?thesis by (simp only: take_bit_eq_mod)
qed

lemma S256_U256: "S256 (U256 x) = x \<longleftrightarrow> - (2 ^ 255) \<le> x \<and> x < 2 ^ 255"
proof -
  define q r where "q = x div 2 ^ 256" and "r = x mod 2 ^ 256"
  have x: "x = 2 ^ 256 * q + r" by (simp add: q_def r_def)
  have r: "0 \<le> r" "r < 2 ^ 256" by (simp_all add: r_def)
  have "S256 r = x \<longleftrightarrow> - (2 ^ 255) \<le> x \<and> x < 2 ^ 255"
  proof -
    consider "q \<le> -2" | "q = -1" | "q = 0" | "1 \<le> q" by linarith
    then show ?thesis using r unfolding x S256_def tt255_def tt256_def by cases auto
  qed
  then show ?thesis by (simp add: U256_eq r_def)
qed

lemma Exp_bits_eq:
  "fst (Exp_bits k word (r, b)) mod 2 ^ 256 = r * b ^ (unat word mod 2 ^ k) mod 2 ^ 256 \<and>
   snd (Exp_bits k word (r, b)) mod 2 ^ 256 = b ^ (2 ^ k) mod 2 ^ 256"
proof (induction k arbitrary: word r b)
  case (Suc k)
  let ?r = "if word AND 1 = 1 then U256 (r * b) else r" and ?b = "U256 (b * b)" and ?w = "drop_bit 1 word"
  have odd: "word AND 1 = 1 \<longleftrightarrow> unat word mod 2 = 1"
    by (simp only: and_one_eq word_unat_eq_iff unat_mod) simp
  have w: "unat word mod 2 ^ Suc k = 2 * (unat ?w mod 2 ^ k) + unat word mod 2"
    by (simp add: drop_bit_eq_div unat_div mod_mult2_eq)
  have p: "(?r * ?b ^ m) mod 2 ^ 256 = (r * b ^ (2 * m + unat word mod 2)) mod 2 ^ 256" for m
  proof -
    have "(?r * ?b ^ m) mod 2 ^ 256 = ((if word AND 1 = 1 then r * b else r) * (b * b) ^ m) mod 2 ^ 256"
    proof -
      have "?b ^ m mod 2 ^ 256 = (b * b) ^ m mod 2 ^ 256" unfolding U256_eq by (rule power_mod)
      moreover have "?r mod 2 ^ 256 = (if word AND 1 = 1 then r * b else r) mod 2 ^ 256" by (simp only: U256_eq mod_mod_trivial split: if_split) simp
      ultimately show ?thesis by (intro mod_mult_cong)
    qed
    also have "(if word AND 1 = 1 then r * b else r) * (b * b) ^ m = r * b ^ (2 * m + unat word mod 2)"
      using odd by (auto simp: power_add power_mult power2_eq_square mult.assoc)
    finally show ?thesis .
  qed
  have "fst (Exp_bits (Suc k) word (r, b)) mod 2 ^ 256 = ?r * ?b ^ (unat ?w mod 2 ^ k) mod 2 ^ 256"
    using Suc.IH by (simp only: Exp_bits.simps)
  moreover have "snd (Exp_bits (Suc k) word (r, b)) mod 2 ^ 256 = ?b ^ (2 ^ k) mod 2 ^ 256"
    using Suc.IH by (simp only: Exp_bits.simps)
  moreover have "?b ^ (2 ^ k) mod 2 ^ 256 = b ^ (2 ^ Suc k) mod 2 ^ 256"
    by (simp add: U256_eq power_mod power_mult power2_eq_square)
  ultimately show ?case by (simp only: p w)
qed simp

lemma Exp_words_eq: "fst (Exp_words ws (r, b)) mod 2 ^ 256 = r * b ^ words_val ws mod 2 ^ 256"
proof (induction ws arbitrary: r b)
  case (Cons word ws)
  obtain r' b' where s: "Exp_bits wordBits word (r, b) = (r', b')" by fastforce
  have "unat word mod 2 ^ 64 = unat word" using unat_u64_less [of word] by (rule mod_less)
  then have r': "r' mod 2 ^ 256 = r * b ^ unat word mod 2 ^ 256" and b': "b' mod 2 ^ 256 = b ^ (2 ^ 64) mod 2 ^ 256"
    using Exp_bits_eq [of 64 word r b] s unfolding wordBits_def by (simp_all only: fst_conv snd_conv)
  have "fst (Exp_words (word # ws) (r, b)) mod 2 ^ 256 = r' * b' ^ words_val ws mod 2 ^ 256"
    using Cons.IH s by (simp only: Exp_words.simps)
  also have "\<dots> = (r * b ^ unat word) * (b ^ (2 ^ 64)) ^ words_val ws mod 2 ^ 256"
    using r' b' by (intro mod_mult_cong) (simp only: power_mod [of b', symmetric] power_mod [of "b ^ (2 ^ 64)", symmetric])+
  also have "(r * b ^ unat word) * (b ^ (2 ^ 64)) ^ words_val ws = r * b ^ words_val (word # ws)"
    by (simp only: words_val_def foldr.simps comp_def power_add power_mult mult.assoc)
  finally show ?case .
qed (simp add: words_val_def)

lemma Exp_bits_range: "r \<in> {0..<2 ^ 256} \<Longrightarrow> fst (Exp_bits k word (r, b)) \<in> {0..<2 ^ 256}"
proof (induction k arbitrary: word r b)
  case (Suc k)
  have "(if word AND 1 = 1 then U256 (r * b) else r) \<in> {0..<2 ^ 256}" using Suc.prems by (simp add: U256_eq)
  then show ?case using Suc.IH by (simp only: Exp_bits.simps)
qed simp

lemma Exp_words_range: "r \<in> {0..<2 ^ 256} \<Longrightarrow> fst (Exp_words ws (r, b)) \<in> {0..<2 ^ 256}"
proof (induction ws arbitrary: r b)
  case (Cons word ws)
  obtain r' b' where s: "Exp_bits wordBits word (r, b) = (r', b')" by fastforce
  then have "r' \<in> {0..<2 ^ 256}" using Exp_bits_range [OF Cons.prems] by (metis fst_conv)
  then show ?case using Cons.IH s by (simp only: Exp_words.simps)
qed simp

lemma Exp_eq: "fst (Exp base e) = base ^ nat \<bar>e\<bar> mod 2 ^ 256"
proof -
  have "fst (Exp base e) \<in> {0..<2 ^ 256}" unfolding Exp_def by (rule Exp_words_range) simp
  then have "fst (Exp base e) = fst (Exp base e) mod 2 ^ 256" by simp
  also have "\<dots> = base ^ nat \<bar>e\<bar> mod 2 ^ 256"
    unfolding Exp_def Bits_def by (simp only: Exp_words_eq words_val_words_of mult_1)
  finally show ?thesis .
qed

text \<open>
  The helpers on big integers compute exactly: \<^verbatim>\<open>Exp\<close> the power modulo \<open>2\<^sup>2\<^sup>5\<^sup>6\<close> by
  repeated squaring over the words of the exponent; \<^verbatim>\<open>S256\<close> undoes \<^verbatim>\<open>U256\<close> exactly on the
  signed 256-bit range; \<^verbatim>\<open>PaddedBigBytes\<close> and \<^verbatim>\<open>Byte\<close> give the big-endian bytes of the
  absolute value although they read it word by word.
\<close>

theorem big_helpers_exact:
  "fst (Exp base e) = base ^ nat \<bar>e\<bar> mod 2 ^ 256 \<and>
   U256 x = x mod 2 ^ 256 \<and> (S256 (U256 x) = x \<longleftrightarrow> - (2 ^ 255) \<le> x \<and> x < 2 ^ 255) \<and>
   PaddedBigBytes x k = (if nat \<bar>x\<bar> < 256 ^ k then be_fixed k (nat \<bar>x\<bar>) else be_bytes (nat \<bar>x\<bar>)) \<and>
   Byte x p n = (if n < p then of_nat (nat \<bar>x\<bar> div 256 ^ (p - 1 - n)) else 0)"
  by (intro conjI Exp_eq U256_eq S256_U256 PaddedBigBytes_eq) (simp add: Byte_def bigEndianByteAt_eq)

section \<open>Parsed numbers\<close>

lemma dec_val_Cons: "dec_val (c # s) = unat (c - 48) * 10 ^ length s + dec_val s"
proof -
  have "foldl (\<lambda>n c. n * 10 + unat (c - 48)) a s = a * 10 ^ length s + foldl (\<lambda>n c. n * 10 + unat (c - 48)) 0 s"
    for a :: nat and s :: bytes
  proof (induction s rule: rev_induct)
    case (snoc x s)
    then show ?case by (simp add: algebra_simps)
  qed simp
  from this [of "unat (c - 48)" s] show ?thesis by (simp add: dec_val_def)
qed

lemma isDigit_less: "isDigit c \<Longrightarrow> unat (c - 48) < 10"
  unfolding isDigit_def using unat_sub [of 48 c] by (simp add: word_le_nat_alt) linarith

lemma ParseUint10_loop_iff:
  "ParseUint10_loop n s = (v, None) \<longleftrightarrow>
     (\<forall>c \<in> set s. isDigit c) \<and> unat n * 10 ^ length s + dec_val s < 2 ^ 64 \<and>
     v = of_nat (unat n * 10 ^ length s + dec_val s)"
proof (induction s arbitrary: n)
  case Nil
  show ?case using unat_u64_less [of n] by (auto simp: dec_val_def)
next
  case (Cons c s)
  show ?case
  proof (cases "isDigit c")
    case True
    let ?d = "unat (c - 48)"
    have m: "unat n * 10 ^ length (c # s) + dec_val (c # s) = (unat n * 10 + ?d) * 10 ^ length s + dec_val s"
      by (simp add: dec_val_Cons algebra_simps)
    have over: "\<not> unat n * 10 ^ length (c # s) + dec_val (c # s) < 2 ^ 64" if "2 ^ 64 \<le> unat n * 10 + ?d"
    proof -
      have "(2 :: nat) ^ 64 \<le> (unat n * 10 + ?d) * 1" using that by simp
      also have "\<dots> \<le> (unat n * 10 + ?d) * 10 ^ length s" by (intro mult_left_mono) auto
      finally show ?thesis unfolding m by linarith
    qed
    show ?thesis
    proof (cases "n \<ge> 1844674407370955162")
      case big: True
      then have "\<not> unat n * 10 ^ length (c # s) + dec_val (c # s) < 2 ^ 64"
        by (intro over) (simp add: word_le_nat_alt)
      then show ?thesis using big True by (simp del: power_Suc)
    next
      case False
      then have "unat n * 10 < 2 ^ 64" by (simp add: word_le_nat_alt)
      then have n10: "unat (n * 10) = unat n * 10" by (simp add: unat_word_ariths)
      have n1: "unat (n * 10 + ucast (c - 48)) = (unat n * 10 + ?d) mod 2 ^ 64"
        using n10 by (simp add: unat_word_ariths unat_u64_ucast)
      show ?thesis
      proof (cases "unat n * 10 + ?d < 2 ^ 64")
        case fits: True
        then have n1': "unat (n * 10 + ucast (c - 48)) = unat n * 10 + ?d" using n1 by simp
        then have "\<not> n * 10 + ucast (c - 48) < n * 10" using n10 by (simp add: word_less_nat_alt)
        then have "ParseUint10_loop n (c # s) = ParseUint10_loop (n * 10 + ucast (c - 48)) s"
          using True False by (simp add: Let_def)
        then show ?thesis using True Cons.IH n1' unfolding m by simp
      next
        case wraps: False
        then have "(unat n * 10 + ?d) mod 2 ^ 64 = unat n * 10 + ?d - 2 ^ 64"
          using \<open>unat n * 10 < 2 ^ 64\<close> isDigit_less [OF True] by (simp add: le_mod_geq mod_if)
        then have "n * 10 + ucast (c - 48) < n * 10"
          using n1 n10 isDigit_less [OF True] \<open>unat n * 10 < 2 ^ 64\<close> wraps by (simp add: word_less_nat_alt)
        then show ?thesis using True False over wraps by (simp del: power_Suc add: Let_def)
      qed
    qed
  qed simp
qed

text \<open>No number is accepted with a wrapped value, in decimal or in hexadecimal syntax.\<close>

lemma ParseUint64_exact:
  "ParseUint64 s = (v, True) \<longleftrightarrow>
     (if s = [] then v = 0
      else if length s \<ge> 2 \<and> (take 2 s = [48, 120] \<or> take 2 s = [48, 88])
      then drop 2 s \<noteq> [] \<and> (\<forall>c \<in> set (drop 2 s). isHexChar c) \<and> hex_val (drop 2 s) = unat v
      else (\<forall>c \<in> set s. isDigit c) \<and> dec_val s = unat v)"
proof -
  have fits: "n < 2 ^ 64 \<and> v = of_nat n \<longleftrightarrow> n = unat v" for n
    using unat_u64_less [of v] by (auto simp: unat_of_nat word_unat_eq_iff)
  have "ParseUint10 s = (v, None) \<longleftrightarrow> s \<noteq> [] \<and> (\<forall>c \<in> set s. isDigit c) \<and> dec_val s = unat v"
    using ParseUint10_loop_iff [of 0 s v] fits [of "dec_val s"] by (simp add: ParseUint10_def)
  moreover have "ParseUint t = (v, None) \<longleftrightarrow> t \<noteq> [] \<and> (\<forall>c \<in> set t. isHexChar c) \<and> hex_val t = unat v" for t
    using ParseUint_loop_iff [of 0 t v] fits [of "hex_val t"] by (simp add: ParseUint_def)
  moreover have "(case p of (v', err) \<Rightarrow> (v', err = None)) = (v, True) \<longleftrightarrow> p = (v, None)" for p :: "u64 \<times> num_error option"
    by (cases p) auto
  ultimately show ?thesis by (simp add: ParseUint64_def Let_def) blast
qed

lemma HexOrDecimal64_roundtrip: "HexOrDecimal64_UnmarshalText (HexOrDecimal64_MarshalText i) = Inr i"
proof -
  have "ParseUint64 (HexOrDecimal64_MarshalText i) = (i, True)"
    using hex_digits_ok [of "unat i"] by (simp add: ParseUint64_exact HexOrDecimal64_MarshalText_def)
  then show ?thesis by (simp add: HexOrDecimal64_UnmarshalText_def)
qed

lemma HexOrDecimal256_roundtrip:
  assumes "0 \<le> x" "x < 2 ^ 256"
  shows "HexOrDecimal256_UnmarshalText (HexOrDecimal256_MarshalText (Some x)) = Inr x"
proof -
  obtain c s where d: "hex_digits (nat x) = c # s" "isHexChar c" "list_all isHexChar s"
    using hex_digits_ok [of "nat x"] by (cases "hex_digits (nat x)") (auto simp: list_all_iff)
  then have sign: "c \<noteq> 45" "c \<noteq> 43" by (auto simp: isHexChar_range)
  have "BitLen x \<le> 256" using bit_len_le [of "nat x" 256] assms by (simp add: BitLen_def nat_less_iff)
  moreover have "hex_val (c # s) = nat x" using hex_val_hex_digits [of "nat x"] d(1) by simp
  ultimately show ?thesis using assms sign d
    by (simp add: HexOrDecimal256_UnmarshalText_def HexOrDecimal256_MarshalText_def ParseBig256_def SetString_def)
qed

end
