(* ===== verification/Common_Types.thy ===== *)
theory Common_Types
  imports Hexutil
begin

text \<open>
  The byte helpers of \<^verbatim>\<open>common/bytes.go\<close> and the types of \<^verbatim>\<open>common/types.go\<close>: hashes are
  lists of 32 bytes and addresses lists of 20. The Keccak hash of the checksummed form of an
  address is a parameter; the code relies only on its length, 32 bytes.
\<close>

section \<open>Byte helpers\<close>

definition Bytes2Hex :: "bytes \<Rightarrow> bytes" where
  "Bytes2Hex d = hex_Encode d"

definition ToHex :: "bytes \<Rightarrow> bytes" where
  "ToHex b = (let hex = Bytes2Hex b in [48, 120] @ (if length hex = 0 then [48] else hex))"

definition ToHexArray :: "bytes list \<Rightarrow> bytes list" where
  "ToHexArray b = map ToHex b"

text \<open>The error of \<^verbatim>\<open>hex.DecodeString\<close> is dropped: the bytes before it remain.\<close>

definition Hex2Bytes :: "bytes \<Rightarrow> bytes" where
  "Hex2Bytes str = fst (hex_Decode str)"

definition common_has0xPrefix :: "bytes \<Rightarrow> bool" where
  "common_has0xPrefix str \<longleftrightarrow> length str \<ge> 2 \<and> str ! 0 = 48 \<and> (str ! 1 = 120 \<or> str ! 1 = 88)"

definition FromHex :: "bytes \<Rightarrow> bytes" where
  "FromHex s =
     (let s = (if common_has0xPrefix s then drop 2 s else s);
          s = (if length s mod 2 = 1 then 48 # s else s) in
      Hex2Bytes s)"

definition isHexCharacter :: "byte \<Rightarrow> bool" where
  "isHexCharacter c \<longleftrightarrow> 48 \<le> c \<and> c \<le> 57 \<or> 97 \<le> c \<and> c \<le> 102 \<or> 65 \<le> c \<and> c \<le> 70"

definition isHex :: "bytes \<Rightarrow> bool" where
  "isHex str \<longleftrightarrow> length str mod 2 = 0 \<and> list_all isHexCharacter str"

definition Hex2BytesFixed :: "bytes \<Rightarrow> nat \<Rightarrow> bytes" where
  "Hex2BytesFixed str flen =
     (let h = fst (hex_Decode str) in
      if length h = flen then h
      else if length h > flen then drop (length h - flen) h
      else replicate (flen - length h) 0 @ h)"

definition RightPadBytes :: "bytes \<Rightarrow> nat \<Rightarrow> bytes" where
  "RightPadBytes s l = (if l \<le> length s then s else s @ replicate (l - length s) 0)"

definition LeftPadBytes :: "bytes \<Rightarrow> nat \<Rightarrow> bytes" where
  "LeftPadBytes s l = (if l \<le> length s then s else replicate (l - length s) 0 @ s)"

definition TrimLeftZeroes :: "bytes \<Rightarrow> bytes" where
  "TrimLeftZeroes s = dropWhile (\<lambda>b. b = 0) s"

fun TrimRight_loop :: "nat \<Rightarrow> bytes \<Rightarrow> nat" where
  "TrimRight_loop 0 s = 0"
| "TrimRight_loop (Suc i) s = (if s ! i \<noteq> 0 then Suc i else TrimRight_loop i s)"

definition TrimRightZeroes :: "bytes \<Rightarrow> bytes" where
  "TrimRightZeroes s = take (TrimRight_loop (length s) s) s"

section \<open>Hashes\<close>

definition HashLength :: nat where
  "HashLength = 32"

definition AddressLength :: nat where
  "AddressLength = 20"

text \<open>A shorter value fills the end of the array; the bytes before it keep what they were.\<close>

definition Hash_SetBytes :: "bytes \<Rightarrow> bytes \<Rightarrow> bytes" where
  "Hash_SetBytes h b =
     (let b = (if length b > length h then drop (length b - HashLength) b else b) in
      take (HashLength - length b) h @ b)"

definition BytesToHash :: "bytes \<Rightarrow> bytes" where
  "BytesToHash b = Hash_SetBytes (replicate HashLength 0) b"

definition BigToHash :: "int \<Rightarrow> bytes" where
  "BigToHash b = BytesToHash (be_bytes (nat \<bar>b\<bar>))"

definition HexToHash :: "bytes \<Rightarrow> bytes" where
  "HexToHash s = BytesToHash (FromHex s)"

definition Hash_Big :: "bytes \<Rightarrow> int" where
  "Hash_Big h = int (be_val h)"

definition Hash_Hex :: "bytes \<Rightarrow> bytes" where
  "Hash_Hex h = Encode h"

definition Hash_String :: "bytes \<Rightarrow> bytes" where
  "Hash_String h = Hash_Hex h"

definition Hash_UnmarshalText :: "bytes \<Rightarrow> bytes \<Rightarrow> hexutil_error option \<times> bytes" where
  "Hash_UnmarshalText h input = UnmarshalFixedText ''Hash'' input h"

definition Hash_UnmarshalJSON :: "bytes \<Rightarrow> bytes \<Rightarrow> hexutil_error option \<times> bytes" where
  "Hash_UnmarshalJSON h input = UnmarshalFixedJSON ''common.Hash'' input h"

definition Hash_MarshalText :: "bytes \<Rightarrow> bytes" where
  "Hash_MarshalText h = Bytes_MarshalText h"

text \<open>
  The argument of \<^verbatim>\<open>Scan\<close>: a byte slice or a value of another type, by its name; an error names
  the type or the length it did not expect.
\<close>

datatype scan_src = ScanBytes bytes | ScanOther string

datatype scan_error = ScanType string | ScanLength nat nat

definition Hash_Scan :: "bytes \<Rightarrow> scan_src \<Rightarrow> scan_error option \<times> bytes" where
  "Hash_Scan h src =
     (case src of
        ScanOther t \<Rightarrow> (Some (ScanType t), h)
      | ScanBytes srcB \<Rightarrow>
          if length srcB \<noteq> HashLength then (Some (ScanLength (length srcB) HashLength), h) else (None, srcB))"

definition Hash_UnmarshalGraphQL :: "bytes \<Rightarrow> graphql_input \<Rightarrow> hexutil_error option \<times> bytes" where
  "Hash_UnmarshalGraphQL h input =
     (case input of
        GString s \<Rightarrow> Hash_UnmarshalText h s
      | _ \<Rightarrow> (Some (UnexpectedType (graphql_type input) ''Hash''), h))"

definition UnprefixedHash_UnmarshalText :: "bytes \<Rightarrow> bytes \<Rightarrow> hexutil_error option \<times> bytes" where
  "UnprefixedHash_UnmarshalText h input = UnmarshalFixedUnprefixedText ''UnprefixedHash'' input h"

definition UnprefixedHash_MarshalText :: "bytes \<Rightarrow> bytes" where
  "UnprefixedHash_MarshalText h = hex_Encode h"

section \<open>Addresses\<close>

definition Address_SetBytes :: "bytes \<Rightarrow> bytes \<Rightarrow> bytes" where
  "Address_SetBytes a b =
     (let b = (if length b > length a then drop (length b - AddressLength) b else b) in
      take (AddressLength - length b) a @ b)"

definition BytesToAddress :: "bytes \<Rightarrow> bytes" where
  "BytesToAddress b = Address_SetBytes (replicate AddressLength 0) b"

definition BigToAddress :: "int \<Rightarrow> bytes" where
  "BigToAddress b = BytesToAddress (be_bytes (nat \<bar>b\<bar>))"

definition HexToAddress :: "bytes \<Rightarrow> bytes" where
  "HexToAddress s = BytesToAddress (FromHex s)"

definition IsHexAddress :: "bytes \<Rightarrow> bool" where
  "IsHexAddress s =
     (let s = (if common_has0xPrefix s then drop 2 s else s) in length s = 2 * AddressLength \<and> isHex s)"

definition Address_Hash :: "bytes \<Rightarrow> bytes" where
  "Address_Hash a = BytesToHash a"

definition Address_Hex :: "(bytes \<Rightarrow> bytes) \<Rightarrow> bytes \<Rightarrow> bytes" where
  "Address_Hex keccak a =
     (let unchecksummed = hex_Encode a;
          hash = keccak unchecksummed;
          nibble = (\<lambda>i. if i mod 2 = 0 then drop_bit 4 (hash ! (i div 2)) else hash ! (i div 2) AND 15) in
      [48, 120] @ map (\<lambda>i. let c = unchecksummed ! i in if c > 57 \<and> nibble i > 7 then c - 32 else c)
        [0..<length unchecksummed])"

definition Address_String :: "(bytes \<Rightarrow> bytes) \<Rightarrow> bytes \<Rightarrow> bytes" where
  "Address_String keccak a = Address_Hex keccak a"

definition Address_MarshalText :: "bytes \<Rightarrow> bytes" where
  "Address_MarshalText a = Bytes_MarshalText a"

definition Address_UnmarshalText :: "bytes \<Rightarrow> bytes \<Rightarrow> hexutil_error option \<times> bytes" where
  "Address_UnmarshalText a input = UnmarshalFixedText ''Address'' input a"

definition Address_UnmarshalJSON :: "bytes \<Rightarrow> bytes \<Rightarrow> hexutil_error option \<times> bytes" where
  "Address_UnmarshalJSON a input = UnmarshalFixedJSON ''common.Address'' input a"

definition Address_Scan :: "bytes \<Rightarrow> scan_src \<Rightarrow> scan_error option \<times> bytes" where
  "Address_Scan a src =
     (case src of
        ScanOther t \<Rightarrow> (Some (ScanType t), a)
      | ScanBytes srcB \<Rightarrow>
          if length srcB \<noteq> AddressLength then (Some (ScanLength (length srcB) AddressLength), a) else (None, srcB))"

definition Address_UnmarshalGraphQL :: "bytes \<Rightarrow> graphql_input \<Rightarrow> hexutil_error option \<times> bytes" where
  "Address_UnmarshalGraphQL a input =
     (case input of
        GString s \<Rightarrow> Address_UnmarshalText a s
      | _ \<Rightarrow> (Some (UnexpectedType (graphql_type input) ''Address''), a))"

definition UnprefixedAddress_UnmarshalText :: "bytes \<Rightarrow> bytes \<Rightarrow> hexutil_error option \<times> bytes" where
  "UnprefixedAddress_UnmarshalText a input = UnmarshalFixedUnprefixedText ''UnprefixedAddress'' input a"

definition UnprefixedAddress_MarshalText :: "bytes \<Rightarrow> bytes" where
  "UnprefixedAddress_MarshalText a = hex_Encode a"

section \<open>Addresses with their original spelling\<close>

record MixedcaseAddress =
  addr :: bytes
  original :: bytes

definition NewMixedcaseAddress :: "(bytes \<Rightarrow> bytes) \<Rightarrow> bytes \<Rightarrow> MixedcaseAddress" where
  "NewMixedcaseAddress keccak a = \<lparr>addr = a, original = Address_Hex keccak a\<rparr>"

definition NewMixedcaseAddressFromString :: "bytes \<Rightarrow> MixedcaseAddress option" where
  "NewMixedcaseAddressFromString hexaddr =
     (if \<not> IsHexAddress hexaddr then None
      else Some \<lparr>addr = BytesToAddress (FromHex hexaddr), original = hexaddr\<rparr>)"

text \<open>
  The JSON string that \<^verbatim>\<open>UnmarshalFixedJSON\<close> accepts has only a prefix and hex digits, so
  \<^verbatim>\<open>json.Unmarshal\<close> reads the text between the quotes.
\<close>

definition Mixedcase_UnmarshalJSON :: "MixedcaseAddress \<Rightarrow> bytes \<Rightarrow> hexutil_error option \<times> MixedcaseAddress" where
  "Mixedcase_UnmarshalJSON ma input =
     (case UnmarshalFixedJSON ''common.Address'' input (addr ma) of
        (Some err, a) \<Rightarrow> (Some err, ma\<lparr>addr := a\<rparr>)
      | (None, a) \<Rightarrow> (None, \<lparr>addr = a, original = butlast (tl input)\<rparr>))"

definition Mixedcase_MarshalJSON :: "MixedcaseAddress \<Rightarrow> bytes" where
  "Mixedcase_MarshalJSON ma =
     json_quote ([48, 120] @
       (if take 2 (original ma) = [48, 120] \<or> take 2 (original ma) = [48, 88] then drop 2 (original ma) else original ma))"

definition ValidChecksum :: "(bytes \<Rightarrow> bytes) \<Rightarrow> MixedcaseAddress \<Rightarrow> bool" where
  "ValidChecksum keccak ma \<longleftrightarrow> original ma = Address_Hex keccak (addr ma)"
section \<open>Fixed-size values\<close>

lemma UnmarshalFixedText_Encode:
  assumes "map lower s = Encode v" "length v = length out"
  shows "UnmarshalFixedText t s out = (None, v)"
proof -
  have dec: "Decode s = (v, None)" using assms(1) Decode_iff by blast
  then have p: "has0xPrefix s" "s \<noteq> []" "hex_Decode (drop 2 s) = (v, None)"
    by (auto simp: Decode_def split: if_splits prod.splits)
  then have len: "length (drop 2 s) = 2 * length v" using hex_Decode_None by blast
  then have "checkText s True = Inr (drop 2 s)" using p by (simp add: checkText_Inr)
  then show ?thesis using p(3) len assms(2) by (simp add: UnmarshalFixedText_def UnmarshalFixed_prefixed)
qed

lemma length_mod_256: "length b \<le> k \<Longrightarrow> be_val b < 256 ^ k"
  using be_val_less [of b] power_increasing [of "length b" k "256 :: nat"] by linarith

lemma isHexCharacter_iff: "isHexCharacter c \<longleftrightarrow> isHexChar c"
  by (auto simp: isHexCharacter_def isHexChar_range word_le_nat_alt)

lemma common_has0xPrefix_eq: "common_has0xPrefix s = has0xPrefix s"
  by (simp add: common_has0xPrefix_def has0xPrefix_def)

lemma Hash_SetBytes_length: "length h = HashLength \<Longrightarrow> length (Hash_SetBytes h b) = HashLength"
  by (simp add: Hash_SetBytes_def Let_def)

lemma Address_SetBytes_length: "length a = AddressLength \<Longrightarrow> length (Address_SetBytes a b) = AddressLength"
  by (simp add: Address_SetBytes_def Let_def)

lemma BytesToHash_val: "be_val (BytesToHash b) = be_val b mod 256 ^ HashLength"
proof (cases "length b > HashLength")
  case True
  let ?d = "drop (length b - HashLength) b"
  have "be_val b = be_val (take (length b - HashLength) b) * 256 ^ HashLength + be_val ?d"
    using be_val_append [of "take (length b - HashLength) b" ?d] True by simp
  then have "be_val b mod 256 ^ HashLength = be_val ?d mod 256 ^ HashLength" by (simp only: mod_mult_self3)
  also have "\<dots> = be_val ?d" using be_val_less [of ?d] True by simp
  finally show ?thesis using True by (simp add: BytesToHash_def Hash_SetBytes_def Let_def)
next
  case False
  have "be_val (replicate n 0) = 0" for n by (induction n) simp_all
  moreover have "be_val b < 256 ^ HashLength"
    using False by (intro length_mod_256) simp
  ultimately show ?thesis using False by (simp add: BytesToHash_def Hash_SetBytes_def Let_def)
qed

lemma isHexChar_upper:
  assumes "isHexChar c" "c > 57"  "lower c = c"
  shows "isHexChar (c - 32)" "lower (c - 32) = c"
proof -
  have c: "97 \<le> unat c" "unat c \<le> 102" using assms by (auto simp: isHexChar_range word_less_nat_alt word_unat_eq_iff unat_lower split: if_splits)
  then have "unat (c - 32) = unat c - 32" using unat_sub [of 32 c] by (simp add: word_le_nat_alt)
  then show "isHexChar (c - 32)" "lower (c - 32) = c"
    using c by (auto simp: isHexChar_range word_unat_eq_iff unat_lower)
qed

lemma hex_Encode_chars:
  assumes "c \<in> set (hex_Encode a)"
  shows "isHexChar c" "lower c = c"
proof -
  obtain n where "n < 16" "c = hexDigit n"
  proof -
    obtain x where x: "x \<in> set a" "c = hexDigit (unat x div 16) \<or> c = hexDigit (unat x mod 16)"
      using assms by (auto simp: hex_Encode_def)
    have "unat x div 16 < 16" using unat_byte_less [of x] by (simp add: div_less_iff_less_mult del: unat_byte_less)
    with x(2) that [of "unat x div 16"] that [of "unat x mod 16"] show thesis by auto
  qed
  then show "isHexChar c" "lower c = c" by simp_all
qed

lemma length_hex_Encode [simp]: "length (hex_Encode a) = 2 * length a"
  using hex_Decode_None [OF hex_Decode_Encode, of a] by simp

lemma Address_Hex_shape:
  "\<exists>s. Address_Hex keccak a = [48, 120] @ s \<and> length s = 2 * length a \<and> (\<forall>c \<in> set s. isHexChar c) \<and> map lower s = hex_Encode a"
proof -
  define s where "s = drop 2 (Address_Hex keccak a)"
  let ?e = "hex_Encode a"
  have A: "Address_Hex keccak a = [48, 120] @ s" by (simp add: s_def Address_Hex_def Let_def)
  have len: "length s = length ?e" by (simp add: s_def Address_Hex_def Let_def)
  have nth: "s ! i = ?e ! i \<or> ?e ! i > 57 \<and> s ! i = ?e ! i - 32" if "i < length ?e" for i
    using that by (auto simp: s_def Address_Hex_def Let_def)
  have el: "isHexChar (s ! i) \<and> lower (s ! i) = ?e ! i" if "i < length ?e" for i
    using nth [OF that] hex_Encode_chars [OF nth_mem [OF that]] isHexChar_upper [of "?e ! i"] by fastforce
  have "map lower s = ?e" using el len by (intro nth_equalityI) auto
  moreover have "\<forall>c \<in> set s. isHexChar c" using el len by (metis in_set_conv_nth)
  ultimately show ?thesis using A len by auto
qed

lemma FromHex_Address_Hex: "FromHex (Address_Hex keccak a) = a"
proof -
  obtain s where s: "Address_Hex keccak a = [48, 120] @ s" "length s = 2 * length a" "\<forall>c \<in> set s. isHexChar c"
    "map lower s = hex_Encode a" using Address_Hex_shape by blast
  obtain b where b: "hex_Decode s = (b, None)" using hex_Decode_total [of s] s by auto
  then have "hex_Encode b = hex_Encode a" using hex_Decode_None [OF b] s(4) by simp
  then have "b = a" using hex_Decode_Encode by (metis prod.inject)
  then show ?thesis using s b by (simp add: FromHex_def common_has0xPrefix_def Hex2Bytes_def)
qed

text \<open>
  C38: The checksummed form of an address is a hex address, is read back as the same address, has
  a valid checksum, and is the ordinary hex form up to the case of the letters.
\<close>

theorem Address_Hex_roundtrip:
  assumes "length a = AddressLength" and "length b = AddressLength" and "\<And>x. length (keccak x) = HashLength"
  shows "IsHexAddress (Address_Hex keccak a) \<and> HexToAddress (Address_Hex keccak a) = a \<and>
    ValidChecksum keccak (NewMixedcaseAddress keccak a) \<and>
    NewMixedcaseAddressFromString (Address_Hex keccak a) = Some (NewMixedcaseAddress keccak a) \<and>
    map lower (Address_Hex keccak a) = Address_MarshalText a \<and>
    Address_UnmarshalText b (Address_Hex keccak a) = (None, a)"
proof -
  obtain s where s: "Address_Hex keccak a = [48, 120] @ s" "length s = 2 * length a" "\<forall>c \<in> set s. isHexChar c"
    "map lower s = hex_Encode a" using Address_Hex_shape by blast
  have lower: "map lower (Address_Hex keccak a) = Encode a" using s by (simp add: Encode_def)
  have hexa: "IsHexAddress (Address_Hex keccak a)"
    using s assms(1) by (simp add: IsHexAddress_def common_has0xPrefix_def isHex_def list_all_iff isHexCharacter_iff)
  have same: "BytesToAddress (FromHex (Address_Hex keccak a)) = a"
    using assms(1) by (simp add: FromHex_Address_Hex BytesToAddress_def Address_SetBytes_def)
  show ?thesis using hexa same lower assms(1,2)
    by (simp add: HexToAddress_def ValidChecksum_def NewMixedcaseAddress_def NewMixedcaseAddressFromString_def
        Address_MarshalText_def Bytes_MarshalText_def Encode_def Address_UnmarshalText_def UnmarshalFixedText_Encode)
qed

definition ff_keccak :: "bytes \<Rightarrow> bytes" where
  "ff_keccak x = replicate 32 255"

theorem Address_Hex_roundtrip_witness:
  "IsHexAddress (Address_Hex ff_keccak (replicate 20 171)) \<and>
   HexToAddress (Address_Hex ff_keccak (replicate 20 171)) = replicate 20 171 \<and>
   Address_UnmarshalText (replicate 20 0) (Address_Hex ff_keccak (replicate 20 171)) = (None, replicate 20 171)"
  using Address_Hex_roundtrip [of "replicate 20 171" "replicate 20 0" ff_keccak]
  by (simp add: AddressLength_def HashLength_def ff_keccak_def)

lemma fixed_text_roundtrip:
  "length h = HashLength \<Longrightarrow> length b = HashLength \<Longrightarrow> Hash_UnmarshalText b (Hash_MarshalText h) = (None, h)"
  "length a = AddressLength \<Longrightarrow> length c = AddressLength \<Longrightarrow> Address_UnmarshalText c (Address_MarshalText a) = (None, a)"
  by (simp_all add: Hash_UnmarshalText_def Hash_MarshalText_def Address_UnmarshalText_def Address_MarshalText_def
      Bytes_MarshalText_def Encode_def UnmarshalFixedText_Encode)

end
