(* ===== verification/Abi_Pack.thy ===== *)
theory Abi_Pack
  imports Common_Math Common_Types
begin

text \<open>
  The types of \<^verbatim>\<open>accounts/abi\<close>, the Go values they are packed from, and packing.
  An ABI type is a tree with the fields that the code keeps beside its tag; its reflected kind
  and type are functions of it. Go types and values are those that \<^verbatim>\<open>reflect\<close> shows to the
  package: numbers with their kind, \<^verbatim>\<open>*big.Int\<close>, strings, slices, arrays, structs and pointers.
  A result is a value, an error of the package, or a panic.
\<close>

section \<open>Results\<close>

datatype abi_error =
    TypeError | EmptyTag | TagMapped | TagNotFound | UnderscoredName | AmbiguousField | DuplicateField
  | FieldNotFound | BadBool | BadFunctionType | NegativeSize | LengthInsufficient | OffsetOutOfRange | OffsetTooLarge
  | LengthTooLarge | CountMismatch | EmptyOutput | MethodNotFound | ImproperOutput | DataTooShort

datatype 'a res = Ok 'a | Err abi_error | Panic

primrec bind_res :: "'a res \<Rightarrow> ('a \<Rightarrow> 'b res) \<Rightarrow> 'b res" where
  "bind_res (Ok x) f = f x"
| "bind_res (Err e) f = Err e"
| "bind_res Panic f = Panic"

lemma bind_res_cong [fundef_cong]:
  "m = m' \<Longrightarrow> (\<And>x. m' = Ok x \<Longrightarrow> f x = f' x) \<Longrightarrow> bind_res m f = bind_res m' f'"
  by (cases m') auto

lemma bind_res_Ok_iff [simp]: "bind_res m f = Ok y \<longleftrightarrow> (\<exists>x. m = Ok x \<and> f x = Ok y)"
  by (cases m) auto

lemma bind_res_Panic_iff: "bind_res m f = Panic \<longleftrightarrow> m = Panic \<or> (\<exists>x. m = Ok x \<and> f x = Panic)"
  by (cases m) auto

section \<open>Go types and values\<close>

datatype gokind =
    KBool | KInt | KInt8 | KInt16 | KInt32 | KInt64 | KUint | KUint8 | KUint16 | KUint32 | KUint64
  | KPtr | KString | KSlice | KArray | KStruct

text \<open>A struct field has a name, the value of its \<^verbatim>\<open>abi\<close> tag, if it has one, and a type.\<close>

datatype gotype =
    TBool | TNum gokind | TBig | TString | TSlice gotype | TArray nat gotype
  | TStruct "(string \<times> string option \<times> gotype) list" | TPtr gotype | TNamed string gotype

fun type_kind :: "gotype \<Rightarrow> gokind" where
  "type_kind TBool = KBool"
| "type_kind (TNum k) = k"
| "type_kind TBig = KPtr"
| "type_kind TString = KString"
| "type_kind (TSlice _) = KSlice"
| "type_kind (TArray _ _) = KArray"
| "type_kind (TStruct _) = KStruct"
| "type_kind (TPtr _) = KPtr"
| "type_kind (TNamed _ t) = type_kind t"

text \<open>\<^verbatim>\<open>Type.Elem()\<close> of a slice or an array.\<close>

fun type_elem :: "gotype \<Rightarrow> gotype" where
  "type_elem (TSlice t) = t"
| "type_elem (TArray _ t) = t"
| "type_elem (TNamed _ t) = type_elem t"
| "type_elem t = t"

text \<open>A slice or an array carries its type; \<open>VNil\<close> is the nil pointer to a type.\<close>

datatype goval =
    VBool bool | VNum gokind int | VBig int | VString bytes | VSlice gotype "goval list" | VArray gotype "goval list"
  | VStruct "(string \<times> string option \<times> goval) list" | VPtr goval | VNil gotype

fun typeof :: "goval \<Rightarrow> gotype" where
  "typeof (VBool _) = TBool"
| "typeof (VNum k _) = TNum k"
| "typeof (VBig _) = TBig"
| "typeof (VString _) = TString"
| "typeof (VSlice t _) = t"
| "typeof (VArray t _) = t"
| "typeof (VStruct fs) = TStruct (map (\<lambda>f. (fst f, fst (snd f), typeof (snd (snd f)))) fs)"
| "typeof (VPtr v) = TPtr (typeof v)"
| "typeof (VNil t) = TPtr t"

definition kind :: "goval \<Rightarrow> gokind" where
  "kind v = type_kind (typeof v)"

text \<open>The elements that \<^verbatim>\<open>Index\<close> reaches.\<close>

fun elems :: "goval \<Rightarrow> goval list" where
  "elems (VSlice _ vs) = vs"
| "elems (VArray _ vs) = vs"
| "elems _ = []"

definition addressT :: gotype where
  "addressT = TNamed ''common.Address'' (TArray 20 (TNum KUint8))"

definition byte_vals :: "bytes \<Rightarrow> goval list" where
  "byte_vals bs = map (\<lambda>b. VNum KUint8 (uint b)) bs"

fun val_byte :: "goval \<Rightarrow> byte" where
  "val_byte (VNum _ i) = word_of_int i"
| "val_byte _ = 0"

definition vals_bytes :: "goval list \<Rightarrow> bytes" where
  "vals_bytes vs = map val_byte vs"

lemma vals_bytes_byte_vals [simp]: "vals_bytes (byte_vals bs) = bs"
  by (induction bs) (auto simp: vals_bytes_def byte_vals_def)

lemma length_byte_vals [simp]: "length (byte_vals bs) = length bs"
  by (simp add: byte_vals_def)

section \<open>Type\<close>

datatype abi_type =
    IntTy nat | UintTy nat | BoolTy | StringTy | SliceTy abi_type | ArrayTy nat abi_type
  | TupleTy string "(string \<times> abi_type) list" | AddressTy | FixedBytesTy nat | BytesTy | FunctionTy

fun split_on :: "char \<Rightarrow> string \<Rightarrow> string list" where
  "split_on c [] = [[]]"
| "split_on c (x # s) = (if x = c then [] # split_on c s else (x # hd (split_on c s)) # tl (split_on c s))"

definition to_upper :: "char \<Rightarrow> char" where
  "to_upper c = (let n = of_char c :: nat in if 97 \<le> n \<and> n \<le> 122 then char_of (n - 32) else c)"

definition ToCamelCase :: "string \<Rightarrow> string" where
  "ToCamelCase input =
     concat (map (\<lambda>s. if length s > 0 then to_upper (hd s) # tl s else s) (split_on (CHR ''_'') input))"

definition reflectIntKindAndType :: "bool \<Rightarrow> nat \<Rightarrow> gokind \<times> gotype" where
  "reflectIntKindAndType uns sz =
     (if sz = 8 then (if uns then (KUint8, TNum KUint8) else (KInt8, TNum KInt8))
      else if sz = 16 then (if uns then (KUint16, TNum KUint16) else (KInt16, TNum KInt16))
      else if sz = 32 then (if uns then (KUint32, TNum KUint32) else (KInt32, TNum KInt32))
      else if sz = 64 then (if uns then (KUint64, TNum KUint64) else (KInt64, TNum KInt64))
      else (KPtr, TBig))"

text \<open>The fields \<^verbatim>\<open>Kind\<close> and \<^verbatim>\<open>Type\<close> that \<^verbatim>\<open>NewType\<close> sets for each type.\<close>

fun Type_Kind :: "abi_type \<Rightarrow> gokind" where
  "Type_Kind (IntTy n) = fst (reflectIntKindAndType False n)"
| "Type_Kind (UintTy n) = fst (reflectIntKindAndType True n)"
| "Type_Kind BoolTy = KBool"
| "Type_Kind StringTy = KString"
| "Type_Kind (SliceTy _) = KSlice"
| "Type_Kind (ArrayTy _ _) = KArray"
| "Type_Kind (TupleTy _ _) = KStruct"
| "Type_Kind AddressTy = KArray"
| "Type_Kind (FixedBytesTy _) = KArray"
| "Type_Kind BytesTy = KSlice"
| "Type_Kind FunctionTy = KArray"

fun Type_Type :: "abi_type \<Rightarrow> gotype" where
  "Type_Type (IntTy n) = snd (reflectIntKindAndType False n)"
| "Type_Type (UintTy n) = snd (reflectIntKindAndType True n)"
| "Type_Type BoolTy = TBool"
| "Type_Type StringTy = TString"
| "Type_Type (SliceTy e) = TSlice (Type_Type e)"
| "Type_Type (ArrayTy n e) = TArray n (Type_Type e)"
| "Type_Type (TupleTy _ fs) = TStruct (map (\<lambda>f. (ToCamelCase (fst f), None, Type_Type (snd f))) fs)"
| "Type_Type AddressTy = addressT"
| "Type_Type (FixedBytesTy n) = TArray n (TNum KUint8)"
| "Type_Type BytesTy = TSlice (TNum KUint8)"
| "Type_Type FunctionTy = TArray 24 (TNum KUint8)"

lemma Type_Kind_Type: "type_kind (Type_Type t) = Type_Kind t"
  by (cases t) (auto simp: reflectIntKindAndType_def addressT_def)

fun requiresLengthPrefix :: "abi_type \<Rightarrow> bool" where
  "requiresLengthPrefix StringTy = True"
| "requiresLengthPrefix BytesTy = True"
| "requiresLengthPrefix (SliceTy _) = True"
| "requiresLengthPrefix _ = False"

fun isDynamicType :: "abi_type \<Rightarrow> bool" where
  "isDynamicType (TupleTy _ fs) = list_ex (\<lambda>f. isDynamicType (snd f)) fs"
| "isDynamicType StringTy = True"
| "isDynamicType BytesTy = True"
| "isDynamicType (SliceTy _) = True"
| "isDynamicType (ArrayTy _ e) = isDynamicType e"
| "isDynamicType _ = False"

fun isArrayTy :: "abi_type \<Rightarrow> bool" where
  "isArrayTy (ArrayTy _ _) = True"
| "isArrayTy _ = False"

fun getTypeSize :: "abi_type \<Rightarrow> nat" where
  "getTypeSize (ArrayTy n e) =
     (if \<not> isDynamicType e then (if isArrayTy e then n * getTypeSize e else n * 32) else 32)"
| "getTypeSize (TupleTy nm fs) =
     (if \<not> isDynamicType (TupleTy nm fs) then sum_list (map (\<lambda>f. getTypeSize (snd f)) fs) else 32)"
| "getTypeSize _ = 32"

lemma getTypeSize_dynamic: "isDynamicType t \<Longrightarrow> getTypeSize t = 32"
  by (cases t) auto

lemma getTypeSize_mod_32: "getTypeSize t mod 32 = 0"
proof (induction t rule: getTypeSize.induct)
  case (1 n e)
  then show ?case by (auto simp: mod_mult_right_eq [symmetric, of n])
next
  case (2 nm fs)
  have "sum_list (map (\<lambda>f. getTypeSize (snd f)) fs) mod 32 = 0" if "\<And>f. f \<in> set fs \<Longrightarrow> getTypeSize (snd f) mod 32 = 0"
    using that by (induction fs) (auto simp: mod_add_eq [symmetric])
  then show ?case using 2 by auto
qed auto
section \<open>Struct fields by name\<close>

text \<open>The two maps of \<^verbatim>\<open>mapArgNamesToStructFields\<close>; a missing key reads as the empty string.\<close>

type_synonym name_maps = "(string \<Rightarrow> string) \<times> (string \<Rightarrow> string)"

fun tag_loop :: "string list \<Rightarrow> string \<Rightarrow> string \<Rightarrow> bool \<Rightarrow> name_maps \<Rightarrow> (bool \<times> name_maps) res" where
  "tag_loop [] tagName fname found m = Ok (found, m)"
| "tag_loop (arg # args) tagName fname found m =
     (if arg = tagName then
        if fst m arg \<noteq> '''' then Err TagMapped
        else tag_loop args tagName fname True ((fst m)(arg := fname), (snd m)(fname := arg))
      else tag_loop args tagName fname found m)"

fun first_round :: "string list \<Rightarrow> (string \<times> string option \<times> goval) list \<Rightarrow> name_maps \<Rightarrow> name_maps res" where
  "first_round argNames [] m = Ok m"
| "first_round argNames ((fname, tag, _) # fs) m =
     (if take 1 fname \<noteq> map to_upper (take 1 fname) then first_round argNames fs m
      else case tag of
        None \<Rightarrow> first_round argNames fs m
      | Some tagName \<Rightarrow>
          if tagName = '''' then Err EmptyTag
          else bind_res (tag_loop argNames tagName fname False m)
            (\<lambda>(found, m'). if \<not> found then Err TagNotFound else first_round argNames fs m'))"

fun second_round :: "string list \<Rightarrow> string list \<Rightarrow> name_maps \<Rightarrow> name_maps res" where
  "second_round [] fnames m = Ok m"
| "second_round (argName # args) fnames m =
     (let structFieldName = ToCamelCase argName; valid = structFieldName \<in> set fnames in
      if structFieldName = '''' then Err UnderscoredName
      else if fst m argName \<noteq> '''' then
        if fst m argName \<noteq> structFieldName \<and> snd m structFieldName = '''' \<and> valid then Err AmbiguousField
        else second_round args fnames m
      else if snd m structFieldName \<noteq> '''' then Err DuplicateField
      else second_round args fnames
        (if valid then (fst m)(argName := structFieldName) else fst m, (snd m)(structFieldName := argName)))"

definition mapArgNamesToStructFields ::
  "string list \<Rightarrow> (string \<times> string option \<times> goval) list \<Rightarrow> (string \<Rightarrow> string) res" where
  "mapArgNamesToStructFields argNames fs =
     bind_res (first_round argNames fs (\<lambda>_. '''', \<lambda>_. ''''))
       (\<lambda>m. bind_res (second_round argNames (map fst fs) m) (\<lambda>m'. Ok (fst m')))"

fun FieldByName :: "(string \<times> string option \<times> goval) list \<Rightarrow> string \<Rightarrow> goval option" where
  "FieldByName [] nm = None"
| "FieldByName ((fname, _, v) # fs) nm = (if fname = nm then Some v else FieldByName fs nm)"

section \<open>Checks\<close>

text \<open>\<^verbatim>\<open>v.Elem().Type()\<close> of a nil pointer panics.\<close>

fun indirect :: "goval \<Rightarrow> goval res" where
  "indirect (VPtr v) = indirect v"
| "indirect (VNil _) = Panic"
| "indirect v = Ok v"

fun sliceTypeCheck :: "abi_type \<Rightarrow> goval \<Rightarrow> unit res" where
  "sliceTypeCheck (SliceTy e) val =
     (if kind val \<noteq> KSlice \<and> kind val \<noteq> KArray then Err TypeError
      else case e of
        SliceTy _ \<Rightarrow>
          if length (elems val) > 0 then sliceTypeCheck e (elems val ! 0)
          else if type_kind (type_elem (typeof val)) \<noteq> Type_Kind e then Err TypeError else Ok ()
      | ArrayTy _ _ \<Rightarrow> if length (elems val) = 0 then Panic else sliceTypeCheck e (elems val ! 0)
      | _ \<Rightarrow> if type_kind (type_elem (typeof val)) \<noteq> Type_Kind e then Err TypeError else Ok ())"
| "sliceTypeCheck (ArrayTy n e) val =
     (if kind val \<noteq> KSlice \<and> kind val \<noteq> KArray then Err TypeError
      else if length (elems val) \<noteq> n then Err TypeError
      else case e of
        SliceTy _ \<Rightarrow>
          if length (elems val) > 0 then sliceTypeCheck e (elems val ! 0)
          else if type_kind (type_elem (typeof val)) \<noteq> Type_Kind e then Err TypeError else Ok ()
      | ArrayTy _ _ \<Rightarrow> if length (elems val) = 0 then Panic else sliceTypeCheck e (elems val ! 0)
      | _ \<Rightarrow> if type_kind (type_elem (typeof val)) \<noteq> Type_Kind e then Err TypeError else Ok ())"
| "sliceTypeCheck _ val = Panic"

fun typeCheck :: "abi_type \<Rightarrow> goval \<Rightarrow> unit res" where
  "typeCheck (SliceTy e) v = sliceTypeCheck (SliceTy e) v"
| "typeCheck (ArrayTy n e) v = sliceTypeCheck (ArrayTy n e) v"
| "typeCheck (FixedBytesTy n) v =
     (if Type_Kind (FixedBytesTy n) \<noteq> kind v then Err TypeError
      else if n \<noteq> length (elems v) then Err TypeError else Ok ())"
| "typeCheck t v = (if Type_Kind t \<noteq> kind v then Err TypeError else Ok ())"

section \<open>Packing\<close>

definition abi_U256 :: "int \<Rightarrow> bytes" where
  "abi_U256 n = PaddedBigBytes (U256 n) 32"

fun packNum :: "goval \<Rightarrow> bytes res" where
  "packNum (VNum k i) =
     (if k \<in> {KUint, KUint8, KUint16, KUint32, KUint64, KInt, KInt8, KInt16, KInt32, KInt64}
      then Ok (abi_U256 i) else Panic)"
| "packNum (VBig n) = Ok (abi_U256 n)"
| "packNum _ = Panic"

definition packBytesSlice :: "bytes \<Rightarrow> nat \<Rightarrow> bytes res" where
  "packBytesSlice bs l =
     bind_res (packNum (VNum KInt (int l))) (\<lambda>len. Ok (len @ RightPadBytes bs ((l + 31) div 32 * 32)))"

text \<open>\<^verbatim>\<open>reflect.Copy\<close> panics unless the elements are \<^verbatim>\<open>uint8\<close>, and so does \<^verbatim>\<open>Bytes\<close>.\<close>

definition mustArrayToByteSlice :: "goval \<Rightarrow> bytes res" where
  "mustArrayToByteSlice v = (if type_elem (typeof v) = TNum KUint8 then Ok (vals_bytes (elems v)) else Panic)"

definition Value_Bytes :: "goval \<Rightarrow> bytes res" where
  "Value_Bytes v =
     (if kind v = KSlice \<and> type_kind (type_elem (typeof v)) = KUint8 then Ok (vals_bytes (elems v)) else Panic)"

definition to_byte_slice :: "goval \<Rightarrow> bytes res" where
  "to_byte_slice v = (if kind v = KArray then mustArrayToByteSlice v else Value_Bytes v)"

fun packElement :: "abi_type \<Rightarrow> goval \<Rightarrow> bytes res" where
  "packElement (IntTy _) v = packNum v"
| "packElement (UintTy _) v = packNum v"
| "packElement StringTy v = (case v of VString s \<Rightarrow> packBytesSlice s (length s) | _ \<Rightarrow> Panic)"
| "packElement AddressTy v = bind_res (to_byte_slice v) (\<lambda>b. Ok (LeftPadBytes b 32))"
| "packElement BoolTy v = (case v of VBool b \<Rightarrow> Ok (PaddedBigBytes (if b then 1 else 0) 32) | _ \<Rightarrow> Panic)"
| "packElement BytesTy v = bind_res (to_byte_slice v) (\<lambda>b. packBytesSlice b (length b))"
| "packElement (FixedBytesTy _) v = bind_res (to_byte_slice v) (\<lambda>b. Ok (RightPadBytes b 32))"
| "packElement FunctionTy v = bind_res (to_byte_slice v) (\<lambda>b. Ok (RightPadBytes b 32))"
| "packElement _ v = Panic"

text \<open>The loops over the elements of a slice or an array and over the fields of a tuple.\<close>

fun pack_elems :: "(goval \<Rightarrow> bytes res) \<Rightarrow> bool \<Rightarrow> nat \<Rightarrow> goval list \<Rightarrow> bytes \<Rightarrow> bytes \<Rightarrow> bytes res" where
  "pack_elems f offsetReq offset [] ret tail = Ok (ret @ tail)"
| "pack_elems f offsetReq offset (v # vs) ret tail =
     bind_res (f v) (\<lambda>val.
       if \<not> offsetReq then pack_elems f offsetReq offset vs (ret @ val) tail
       else bind_res (packNum (VNum KInt (int offset))) (\<lambda>off.
         pack_elems f offsetReq (offset + length val) vs (ret @ off) (tail @ val)))"

fun pack_fields ::
  "(string \<times> bool \<times> (goval \<Rightarrow> bytes res)) list \<Rightarrow> (string \<Rightarrow> string) \<Rightarrow> (string \<times> string option \<times> goval) list \<Rightarrow>
   nat \<Rightarrow> bytes \<Rightarrow> bytes \<Rightarrow> bytes res" where
  "pack_fields [] fieldmap fs offset ret tail = Ok (ret @ tail)"
| "pack_fields ((nm, dyn, f) # es) fieldmap fs offset ret tail =
     (case FieldByName fs (fieldmap nm) of
        None \<Rightarrow> Err FieldNotFound
      | Some field \<Rightarrow>
          bind_res (f field) (\<lambda>val.
            if dyn then bind_res (packNum (VNum KInt (int offset))) (\<lambda>off.
              pack_fields es fieldmap fs (offset + length val) (ret @ off) (tail @ val))
            else pack_fields es fieldmap fs offset (ret @ val) tail))"

definition struct_fields :: "goval \<Rightarrow> (string \<times> string option \<times> goval) list" where
  "struct_fields v = (case v of VStruct fs \<Rightarrow> fs | _ \<Rightarrow> [])"

definition pack_check :: "abi_type \<Rightarrow> goval \<Rightarrow> goval res" where
  "pack_check t v = bind_res (indirect v) (\<lambda>v. bind_res (typeCheck t v) (\<lambda>_. Ok v))"

fun pack :: "abi_type \<Rightarrow> goval \<Rightarrow> bytes res" where
  "pack (SliceTy e) v =
     bind_res (pack_check (SliceTy e) v) (\<lambda>v.
       bind_res (packNum (VNum KInt (int (length (elems v))))) (\<lambda>ret.
         pack_elems (pack e) (isDynamicType e)
           (if isDynamicType e then getTypeSize e * length (elems v) else 0) (elems v) ret []))"
| "pack (ArrayTy n e) v =
     bind_res (pack_check (ArrayTy n e) v) (\<lambda>v.
       pack_elems (pack e) (isDynamicType e)
         (if isDynamicType e then getTypeSize e * length (elems v) else 0) (elems v) [] [])"
| "pack (TupleTy nm fs) v =
     bind_res (pack_check (TupleTy nm fs) v) (\<lambda>v.
       bind_res (mapArgNamesToStructFields (map fst fs) (struct_fields v)) (\<lambda>fieldmap.
         pack_fields (map (\<lambda>f. (fst f, isDynamicType (snd f), pack (snd f))) fs) fieldmap (struct_fields v)
           (sum_list (map (\<lambda>f. getTypeSize (snd f)) fs)) [] []))"
| "pack t v = bind_res (pack_check t v) (packElement t)"

section \<open>Arguments\<close>

record Argument =
  arg_Name :: string
  arg_Type :: abi_type
  arg_Indexed :: bool

definition NonIndexed :: "Argument list \<Rightarrow> Argument list" where
  "NonIndexed args = filter (\<lambda>a. \<not> arg_Indexed a) args"

definition LengthNonIndexed :: "Argument list \<Rightarrow> nat" where
  "LengthNonIndexed args = length (filter (\<lambda>a. \<not> arg_Indexed a) args)"

fun Pack_loop :: "(Argument \<times> goval) list \<Rightarrow> nat \<Rightarrow> bytes \<Rightarrow> bytes \<Rightarrow> bytes res" where
  "Pack_loop [] inputOffset ret variableInput = Ok (ret @ variableInput)"
| "Pack_loop ((input, a) # xs) inputOffset ret variableInput =
     bind_res (pack (arg_Type input) a) (\<lambda>packed.
       if isDynamicType (arg_Type input) then
         bind_res (packNum (VNum KInt (int inputOffset))) (\<lambda>off.
           Pack_loop xs (inputOffset + length packed) (ret @ off) (variableInput @ packed))
       else Pack_loop xs inputOffset (ret @ packed) variableInput)"

definition Arguments_Pack :: "Argument list \<Rightarrow> goval list \<Rightarrow> bytes res" where
  "Arguments_Pack arguments args =
     (if length args \<noteq> length arguments then Err CountMismatch
      else Pack_loop (zip arguments args) (sum_list (map (\<lambda>a. getTypeSize (arg_Type a)) arguments)) [] [])"

definition Arguments_PackValues :: "Argument list \<Rightarrow> goval list \<Rightarrow> bytes res" where
  "Arguments_PackValues arguments args = Arguments_Pack arguments args"
end
