(* ===== verification/Abi_Spec.thy ===== *)
theory Abi_Spec
  imports Abi_Pack
begin

text \<open>
  The contract ABI encoding as the specification gives it, and the proof that \<^verbatim>\<open>pack\<close> and
  \<^verbatim>\<open>Arguments.Pack\<close> compute it. The offset of a dynamic component is the length of all heads and
  of the tails before it.
\<close>

section \<open>Values of a type\<close>

fun kind_range :: "gokind \<Rightarrow> int set" where
  "kind_range KUint8 = {0..<2 ^ 8}"
| "kind_range KUint16 = {0..<2 ^ 16}"
| "kind_range KUint32 = {0..<2 ^ 32}"
| "kind_range KUint64 = {0..<2 ^ 64}"
| "kind_range KInt8 = {- (2 ^ 7)..<2 ^ 7}"
| "kind_range KInt16 = {- (2 ^ 15)..<2 ^ 15}"
| "kind_range KInt32 = {- (2 ^ 31)..<2 ^ 31}"
| "kind_range KInt64 = {- (2 ^ 63)..<2 ^ 63}"
| "kind_range _ = {}"

definition int_value :: "bool \<Rightarrow> nat \<Rightarrow> goval \<Rightarrow> bool" where
  "int_value uns n v =
     (case v of
        VNum k i \<Rightarrow> snd (reflectIntKindAndType uns n) = TNum k \<and> i \<in> kind_range k
      | VBig i \<Rightarrow> snd (reflectIntKindAndType uns n) = TBig \<and> i \<in> (if uns then {0..<2 ^ 256} else {- (2 ^ 255)..<2 ^ 255})
      | _ \<Rightarrow> False)"

text \<open>
  The Go values that have the reflected type of an ABI type: integers in range, arrays of the
  right length, structs with the fields of the tuple.
\<close>

fun has_type :: "abi_type \<Rightarrow> goval \<Rightarrow> bool" where
  "has_type (IntTy n) v = int_value False n v"
| "has_type (UintTy n) v = int_value True n v"
| "has_type BoolTy v = (case v of VBool _ \<Rightarrow> True | _ \<Rightarrow> False)"
| "has_type StringTy v = (case v of VString _ \<Rightarrow> True | _ \<Rightarrow> False)"
| "has_type BytesTy v = (\<exists>bs. v = VSlice (TSlice (TNum KUint8)) (byte_vals bs))"
| "has_type AddressTy v = (\<exists>bs. length bs = 20 \<and> v = VArray addressT (byte_vals bs))"
| "has_type (FixedBytesTy n) v = (\<exists>bs. length bs = n \<and> v = VArray (TArray n (TNum KUint8)) (byte_vals bs))"
| "has_type FunctionTy v = (\<exists>bs. length bs = 24 \<and> v = VArray (TArray 24 (TNum KUint8)) (byte_vals bs))"
| "has_type (SliceTy e) v =
     (case v of VSlice t vs \<Rightarrow> t = TSlice (Type_Type e) \<and> list_all (has_type e) vs | _ \<Rightarrow> False)"
| "has_type (ArrayTy n e) v =
     (case v of VArray t vs \<Rightarrow> t = TArray n (Type_Type e) \<and> length vs = n \<and> list_all (has_type e) vs | _ \<Rightarrow> False)"
| "has_type (TupleTy nm fs) v =
     (case v of
        VStruct gs \<Rightarrow>
          map fst gs = map (\<lambda>f. ToCamelCase (fst f)) fs \<and> list_all (\<lambda>g. fst (snd g) = None) gs \<and>
          list_all2 (\<lambda>p x. p x) (map (\<lambda>f. has_type (snd f)) fs) (map (\<lambda>g. snd (snd g)) gs)
      | _ \<Rightarrow> False)"

text \<open>No slice of arrays in the value is empty: the type check of such a slice looks at its first element.\<close>

fun full_slices :: "abi_type \<Rightarrow> goval \<Rightarrow> bool" where
  "full_slices (SliceTy e) v = ((isArrayTy e \<longrightarrow> elems v \<noteq> []) \<and> list_all (full_slices e) (elems v))"
| "full_slices (ArrayTy n e) v = list_all (full_slices e) (elems v)"
| "full_slices (TupleTy nm fs) v =
     list_all2 (\<lambda>p x. p x) (map (\<lambda>f. full_slices (snd f)) fs) (map (\<lambda>g. snd (snd g)) (struct_fields v))"
| "full_slices _ v = True"

fun isTupleTy :: "abi_type \<Rightarrow> bool" where
  "isTupleTy (TupleTy _ _) = True"
| "isTupleTy _ = False"

text \<open>
  Types whose sizes \<^verbatim>\<open>getTypeSize\<close> computes: no array of static tuples, and no array or tuple
  without components. The field names of a tuple are different and not only underscores.
\<close>

fun wf_type :: "abi_type \<Rightarrow> bool" where
  "wf_type (SliceTy e) = wf_type e"
| "wf_type (ArrayTy n e) = (n > 0 \<and> wf_type e \<and> (isDynamicType e \<or> \<not> isTupleTy e))"
| "wf_type (TupleTy nm fs) =
     (fs \<noteq> [] \<and> list_all (\<lambda>f. wf_type (snd f)) fs \<and> distinct (map (\<lambda>f. ToCamelCase (fst f)) fs) \<and>
      list_all (\<lambda>f. ToCamelCase (fst f) \<noteq> '''') fs)"
| "wf_type (FixedBytesTy n) = (n > 0 \<and> n \<le> 32)"
| "wf_type _ = True"

section \<open>The encoding\<close>

definition enc_int :: "int \<Rightarrow> bytes" where
  "enc_int i = be_fixed 32 (nat (i mod 2 ^ 256))"

definition enc_tails :: "(bool \<times> bytes) list \<Rightarrow> bytes" where
  "enc_tails ps = concat (map (\<lambda>p. if fst p then snd p else []) ps)"

definition head_length :: "(bool \<times> bytes) list \<Rightarrow> nat" where
  "head_length ps = sum_list (map (\<lambda>p. if fst p then 32 else length (snd p)) ps)"

definition enc_head :: "(bool \<times> bytes) list \<Rightarrow> nat \<Rightarrow> bytes" where
  "enc_head ps i =
     (if fst (ps ! i) then enc_int (int (head_length ps + length (enc_tails (take i ps)))) else snd (ps ! i))"

text \<open>A sequence of components, each dynamic or static, with their encodings.\<close>

definition enc_seq :: "(bool \<times> bytes) list \<Rightarrow> bytes" where
  "enc_seq ps = concat (map (enc_head ps) [0..<length ps]) @ enc_tails ps"

definition pad32 :: "bytes \<Rightarrow> bytes" where
  "pad32 bs = bs @ replicate ((32 - length bs mod 32) mod 32) 0"

fun num_val :: "goval \<Rightarrow> int" where
  "num_val (VNum _ i) = i"
| "num_val (VBig i) = i"
| "num_val _ = 0"

fun str_bytes :: "goval \<Rightarrow> bytes" where
  "str_bytes (VString s) = s"
| "str_bytes v = vals_bytes (elems v)"

fun enc :: "abi_type \<Rightarrow> goval \<Rightarrow> bytes" where
  "enc (IntTy _) v = enc_int (num_val v)"
| "enc (UintTy _) v = enc_int (num_val v)"
| "enc BoolTy v = enc_int (if v = VBool True then 1 else 0)"
| "enc StringTy v = enc_int (int (length (str_bytes v))) @ pad32 (str_bytes v)"
| "enc BytesTy v = enc_int (int (length (str_bytes v))) @ pad32 (str_bytes v)"
| "enc AddressTy v = replicate 12 0 @ str_bytes v"
| "enc (FixedBytesTy n) v = str_bytes v @ replicate (32 - n) 0"
| "enc FunctionTy v = str_bytes v @ replicate 8 0"
| "enc (SliceTy e) v = enc_int (int (length (elems v))) @ enc_seq (map (\<lambda>x. (isDynamicType e, enc e x)) (elems v))"
| "enc (ArrayTy _ e) v = enc_seq (map (\<lambda>x. (isDynamicType e, enc e x)) (elems v))"
| "enc (TupleTy _ fs) v =
     enc_seq (map2 (\<lambda>p g. p (snd (snd g))) (map (\<lambda>f x. (isDynamicType (snd f), enc (snd f) x)) fs) (struct_fields v))"

section \<open>The loops compute sequences\<close>

lemma abi_U256_eq [simp]: "abi_U256 n = enc_int n"
proof -
  have "nat \<bar>n mod 2 ^ 256\<bar> = nat (n mod 2 ^ 256)" by simp
  moreover have "nat (n mod 2 ^ 256) < 256 ^ 32" by (simp add: nat_less_iff)
  ultimately show ?thesis by (simp only: abi_U256_def U256_eq PaddedBigBytes_eq enc_int_def if_True)
qed

lemma length_enc_int [simp]: "length (enc_int n) = 32"
  by (simp add: enc_int_def del: be_fixed_numeral)

lemma packNum_int [simp]: "packNum (VNum KInt n) = Ok (enc_int n)"
  by (simp add: abi_U256_eq)

lemma enc_int_nat [simp]: "n < 2 ^ 256 \<Longrightarrow> be_val (enc_int (int n)) = n"
proof -
  assume n: "n < 2 ^ 256"
  then have "nat (int n mod 2 ^ 256) = n" by (simp add: nat_mod_as_int [symmetric])
  then show ?thesis using n by (simp add: enc_int_def del: be_fixed_numeral)
qed

text \<open>Heads written from left to right, with a running offset.\<close>

fun run_heads :: "nat \<Rightarrow> (bool \<times> bytes) list \<Rightarrow> bytes" where
  "run_heads off [] = []"
| "run_heads off ((d, b) # ps) = (if d then enc_int (int off) @ run_heads (off + length b) ps else b @ run_heads off ps)"

lemma enc_tails_simps [simp]:
  "enc_tails [] = []" "enc_tails (p # ps) = (if fst p then snd p else []) @ enc_tails ps"
  "enc_tails (ps @ qs) = enc_tails ps @ enc_tails qs"
  by (simp_all add: enc_tails_def)

lemma enc_heads_run:
  "concat (map (enc_head (ps @ qs)) [length ps..<length (ps @ qs)]) =
     run_heads (head_length (ps @ qs) + length (enc_tails ps)) qs"
proof (induction qs arbitrary: ps)
  case (Cons q qs)
  have "[length ps..<length (ps @ q # qs)] = length ps # [length (ps @ [q])..<length ((ps @ [q]) @ qs)]"
    by (simp add: upt_rec)
  then show ?case using Cons [of "ps @ [q]"] by (cases q) (auto simp: enc_head_def nth_append add.assoc)
qed simp

lemma enc_seq_run: "enc_seq ps = run_heads (head_length ps) ps @ enc_tails ps"
  using enc_heads_run [of "[]" ps] by (simp add: enc_seq_def)

lemma length_run_heads [simp]: "length (run_heads off ps) = head_length ps"
  by (induction off ps rule: run_heads.induct) (auto simp: head_length_def)

lemma pack_elems_run:
  assumes "\<And>v. v \<in> set vs \<Longrightarrow> f v = Ok (g v)"
  shows "pack_elems f d off vs ret tail =
    Ok (ret @ run_heads off (map (\<lambda>v. (d, g v)) vs) @ tail @ enc_tails (map (\<lambda>v. (d, g v)) vs))"
  using assms by (induction vs arbitrary: off ret tail) auto

lemma pack_fields_run:
  assumes "\<And>nm d f x y. (nm, d, f, x, y) \<in> set es \<Longrightarrow> FieldByName fs (fm nm) = Some x \<and> f x = Ok y"
  shows "pack_fields (map (\<lambda>e. (fst e, fst (snd e), fst (snd (snd e)))) es) fm fs off ret tail =
    Ok (ret @ run_heads off (map (\<lambda>e. (fst (snd e), snd (snd (snd (snd e))))) es) @ tail @ enc_tails (map (\<lambda>e. (fst (snd e), snd (snd (snd (snd e))))) es))"
  using assms
proof (induction es arbitrary: off ret tail)
  case (Cons e es)
  obtain nm d f x y where e: "e = (nm, d, f, x, y)" by (cases e)
  have x: "FieldByName fs (fm nm) = Some x" "f x = Ok y" using Cons.prems [of nm d f x y] e by auto
  have "pack_fields (map (\<lambda>e. (fst e, fst (snd e), fst (snd (snd e)))) es) fm fs off' ret' tail' =
    Ok (ret' @ run_heads off' (map (\<lambda>e. (fst (snd e), snd (snd (snd (snd e))))) es) @ tail' @ enc_tails (map (\<lambda>e. (fst (snd e), snd (snd (snd (snd e))))) es))"
    for off' ret' tail' by (rule Cons.IH) (rule Cons.prems, erule list.set_intros(2))
  then show ?case using x e by simp
qed simp

lemma Pack_loop_run:
  assumes "\<And>a x. (a, x) \<in> set xs \<Longrightarrow> pack (arg_Type a) x = Ok (g (arg_Type a) x)"
  shows "Pack_loop xs off ret var =
    Ok (ret @ run_heads off (map (\<lambda>p. (isDynamicType (arg_Type (fst p)), g (arg_Type (fst p)) (snd p))) xs) @
      var @ enc_tails (map (\<lambda>p. (isDynamicType (arg_Type (fst p)), g (arg_Type (fst p)) (snd p))) xs))"
  using assms
proof (induction xs arbitrary: off ret var)
  case (Cons y xs)
  obtain a x where y: "y = (a, x)" by (cases y)
  have "Pack_loop xs off' ret' var' =
    Ok (ret' @ run_heads off' (map (\<lambda>p. (isDynamicType (arg_Type (fst p)), g (arg_Type (fst p)) (snd p))) xs) @
      var' @ enc_tails (map (\<lambda>p. (isDynamicType (arg_Type (fst p)), g (arg_Type (fst p)) (snd p))) xs))" for off' ret' var'
    by (rule Cons.IH) (rule Cons.prems, erule list.set_intros(2))
  moreover have "pack (arg_Type a) x = Ok (g (arg_Type a) x)" using Cons.prems y by simp
  ultimately show ?case using y by simp
qed simp

section \<open>Tuples: fields found by name\<close>

lemma first_round_untagged: "list_all (\<lambda>g. fst (snd g) = None) gs \<Longrightarrow> first_round names gs m = Ok m"
  by (induction names gs m rule: first_round.induct) auto

lemma second_round_fresh:
  assumes "distinct (map ToCamelCase names)" "\<And>a. a \<in> set names \<Longrightarrow> ToCamelCase a \<noteq> '''' \<and> ToCamelCase a \<in> set fnames"
    and "\<And>a. a \<in> set names \<Longrightarrow> fst m a = '''' \<and> snd m (ToCamelCase a) = ''''"
  shows "\<exists>m'. second_round names fnames m = Ok m' \<and>
    (\<forall>a. fst m' a = (if a \<in> set names then ToCamelCase a else fst m a))"
  using assms
proof (induction names arbitrary: m)
  case (Cons a names)
  let ?m = "((fst m)(a := ToCamelCase a), (snd m)(ToCamelCase a := a))"
  have fresh: "fst ?m b = '''' \<and> snd ?m (ToCamelCase b) = ''''" if "b \<in> set names" for b
  proof -
    have "ToCamelCase b \<in> ToCamelCase ` set names" using that by (rule imageI)
    then have "ToCamelCase b \<noteq> ToCamelCase a" using Cons.prems(1) by (metis distinct.simps(2) list.simps(9) set_map)
    then show ?thesis using that Cons.prems(3) [of b] by auto
  qed
  have "\<exists>m'. second_round names fnames ?m = Ok m' \<and>
    (\<forall>x. fst m' x = (if x \<in> set names then ToCamelCase x else fst ?m x))"
    by (rule Cons.IH) (use Cons.prems fresh in auto)
  moreover have "second_round (a # names) fnames m = second_round names fnames ?m"
    using Cons.prems(2,3) [of a] by (simp add: Let_def)
  ultimately show ?case by auto
qed auto

lemma FieldByName_nth:
  "distinct (map fst gs) \<Longrightarrow> i < length gs \<Longrightarrow> FieldByName gs (fst (gs ! i)) = Some (snd (snd (gs ! i)))"
proof (induction gs arbitrary: i)
  case (Cons g gs)
  obtain n t v where g: "g = (n, t, v)" by (cases g)
  show ?case
  proof (cases i)
    case (Suc j)
    then have "fst (gs ! j) \<in> fst ` set gs" using Cons.prems by simp
    then have "n \<noteq> fst (gs ! j)" using Cons.prems g by auto
    then show ?thesis using Suc Cons g by simp
  qed (use g in simp)
qed simp

lemma mapArgNames_has_type:
  assumes "has_type (TupleTy nm fs) (VStruct gs)" "wf_type (TupleTy nm fs)"
  shows "\<exists>fm. mapArgNamesToStructFields (map fst fs) gs = Ok fm \<and>
    (\<forall>i < length fs. fm (fst (fs ! i)) = fst (gs ! i) \<and> FieldByName gs (fm (fst (fs ! i))) = Some (snd (snd (gs ! i))))"
proof -
  have names: "map fst gs = map (\<lambda>f. ToCamelCase (fst f)) fs" and tags: "list_all (\<lambda>g. fst (snd g) = None) gs"
    using assms(1) by simp_all
  have len: "length gs = length fs" using arg_cong [OF names, of length] by simp
  have d: "distinct (map ToCamelCase (map fst fs))" using assms(2) by (simp add: comp_def)
  have "\<exists>m'. second_round (map fst fs) (map fst gs) (\<lambda>_. '''', \<lambda>_. '''') = Ok m' \<and>
    (\<forall>a. fst m' a = (if a \<in> set (map fst fs) then ToCamelCase a else fst ((\<lambda>_. '''', \<lambda>_. '''') :: name_maps) a))"
  proof (rule second_round_fresh [OF d])
    fix a assume "a \<in> set (map fst fs)"
    then obtain f where f: "f \<in> set fs" "a = fst f" by auto
    then have "ToCamelCase a \<noteq> ''''" using assms(2) by (auto simp: list_all_iff)
    moreover have "ToCamelCase a \<in> set (map fst gs)" using f by (auto simp: names)
    ultimately show "ToCamelCase a \<noteq> '''' \<and> ToCamelCase a \<in> set (map fst gs)" by blast
  qed simp
  then obtain m' where m': "second_round (map fst fs) (map fst gs) (\<lambda>_. '''', \<lambda>_. '''') = Ok m'"
    "\<And>a. a \<in> set (map fst fs) \<Longrightarrow> fst m' a = ToCamelCase a" by auto
  have "fst m' (fst (fs ! i)) = fst (gs ! i)" if "i < length fs" for i
    using that m'(2) [of "fst (fs ! i)"] arg_cong [OF names, of "\<lambda>l. l ! i"] len by simp
  moreover have "distinct (map fst gs)" using d by (simp add: names comp_def)
  ultimately show ?thesis using m'(1) first_round_untagged [OF tags] FieldByName_nth len
    by (auto simp: mapArgNamesToStructFields_def)
qed

section \<open>pack computes the encoding\<close>

lemma has_type_typeof: "has_type t v \<Longrightarrow> typeof v = Type_Type t"
proof (induction t arbitrary: v)
  case (TupleTy nm fs)
  then obtain gs where v: "v = VStruct gs" by (cases v) auto
  have names: "map fst gs = map (\<lambda>f. ToCamelCase (fst f)) fs" and tags: "list_all (\<lambda>g. fst (snd g) = None) gs"
    and ty: "list_all2 (\<lambda>p x. p x) (map (\<lambda>f. has_type (snd f)) fs) (map (\<lambda>g. snd (snd g)) gs)"
    using TupleTy.prems v by simp_all
  have len: "length gs = length fs" using arg_cong [OF names, of length] by simp
  have "(fst (gs ! i), fst (snd (gs ! i)), typeof (snd (snd (gs ! i)))) = (ToCamelCase (fst (fs ! i)), None, Type_Type (snd (fs ! i)))"
    if "i < length fs" for i
  proof -
    have "has_type (snd (fs ! i)) (snd (snd (gs ! i)))" using ty that len by (simp add: list_all2_conv_all_nth)
    then have "typeof (snd (snd (gs ! i))) = Type_Type (snd (fs ! i))"
      using TupleTy.IH [of "fs ! i" "snd (fs ! i)"] that by (simp add: prod.set_map snds.simps)
    then show ?thesis using tags that len arg_cong [OF names, of "\<lambda>l. l ! i"] by (simp add: list_all_length)
  qed
  then show ?case using v len by (auto intro: nth_equalityI)
qed (auto simp: int_value_def split: goval.splits)

lemma indirect_has_type: "has_type t v \<Longrightarrow> indirect v = Ok v"
  by (cases t; cases v) (auto simp: int_value_def)

lemma sliceTypeCheck_has_type:
  "has_type t v \<Longrightarrow> wf_type t \<Longrightarrow> full_slices t v \<Longrightarrow> (\<exists>e. t = SliceTy e) \<or> isArrayTy t \<Longrightarrow>
   sliceTypeCheck t v = Ok ()"
proof (induction t arbitrary: v)
  case (SliceTy e)
  then obtain vs where v: "v = VSlice (TSlice (Type_Type e)) vs" by (cases v) auto
  have kinds: "kind v = KSlice" "type_kind (type_elem (typeof v)) = Type_Kind e"
    using v by (simp_all add: kind_def Type_Kind_Type)
  have el: "vs \<noteq> [] \<Longrightarrow> has_type e (vs ! 0) \<and> full_slices e (vs ! 0)" "isArrayTy e \<Longrightarrow> vs \<noteq> []"
    using SliceTy.prems v by (cases vs; auto)+
  show ?case using kinds el SliceTy.IH SliceTy.prems(2) v by (cases e) auto
next
  case (ArrayTy n e)
  then obtain vs where v: "v = VArray (TArray n (Type_Type e)) vs" "length vs = n" by (cases v) auto
  have kinds: "kind v = KArray" "type_kind (type_elem (typeof v)) = Type_Kind e"
    using v by (simp_all add: kind_def Type_Kind_Type)
  have el: "has_type e (vs ! 0)" "full_slices e (vs ! 0)" "vs \<noteq> []" using ArrayTy.prems v by (cases vs; auto)+
  show ?case using kinds el ArrayTy.IH ArrayTy.prems(2) v by (cases e) auto
qed auto

lemma pack_check_has_type: "has_type t v \<Longrightarrow> wf_type t \<Longrightarrow> full_slices t v \<Longrightarrow> pack_check t v = Ok v"
proof -
  assume v: "has_type t v" and t: "wf_type t" "full_slices t v"
  have "kind v = Type_Kind t" using has_type_typeof [OF v] by (simp add: kind_def Type_Kind_Type)
  then have "typeCheck t v = Ok ()" using sliceTypeCheck_has_type [OF v t] v by (cases t) auto
  then show ?thesis using indirect_has_type [OF v] by (simp add: pack_check_def)
qed

lemma RightPadBytes_pad32: "RightPadBytes s ((length s + 31) div 32 * 32) = pad32 s"
proof -
  define q r where "q = length s div 32" and "r = length s mod 32"
  have len: "length s = 32 * q + r" and r: "r < 32" by (simp_all add: q_def r_def)
  have up: "(length s + 31) div 32 = (if r = 0 then q else q + 1)"
  proof (cases "r = 0")
    case False
    then have "length s + 31 = (r - 1) + (q + 1) * 32" using len by simp
    then have "(length s + 31) div 32 = (r - 1) div 32 + (q + 1)" by (simp only: div_mult_self1)
    then show ?thesis using False r by simp
  qed (simp add: len)
  have "(length s + 31) div 32 * 32 - length s = (32 - r) mod 32" unfolding up unfolding len using r by auto
  moreover have "length s \<le> (length s + 31) div 32 * 32" unfolding up unfolding len using r by auto
  moreover note r_def
  ultimately show ?thesis by (auto simp: RightPadBytes_def pad32_def)
qed

lemma packBytesSlice_eq: "packBytesSlice s (length s) = Ok (enc_int (int (length s)) @ pad32 s)"
  by (simp add: packBytesSlice_def RightPadBytes_pad32)

lemma to_byte_slice_array [simp]:
  "to_byte_slice (VArray (TArray n (TNum KUint8)) (byte_vals bs)) = Ok bs"
  "to_byte_slice (VArray addressT (byte_vals bs)) = Ok bs"
  "to_byte_slice (VSlice (TSlice (TNum KUint8)) (byte_vals bs)) = Ok bs"
  by (simp_all add: to_byte_slice_def mustArrayToByteSlice_def Value_Bytes_def kind_def addressT_def)

lemma PaddedBigBytes_bit: "PaddedBigBytes (if b then 1 else 0) 32 = enc_int (if b then 1 else 0)"
  by (simp add: PaddedBigBytes_eq enc_int_def del: be_fixed_numeral)

lemma packNum_int_value: "int_value uns n v \<Longrightarrow> packNum v = Ok (enc_int (num_val v))"
  by (cases v) (auto simp: int_value_def reflectIntKindAndType_def split: if_splits)

lemma packElement_enc:
  assumes "has_type t v" "wf_type t" "\<not> isArrayTy t" "\<not> isTupleTy t" "\<And>e. t \<noteq> SliceTy e"
  shows "packElement t v = Ok (enc t v)"
proof (cases t)
  case (IntTy n)
  then show ?thesis using assms packNum_int_value by simp
next
  case (UintTy n)
  then show ?thesis using assms packNum_int_value by simp
next
  case BoolTy
  then obtain b where "v = VBool b" using assms by (cases v) auto
  then show ?thesis using BoolTy PaddedBigBytes_bit [of b] by auto
next
  case StringTy
  then obtain s where "v = VString s" using assms by (cases v) auto
  then show ?thesis using StringTy by (simp add: packBytesSlice_eq)
qed (use assms in \<open>auto simp: packBytesSlice_eq LeftPadBytes_def RightPadBytes_def\<close>)

lemma head_length_simps [simp]:
  "head_length [] = 0" "head_length (p # ps) = (if fst p then 32 else length (snd p)) + head_length ps"
  by (simp_all add: head_length_def)

lemma length_enc_seq_static: "\<forall>p \<in> set ps. \<not> fst p \<Longrightarrow> length (enc_seq ps) = head_length ps \<and> enc_tails ps = []"
proof -
  assume s: "\<forall>p \<in> set ps. \<not> fst p"
  then have "enc_tails ps = []" by (induction ps) auto
  then show ?thesis by (simp add: enc_seq_run)
qed

lemma enc_static_length:
  "has_type t v \<Longrightarrow> wf_type t \<Longrightarrow> \<not> isDynamicType t \<Longrightarrow> length (enc t v) = getTypeSize t"
proof (induction t arbitrary: v)
  case (ArrayTy n e)
  then obtain vs where v: "v = VArray (TArray n (Type_Type e)) vs" "length vs = n" "list_all (has_type e) vs"
    by (cases v) auto
  have "length (enc e x) = getTypeSize e" if "x \<in> set vs" for x
    using ArrayTy that v by (auto simp: list_all_iff)
  then have "head_length (map (\<lambda>x. (isDynamicType e, enc e x)) vs) = length vs * getTypeSize e"
    using ArrayTy.prems(3) by (induction vs) auto
  moreover have "n * getTypeSize e = getTypeSize (ArrayTy n e)"
    using ArrayTy.prems(2,3) by (cases e) auto
  ultimately show ?case using length_enc_seq_static [of "map (\<lambda>x. (isDynamicType e, enc e x)) vs"] ArrayTy.prems(3) v
    by simp
next
  case (TupleTy nm fs)
  then obtain gs where v: "v = VStruct gs" by (cases v) auto
  have ty: "list_all2 (\<lambda>p x. p x) (map (\<lambda>f. has_type (snd f)) fs) (map (\<lambda>g. snd (snd g)) gs)"
    using TupleTy.prems v by simp
  let ?ps = "map2 (\<lambda>p g. p (snd (snd g))) (map (\<lambda>f x. (isDynamicType (snd f), enc (snd f) x)) fs) gs"
  have len: "length gs = length fs" using list_all2_lengthD [OF ty] by simp
  have st: "\<forall>f \<in> set fs. \<not> isDynamicType (snd f)" using TupleTy.prems(3) by (auto simp: list_ex_iff)
  have el: "?ps ! i = (False, enc (snd (fs ! i)) (snd (snd (gs ! i)))) \<and>
      length (enc (snd (fs ! i)) (snd (snd (gs ! i)))) = getTypeSize (snd (fs ! i))" if "i < length fs" for i
  proof -
    have "has_type (snd (fs ! i)) (snd (snd (gs ! i)))" using ty that len by (simp add: list_all2_conv_all_nth)
    moreover have "wf_type (snd (fs ! i))" using TupleTy.prems(2) that by (simp add: list_all_length)
    ultimately show ?thesis using TupleTy.IH [of "fs ! i" "snd (fs ! i)"] st that len by (simp add: snds.simps)
  qed
  have "map (\<lambda>p. if fst p then 32 else length (snd p)) ?ps = map (\<lambda>f. getTypeSize (snd f)) fs"
    using el len by (intro nth_equalityI) auto
  then have "head_length ?ps = sum_list (map (\<lambda>f. getTypeSize (snd f)) fs)" by (simp only: head_length_def)
  moreover have "\<forall>p \<in> set ?ps. \<not> fst p"
  proof
    fix p
    assume "p \<in> set ?ps"
    then obtain i where "i < length ?ps" "p = ?ps ! i" unfolding in_set_conv_nth by blast
    then show "\<not> fst p" using el [of i] len by simp
  qed
  ultimately show ?case using length_enc_seq_static [of ?ps] TupleTy.prems(3) v by (simp add: struct_fields_def)
qed (auto split: goval.splits)

lemma run_heads_static: "\<forall>p \<in> set ps. \<not> fst p \<Longrightarrow> run_heads off ps = run_heads off' ps"
proof (induction ps)
  case (Cons p ps)
  then show ?case by (cases p) auto
qed simp

lemma run_heads_uniform:
  "run_heads (if d then getTypeSize e * length vs else 0) (map (\<lambda>v. (d, g v)) vs) =
   run_heads (head_length (map (\<lambda>v. (d, g v)) vs)) (map (\<lambda>v. (d, g v)) vs)" if "d \<longrightarrow> isDynamicType e"
proof (cases d)
  case True
  then have "head_length (map (\<lambda>v. (d, g v)) vs) = 32 * length vs" by (induction vs) auto
  then show ?thesis using True that by (simp add: getTypeSize_dynamic)
next
  case False
  then show ?thesis by (intro run_heads_static) auto
qed

lemma pack_elems_enc:
  assumes "\<And>x. x \<in> set vs \<Longrightarrow> pack e x = Ok (enc e x)"
  shows "pack_elems (pack e) (isDynamicType e) (if isDynamicType e then getTypeSize e * length vs else 0) vs ret [] =
    Ok (ret @ enc_seq (map (\<lambda>x. (isDynamicType e, enc e x)) vs))"
  using pack_elems_run [of vs "pack e" "enc e"] run_heads_uniform [of "isDynamicType e" e vs "enc e"] assms
  by (simp add: enc_seq_run)

text \<open>The components of a tuple with their encodings; their head sizes are those of the types.\<close>

definition tuple_parts :: "(string \<times> abi_type) list \<Rightarrow> (string \<times> string option \<times> goval) list \<Rightarrow> (bool \<times> bytes) list" where
  "tuple_parts fs gs = map2 (\<lambda>p g. p (snd (snd g))) (map (\<lambda>f x. (isDynamicType (snd f), enc (snd f) x)) fs) gs"

lemma tuple_has_type_nth:
  assumes "has_type (TupleTy nm fs) v" "wf_type (TupleTy nm fs)"
  obtains gs where "v = VStruct gs" "length gs = length fs"
    "\<And>i. i < length fs \<Longrightarrow> has_type (snd (fs ! i)) (snd (snd (gs ! i))) \<and> wf_type (snd (fs ! i)) \<and>
      tuple_parts fs gs ! i = (isDynamicType (snd (fs ! i)), enc (snd (fs ! i)) (snd (snd (gs ! i))))"
    "length (tuple_parts fs gs) = length fs"
proof -
  obtain gs where v: "v = VStruct gs" using assms by (cases v) auto
  have ty: "list_all2 (\<lambda>p x. p x) (map (\<lambda>f. has_type (snd f)) fs) (map (\<lambda>g. snd (snd g)) gs)"
    using assms v by simp
  have len: "length gs = length fs" using list_all2_lengthD [OF ty] by simp
  show thesis
  proof (rule that [OF v len])
    fix i
    assume i: "i < length fs"
    then show "has_type (snd (fs ! i)) (snd (snd (gs ! i))) \<and> wf_type (snd (fs ! i)) \<and>
      tuple_parts fs gs ! i = (isDynamicType (snd (fs ! i)), enc (snd (fs ! i)) (snd (snd (gs ! i))))"
      using ty assms(2) len by (simp add: list_all2_conv_all_nth list_all_length tuple_parts_def)
  qed (use len in \<open>simp add: tuple_parts_def\<close>)
qed

lemma part_size:
  "has_type t v \<Longrightarrow> wf_type t \<Longrightarrow> (if isDynamicType t then 32 else length (enc t v)) = getTypeSize t"
  by (simp add: enc_static_length getTypeSize_dynamic)

lemma head_length_tuple_parts:
  assumes "length (tuple_parts fs gs) = length fs"
    and "\<And>i. i < length fs \<Longrightarrow> has_type (snd (fs ! i)) (snd (snd (gs ! i))) \<and> wf_type (snd (fs ! i)) \<and>
      tuple_parts fs gs ! i = (isDynamicType (snd (fs ! i)), enc (snd (fs ! i)) (snd (snd (gs ! i))))"
  shows "head_length (tuple_parts fs gs) = sum_list (map (\<lambda>f. getTypeSize (snd f)) fs)"
proof -
  have "map (\<lambda>p. if fst p then 32 else length (snd p)) (tuple_parts fs gs) = map (\<lambda>f. getTypeSize (snd f)) fs"
    using assms by (intro nth_equalityI) (auto simp: enc_static_length getTypeSize_dynamic)
  then show ?thesis by (simp only: head_length_def)
qed

lemma pack_enc_elem:
  assumes "has_type t v" "wf_type t" "\<not> isArrayTy t" "\<not> isTupleTy t" "\<And>e. t \<noteq> SliceTy e"
  shows "pack t v = Ok (enc t v)"
proof -
  have "full_slices t v" using assms(3-5) by (cases t) auto
  moreover
  have "pack t v = bind_res (pack_check t v) (packElement t)" using assms(3-5) by (cases t) auto
  ultimately show ?thesis using pack_check_has_type packElement_enc assms by simp
qed

lemma pack_enc: "has_type t v \<Longrightarrow> wf_type t \<Longrightarrow> full_slices t v \<Longrightarrow> pack t v = Ok (enc t v)"
proof (induction t arbitrary: v)
  case (SliceTy e)
  then obtain vs where v: "v = VSlice (TSlice (Type_Type e)) vs" "list_all (has_type e) vs" by (cases v) auto
  then have "pack e x = Ok (enc e x)" if "x \<in> set vs" for x using SliceTy that by (simp add: list_all_iff)
  then show ?case using pack_check_has_type [OF SliceTy.prems] v pack_elems_enc [of vs e] by (cases "isDynamicType e") auto
next
  case (ArrayTy n e)
  then obtain vs where v: "v = VArray (TArray n (Type_Type e)) vs" "list_all (has_type e) vs" by (cases v) auto
  then have "pack e x = Ok (enc e x)" if "x \<in> set vs" for x using ArrayTy that by (simp add: list_all_iff)
  then show ?case using pack_check_has_type [OF ArrayTy.prems] v pack_elems_enc [of vs e "[]"] by (cases "isDynamicType e") auto
next
  case (TupleTy nm fs)
  obtain gs where v: "v = VStruct gs" and len: "length gs = length fs" and parts: "length (tuple_parts fs gs) = length fs"
    and el: "\<And>i. i < length fs \<Longrightarrow> has_type (snd (fs ! i)) (snd (snd (gs ! i))) \<and> wf_type (snd (fs ! i)) \<and>
      tuple_parts fs gs ! i = (isDynamicType (snd (fs ! i)), enc (snd (fs ! i)) (snd (snd (gs ! i))))"
    using tuple_has_type_nth [OF TupleTy.prems(1,2)] by blast
  obtain fm where fm: "mapArgNamesToStructFields (map fst fs) gs = Ok fm"
    "\<And>i. i < length fs \<Longrightarrow> FieldByName gs (fm (fst (fs ! i))) = Some (snd (snd (gs ! i)))"
    using mapArgNames_has_type TupleTy.prems v by blast
  define es where "es = map (\<lambda>i. (fst (fs ! i), isDynamicType (snd (fs ! i)), pack (snd (fs ! i)),
    snd (snd (gs ! i)), enc (snd (fs ! i)) (snd (snd (gs ! i))))) [0..<length fs]"
  have ok: "FieldByName gs (fm n) = Some x \<and> f x = Ok y" if "(n, d, f, x, y) \<in> set es" for n d f x y
  proof -
    obtain i where i: "i < length fs" "(n, d, f, x, y) = es ! i" using \<open>_ \<in> set es\<close> by (auto simp: es_def in_set_conv_nth)
    then have "full_slices (snd (fs ! i)) (snd (snd (gs ! i)))"
      using TupleTy.prems(3) v len by (simp add: struct_fields_def list_all2_conv_all_nth)
    then have "pack (snd (fs ! i)) (snd (snd (gs ! i))) = Ok (enc (snd (fs ! i)) (snd (snd (gs ! i))))"
      using i TupleTy.IH [of "fs ! i" "snd (fs ! i)"] el by (simp add: snds.simps)
    then show ?thesis using i fm(2) by (simp add: es_def)
  qed
  have m1: "map (\<lambda>e. (fst e, fst (snd e), fst (snd (snd e)))) es = map (\<lambda>f. (fst f, isDynamicType (snd f), pack (snd f))) fs"
    by (rule nth_equalityI) (auto simp: es_def)
  have m2: "map (\<lambda>e. (fst (snd e), snd (snd (snd (snd e))))) es = tuple_parts fs gs"
    using el parts by (intro nth_equalityI) (auto simp: es_def)
  let ?n = "sum_list (map (\<lambda>f. getTypeSize (snd f)) fs)"
  have "pack_fields (map (\<lambda>e. (fst e, fst (snd e), fst (snd (snd e)))) es) fm gs ?n [] [] =
      Ok ([] @ run_heads ?n (map (\<lambda>e. (fst (snd e), snd (snd (snd (snd e))))) es) @ [] @
        enc_tails (map (\<lambda>e. (fst (snd e), snd (snd (snd (snd e))))) es))"
    by (rule pack_fields_run) (erule ok)
  then have "pack_fields (map (\<lambda>f. (fst f, isDynamicType (snd f), pack (snd f))) fs) fm gs ?n [] [] =
      Ok (enc_seq (tuple_parts fs gs))"
    unfolding m1 m2 by (simp add: enc_seq_run head_length_tuple_parts [OF parts el])
  then show ?case using pack_check_has_type [OF TupleTy.prems] v fm(1) by (simp add: struct_fields_def tuple_parts_def)
qed (rule pack_enc_elem; (assumption | simp))+

section \<open>Arguments\<close>

definition args_ok :: "Argument list \<Rightarrow> goval list \<Rightarrow> bool" where
  "args_ok arguments args \<longleftrightarrow>
     list_all2 (\<lambda>a x. wf_type (arg_Type a) \<and> has_type (arg_Type a) x \<and> full_slices (arg_Type a) x) arguments args"

definition args_parts :: "Argument list \<Rightarrow> goval list \<Rightarrow> (bool \<times> bytes) list" where
  "args_parts arguments args = map2 (\<lambda>a x. (isDynamicType (arg_Type a), enc (arg_Type a) x)) arguments args"

definition enc_args :: "Argument list \<Rightarrow> goval list \<Rightarrow> bytes" where
  "enc_args arguments args = enc_seq (args_parts arguments args)"

lemma head_length_args_parts:
  "args_ok arguments args \<Longrightarrow> head_length (args_parts arguments args) = sum_list (map (\<lambda>a. getTypeSize (arg_Type a)) arguments)"
  unfolding args_ok_def args_parts_def
proof (induction rule: list_all2_induct)
  case (Cons a as x xs)
  then show ?case by (simp add: enc_static_length getTypeSize_dynamic)
qed simp

lemma Arguments_Pack_enc:
  assumes "args_ok arguments args"
  shows "Arguments_Pack arguments args = Ok (enc_args arguments args)"
proof -
  have len: "length args = length arguments" using assms list_all2_lengthD unfolding args_ok_def by fastforce
  have "pack (arg_Type a) x = Ok (enc (arg_Type a) x)" if "(a, x) \<in> set (zip arguments args)" for a x
    using that assms pack_enc unfolding args_ok_def list_all2_iff by auto
  from Pack_loop_run [of "zip arguments args" enc, OF this]
  show ?thesis using len head_length_args_parts [OF assms]
    by (simp add: Arguments_Pack_def enc_args_def args_parts_def enc_seq_run case_prod_beta')
qed


definition sample_args :: "Argument list" where
  "sample_args =
     [\<lparr>arg_Name = ''xs'', arg_Type = SliceTy (UintTy 256), arg_Indexed = False\<rparr>,
      \<lparr>arg_Name = ''p'', arg_Type = TupleTy '''' [(''a'', BoolTy), (''b'', StringTy)], arg_Indexed = False\<rparr>]"

definition sample_vals :: "goval list" where
  "sample_vals =
     [VSlice (TSlice TBig) [VBig 7, VBig 8],
      VStruct [(''A'', None, VBool True), (''B'', None, VString [104, 105])]]"

lemma sample_names: "ToCamelCase ''a'' = ''A''" "ToCamelCase ''b'' = ''B''"
  by code_simp+

lemma sample_ok: "args_ok sample_args sample_vals"
  by (simp add: args_ok_def sample_args_def sample_vals_def int_value_def reflectIntKindAndType_def sample_names
      struct_fields_def)


end
