(* ===== verification/Abi_Unpack.thy ===== *)
theory Abi_Unpack
  imports Abi_Spec
begin

text \<open>
  Unpacking (\<^verbatim>\<open>unpack.go\<close> and the value part of \<^verbatim>\<open>argument.go\<close>). The type comes first in
  \<^verbatim>\<open>ToGoType\<close>, whose recursion follows it. Slice expressions and \<^verbatim>\<open>reflect.Value.Set\<close> are
  checked, with a panic as their failure; indices are integers, as large as the data.
\<close>

section \<open>Reading words\<close>

definition slice_from :: "int \<Rightarrow> bytes \<Rightarrow> bytes res" where
  "slice_from a output = (if a < 0 \<or> a > int (length output) then Panic else Ok (drop (nat a) output))"

definition slice_between :: "int \<Rightarrow> int \<Rightarrow> bytes \<Rightarrow> bytes res" where
  "slice_between a b output =
     (if a < 0 \<or> b < a \<or> b > int (length output) then Panic else Ok (take (nat (b - a)) (drop (nat a) output)))"

text \<open>The last \<open>k\<close> bytes, \<^verbatim>\<open>b[len(b)-k:]\<close>, as an unsigned and as a two's complement number.\<close>

definition last_uint :: "nat \<Rightarrow> bytes \<Rightarrow> int res" where
  "last_uint k b = (if length b < k then Panic else Ok (int (be_val (drop (length b - k) b))))"

definition last_sint :: "nat \<Rightarrow> bytes \<Rightarrow> int res" where
  "last_sint k b =
     bind_res (last_uint k b) (\<lambda>n. Ok (if n < 2 ^ (8 * k - 1) then n else n - 2 ^ (8 * k)))"

definition MaxUint256 :: int where
  "MaxUint256 = 2 ^ 256 - 1"

definition ReadInteger :: "bool \<Rightarrow> gokind \<Rightarrow> bytes \<Rightarrow> goval res" where
  "ReadInteger uns k b =
     (case k of
        KUint8 \<Rightarrow> bind_res (last_uint 1 b) (\<lambda>n. Ok (VNum KUint8 n))
      | KUint16 \<Rightarrow> bind_res (last_uint 2 b) (\<lambda>n. Ok (VNum KUint16 n))
      | KUint32 \<Rightarrow> bind_res (last_uint 4 b) (\<lambda>n. Ok (VNum KUint32 n))
      | KUint64 \<Rightarrow> bind_res (last_uint 8 b) (\<lambda>n. Ok (VNum KUint64 n))
      | KInt8 \<Rightarrow> bind_res (last_sint 1 b) (\<lambda>n. Ok (VNum KInt8 n))
      | KInt16 \<Rightarrow> bind_res (last_sint 2 b) (\<lambda>n. Ok (VNum KInt16 n))
      | KInt32 \<Rightarrow> bind_res (last_sint 4 b) (\<lambda>n. Ok (VNum KInt32 n))
      | KInt64 \<Rightarrow> bind_res (last_sint 8 b) (\<lambda>n. Ok (VNum KInt64 n))
      | _ \<Rightarrow>
          let ret = int (be_val b) in
          Ok (VBig (if uns then ret else if bit ret 255 then - (MaxUint256 + - ret + 1) else ret)))"

definition readBool :: "bytes \<Rightarrow> bool res" where
  "readBool word =
     (if length word < 32 then Panic
      else if list_ex (\<lambda>b. b \<noteq> 0) (take 31 word) then Err BadBool
      else if word ! 31 = 0 then Ok False else if word ! 31 = 1 then Ok True else Err BadBool)"

definition readFunctionType :: "bytes \<Rightarrow> bytes res" where
  "readFunctionType word =
     bind_res (slice_between 24 32 word) (\<lambda>g. if be_val g \<noteq> 0 then Err BadFunctionType else Ok (take 24 word))"

definition ReadFixedBytes :: "nat \<Rightarrow> bytes \<Rightarrow> goval res" where
  "ReadFixedBytes n word =
     bind_res (slice_between 0 (int n) word) (\<lambda>b. Ok (VArray (TArray n (TNum KUint8)) (byte_vals b)))"

definition lengthPrefixPointsTo :: "int \<Rightarrow> bytes \<Rightarrow> (int \<times> int) res" where
  "lengthPrefixPointsTo index output =
     bind_res (slice_between index (index + 32) output) (\<lambda>w.
       let bigOffsetEnd = int (be_val w) + 32; outputLength = int (length output) in
       if bigOffsetEnd > outputLength then Err OffsetOutOfRange
       else if BitLen bigOffsetEnd > 63 then Err OffsetTooLarge
       else bind_res (slice_between (bigOffsetEnd - 32) bigOffsetEnd output) (\<lambda>l.
         let lengthBig = int (be_val l); totalSize = bigOffsetEnd + lengthBig in
         if BitLen totalSize > 63 then Err LengthTooLarge
         else if totalSize > outputLength then Err LengthInsufficient
         else Ok (bigOffsetEnd, lengthBig)))"

definition tuplePointsTo :: "int \<Rightarrow> bytes \<Rightarrow> int res" where
  "tuplePointsTo index output =
     bind_res (slice_between index (index + 32) output) (\<lambda>w.
       let off = int (be_val w) in
       if off > int (length output) then Err OffsetOutOfRange
       else if BitLen off > 63 then Err OffsetTooLarge
       else Ok off)"

section \<open>Values\<close>

text \<open>The loop of \<^verbatim>\<open>forEachUnpack\<close>: each value is assigned to an element of the given type.\<close>

fun each_loop :: "(int \<Rightarrow> goval res) \<Rightarrow> gotype \<Rightarrow> int \<Rightarrow> int \<Rightarrow> nat \<Rightarrow> goval list res" where
  "each_loop f ty elemSize i 0 = Ok []"
| "each_loop f ty elemSize i (Suc n) =
     bind_res (f i) (\<lambda>inter.
       if typeof inter \<noteq> ty then Panic
       else bind_res (each_loop f ty elemSize (i + elemSize) n) (\<lambda>vs. Ok (inter # vs)))"

definition forEachUnpack ::
  "(gotype \<Rightarrow> goval list \<Rightarrow> goval) \<Rightarrow> abi_type \<Rightarrow> abi_type \<Rightarrow> (int \<Rightarrow> bytes \<Rightarrow> goval res) \<Rightarrow> bytes \<Rightarrow> int \<Rightarrow> int \<Rightarrow> goval res" where
  "forEachUnpack mk t e f output start sz =
     (if sz < 0 then Err NegativeSize
      else if start + 32 * sz > int (length output) then Err OffsetOutOfRange
      else bind_res (each_loop (\<lambda>i. f i output) (Type_Type e) (int (getTypeSize e)) start (nat sz))
        (\<lambda>vs. Ok (mk (Type_Type t) vs)))"

definition virtual_args :: "abi_type \<Rightarrow> int" where
  "virtual_args t =
     (if isArrayTy t \<and> \<not> isDynamicType t then int (getTypeSize t div 32) - 1
      else if isTupleTy t \<and> \<not> isDynamicType t then int (getTypeSize t div 32) - 1
      else 0)"

fun tuple_loop ::
  "(string \<times> abi_type \<times> (int \<Rightarrow> bytes \<Rightarrow> goval res)) list \<Rightarrow> bytes \<Rightarrow> int \<Rightarrow> int \<Rightarrow>
   (string \<times> string option \<times> goval) list res" where
  "tuple_loop [] output index virtualArgs = Ok []"
| "tuple_loop ((nm, elem, f) # es) output index virtualArgs =
     bind_res (f ((index + virtualArgs) * 32) output) (\<lambda>v.
       if typeof v \<noteq> Type_Type elem then Panic
       else bind_res (tuple_loop es output (index + 1) (virtualArgs + virtual_args elem))
         (\<lambda>vs. Ok ((ToCamelCase nm, None, v) # vs)))"

definition forTupleUnpack :: "(string \<times> abi_type \<times> (int \<Rightarrow> bytes \<Rightarrow> goval res)) list \<Rightarrow> bytes \<Rightarrow> goval res" where
  "forTupleUnpack es output = bind_res (tuple_loop es output 0 0) (\<lambda>fs. Ok (VStruct fs))"

definition word_at :: "int \<Rightarrow> bytes \<Rightarrow> bytes res" where
  "word_at index output =
     (if index + 32 > int (length output) then Err LengthInsufficient else slice_between index (index + 32) output)"

definition prefix_at :: "int \<Rightarrow> bytes \<Rightarrow> (int \<times> int) res" where
  "prefix_at index output =
     (if index + 32 > int (length output) then Err LengthInsufficient else lengthPrefixPointsTo index output)"

fun ToGoType :: "abi_type \<Rightarrow> int \<Rightarrow> bytes \<Rightarrow> goval res" where
  "ToGoType (TupleTy nm fs) index output =
     bind_res (word_at index output) (\<lambda>_.
       bind_res (if isDynamicType (TupleTy nm fs) then tuplePointsTo index output else Ok index) (\<lambda>begin.
         bind_res (slice_from begin output) (\<lambda>out.
           forTupleUnpack (map (\<lambda>f. (fst f, snd f, ToGoType (snd f))) fs) out)))"
| "ToGoType (SliceTy e) index output =
     bind_res (prefix_at index output) (\<lambda>(begin, len).
       bind_res (slice_from begin output) (\<lambda>out.
         forEachUnpack VSlice (SliceTy e) e (ToGoType e) out 0 len))"
| "ToGoType (ArrayTy n e) index output =
     bind_res (word_at index output) (\<lambda>returnOutput.
       bind_res (if isDynamicType e then last_sint 8 returnOutput else Ok index) (\<lambda>off.
         bind_res (slice_from off output) (\<lambda>out.
           forEachUnpack VArray (ArrayTy n e) e (ToGoType e) out 0 (int n))))"
| "ToGoType StringTy index output =
     bind_res (prefix_at index output) (\<lambda>(begin, len).
       bind_res (slice_between begin (begin + len) output) (\<lambda>s. Ok (VString s)))"
| "ToGoType BytesTy index output =
     bind_res (prefix_at index output) (\<lambda>(begin, len).
       bind_res (slice_between begin (begin + len) output) (\<lambda>s. Ok (VSlice (TSlice (TNum KUint8)) (byte_vals s))))"
| "ToGoType (IntTy n) index output = bind_res (word_at index output) (ReadInteger False (Type_Kind (IntTy n)))"
| "ToGoType (UintTy n) index output = bind_res (word_at index output) (ReadInteger True (Type_Kind (UintTy n)))"
| "ToGoType BoolTy index output = bind_res (word_at index output) (\<lambda>w. bind_res (readBool w) (\<lambda>b. Ok (VBool b)))"
| "ToGoType AddressTy index output =
     bind_res (word_at index output) (\<lambda>w. Ok (VArray addressT (byte_vals (BytesToAddress w))))"
| "ToGoType (FixedBytesTy n) index output = bind_res (word_at index output) (ReadFixedBytes n)"
| "ToGoType FunctionTy index output =
     bind_res (word_at index output) (\<lambda>w.
       bind_res (readFunctionType w) (\<lambda>b. Ok (VArray (TArray 24 (TNum KUint8)) (byte_vals b))))"

section \<open>Arguments\<close>

fun values_loop :: "Argument list \<Rightarrow> bytes \<Rightarrow> int \<Rightarrow> int \<Rightarrow> goval list res" where
  "values_loop [] data index virtualArgs = Ok []"
| "values_loop (arg # args) data index virtualArgs =
     bind_res (ToGoType (arg_Type arg) ((index + virtualArgs) * 32) data) (\<lambda>v.
       bind_res (values_loop args data (index + 1) (virtualArgs + virtual_args (arg_Type arg)))
         (\<lambda>vs. Ok (v # vs)))"

definition UnpackValues :: "Argument list \<Rightarrow> bytes \<Rightarrow> goval list res" where
  "UnpackValues arguments data = values_loop (NonIndexed arguments) data 0 0"

text \<open>The map with the values of the arguments by their names; a nil map is \<^term>\<open>None\<close>.\<close>

definition UnpackIntoMap :: "Argument list \<Rightarrow> (string \<rightharpoonup> goval) option \<Rightarrow> bytes \<Rightarrow> (string \<rightharpoonup> goval) res" where
  "UnpackIntoMap arguments v data =
     (case v of
        None \<Rightarrow> Err EmptyOutput
      | Some m \<Rightarrow>
          if length data = 0 then (if length arguments \<noteq> 0 then Err EmptyOutput else Ok m)
          else bind_res (UnpackValues arguments data) (\<lambda>vs.
            Ok (foldl (\<lambda>m (arg, x). m(arg_Name arg \<mapsto> x)) m (zip (NonIndexed arguments) vs))))"

section \<open>Unpacked values have the type\<close>

lemma slice_from_Ok [simp]: "slice_from a out = Ok b \<longleftrightarrow> 0 \<le> a \<and> a \<le> int (length out) \<and> b = drop (nat a) out"
  by (auto simp: slice_from_def)

lemma slice_between_Ok [simp]:
  "slice_between a b out = Ok c \<longleftrightarrow>
     0 \<le> a \<and> a \<le> b \<and> b \<le> int (length out) \<and> c = take (nat (b - a)) (drop (nat a) out)"
  by (auto simp: slice_between_def)

lemma word_at_length: "word_at i out = Ok w \<Longrightarrow> length w = 32"
  by (auto simp: word_at_def split: if_splits)

lemma last_uint_range: "last_uint k b = Ok n \<Longrightarrow> 0 \<le> n \<and> n < 2 ^ (8 * k)"
proof -
  assume "last_uint k b = Ok n"
  then have n: "n = int (be_val (drop (length b - k) b))" and l: "k \<le> length b" by (auto simp: last_uint_def split: if_splits)
  have "be_val (drop (length b - k) b) < 256 ^ k" using be_val_less [of "drop (length b - k) b"] l by simp
  then have "int (be_val (drop (length b - k) b)) < int (256 ^ k)" by (simp only: of_nat_less_iff)
  then show ?thesis using n by (simp add: power_mult)
qed

lemma last_sint_range: "last_sint k b = Ok n \<Longrightarrow> 0 < k \<Longrightarrow> - (2 ^ (8 * k - 1)) \<le> n \<and> n < 2 ^ (8 * k - 1)"
proof -
  assume "last_sint k b = Ok n" and k: "0 < k"
  then obtain m where m: "last_uint k b = Ok m" "n = (if m < 2 ^ (8 * k - 1) then m else m - 2 ^ (8 * k))"
    by (auto simp: last_sint_def)
  have "(2 :: int) ^ (8 * k) = 2 * 2 ^ (8 * k - 1)" using k by (cases k) (simp_all add: power_add)
  then show ?thesis using m(2) last_uint_range [OF m(1)] by auto
qed

lemma be_val_word: "length w = 32 \<Longrightarrow> int (be_val w) < 2 ^ 256"
  using be_val_less [of w] by (simp add: nat_less_iff)

lemma bit_255: "0 \<le> r \<Longrightarrow> r < 2 ^ 256 \<Longrightarrow> bit r 255 \<longleftrightarrow> 2 ^ 255 \<le> (r :: int)"
proof -
  assume r: "0 \<le> r" "r < 2 ^ 256"
  have "bit r 255 \<longleftrightarrow> odd (r div 2 ^ 255)" by (simp add: bit_iff_odd)
  moreover have "r div 2 ^ 255 = (if 2 ^ 255 \<le> r then 1 else 0)"
  proof (cases "2 ^ 255 \<le> r")
    case True
    then have "r = (r - 2 ^ 255) + 1 * 2 ^ 255" "(r - 2 ^ 255) div 2 ^ 255 = 0" using r by auto
    then show ?thesis using True by (metis add.right_neutral add.commute div_mult_self1 zero_neq_numeral power_not_zero)
  qed (use r in auto)
  ultimately show ?thesis by simp
qed

lemma ReadInteger_type:
  assumes "length w = 32" "ReadInteger uns (fst (reflectIntKindAndType uns n)) w = Ok v"
  shows "int_value uns n v"
proof -
  define k where "k = fst (reflectIntKindAndType uns n)"
  define r where "r = int (be_val w)"
  have r: "0 \<le> r" "r < 2 ^ 256" using be_val_word [OF assms(1)] by (simp_all add: r_def)
  have "k \<in> {KUint8, KUint16, KUint32, KUint64, KInt8, KInt16, KInt32, KInt64} \<and> snd (reflectIntKindAndType uns n) = TNum k \<or>
    k = KPtr \<and> snd (reflectIntKindAndType uns n) = TBig" by (simp add: k_def reflectIntKindAndType_def)
  moreover have "x \<in> kind_range KUint8" if "last_uint 1 w = Ok x" for x using last_uint_range [OF that] by simp
  moreover have "x \<in> kind_range KUint16" if "last_uint 2 w = Ok x" for x using last_uint_range [OF that] by simp
  moreover have "x \<in> kind_range KUint32" if "last_uint 4 w = Ok x" for x using last_uint_range [OF that] by simp
  moreover have "x \<in> kind_range KUint64" if "last_uint 8 w = Ok x" for x using last_uint_range [OF that] by simp
  moreover have "x \<in> kind_range KInt8" if "last_sint 1 w = Ok x" for x using last_sint_range [OF that] by simp
  moreover have "x \<in> kind_range KInt16" if "last_sint 2 w = Ok x" for x using last_sint_range [OF that] by simp
  moreover have "x \<in> kind_range KInt32" if "last_sint 4 w = Ok x" for x using last_sint_range [OF that] by simp
  moreover have "x \<in> kind_range KInt64" if "last_sint 8 w = Ok x" for x using last_sint_range [OF that] by simp
  moreover have "(if uns then r else if bit r 255 then - (MaxUint256 + - r + 1) else r) \<in>
      (if uns then {0..<2 ^ 256} else {- (2 ^ 255)..<2 ^ 255})" using r bit_255 [OF r] by (simp add: MaxUint256_def)
  ultimately show ?thesis using assms(2) unfolding k_def [symmetric]
    by (auto simp: ReadInteger_def int_value_def r_def [symmetric] Let_def simp del: kind_range.simps)
qed
lemma each_loop_Ok: "each_loop f ty sz i n = Ok vs \<Longrightarrow> length vs = n \<and> (\<forall>v \<in> set vs. \<exists>j. f j = Ok v)"
  by (induction f ty sz i n arbitrary: vs rule: each_loop.induct) (auto split: if_splits)

lemma tuple_loop_Ok:
  "tuple_loop es out i va = Ok fs \<Longrightarrow>
     map fst fs = map (\<lambda>e. ToCamelCase (fst e)) es \<and> list_all (\<lambda>g. fst (snd g) = None) fs \<and>
     list_all2 (\<lambda>e g. \<exists>j. snd (snd e) j out = Ok (snd (snd g))) es fs"
  by (induction es out i va arbitrary: fs rule: tuple_loop.induct) (auto split: if_splits)

lemma forEachUnpack_Ok:
  "forEachUnpack mk t e f out i n = Ok v \<Longrightarrow>
     \<exists>vs. v = mk (Type_Type t) vs \<and> int (length vs) = n \<and> (\<forall>x \<in> set vs. \<exists>j. f j out = Ok x)"
  using each_loop_Ok by (fastforce simp: forEachUnpack_def split: if_splits)

lemma BytesToAddress_length: "length (BytesToAddress w) = 20"
  using Address_SetBytes_length [of "replicate AddressLength 0" w] by (simp add: BytesToAddress_def AddressLength_def)

lemma ToGoType_has_type: "ToGoType t index outp = Ok v \<Longrightarrow> has_type t v"
proof (induction t arbitrary: index outp v)
  case (SliceTy e)
  then obtain out n where "forEachUnpack VSlice (SliceTy e) e (ToGoType e) out 0 n = Ok v" by auto
  from forEachUnpack_Ok [OF this] show ?case using SliceTy.IH by (fastforce simp: list_all_iff)
next
  case (ArrayTy n e)
  then obtain out where "forEachUnpack VArray (ArrayTy n e) e (ToGoType e) out 0 (int n) = Ok v" by auto
  from forEachUnpack_Ok [OF this] show ?case using ArrayTy.IH by (fastforce simp: list_all_iff)
next
  case (TupleTy nm fs)
  then obtain out where "forTupleUnpack (map (\<lambda>f. (fst f, snd f, ToGoType (snd f))) fs) out = Ok v" by auto
  then obtain gs where v: "v = VStruct gs" and gs: "tuple_loop (map (\<lambda>f. (fst f, snd f, ToGoType (snd f))) fs) out 0 0 = Ok gs"
    by (auto simp: forTupleUnpack_def)
  note ok = tuple_loop_Ok [OF gs]
  have "list_all2 (\<lambda>p x. p x) (map (\<lambda>f. has_type (snd f)) fs) (map (\<lambda>g. snd (snd g)) gs)"
  proof -
    have l: "length gs = length fs" using ok list_all2_lengthD by fastforce
    have "has_type (snd (fs ! i)) (snd (snd (gs ! i)))" if "i < length fs" for i
    proof -
      have "\<exists>j. ToGoType (snd (fs ! i)) j out = Ok (snd (snd (gs ! i)))"
        using ok that l by (auto simp: list_all2_conv_all_nth)
      then show ?thesis using TupleTy.IH [of "fs ! i" "snd (fs ! i)"] that by (auto simp: snds.simps)
    qed
    then show ?thesis using l by (simp add: list_all2_conv_all_nth)
  qed
  then show ?case using ok v by (simp add: comp_def)
next
  case (FixedBytesTy n)
  then obtain w where "n \<le> length w" "v = VArray (TArray n (TNum KUint8)) (byte_vals (take n w))"
    by (auto simp: ReadFixedBytes_def)
  moreover from this have "length (take n w) = n" by simp
  ultimately show ?case unfolding has_type.simps by blast
next
  case FunctionTy
  then obtain w b where w: "word_at index outp = Ok w" "readFunctionType w = Ok b"
    "v = VArray (TArray 24 (TNum KUint8)) (byte_vals b)" by auto
  then have "length b = 24" using word_at_length [OF w(1)] by (auto simp: readFunctionType_def split: if_splits)
  then show ?case using w(3) by auto
next
  case AddressTy
  then show ?case using BytesToAddress_length by auto
qed (auto simp: ReadInteger_type dest!: word_at_length)

lemma ToGoType_typeof: "ToGoType t index outp = Ok v \<Longrightarrow> typeof v = Type_Type t"
  using ToGoType_has_type has_type_typeof by blast

lemma values_loop_has_type:
  "values_loop args data i va = Ok vs \<Longrightarrow> list_all2 (\<lambda>a v. has_type (arg_Type a) v) args vs"
  by (induction args data i va arbitrary: vs rule: values_loop.induct) (auto dest: ToGoType_has_type)


section \<open>Which types unpack without a panic\<close>

text \<open>
  The offset of an array with dynamic elements is used unchecked, and a fixed byte array longer
  than a word is cut from one word.
\<close>

fun safe_type :: "abi_type \<Rightarrow> bool" where
  "safe_type (SliceTy e) = safe_type e"
| "safe_type (ArrayTy _ e) = (safe_type e \<and> \<not> isDynamicType e)"
| "safe_type (TupleTy _ fs) = list_all (\<lambda>f. safe_type (snd f)) fs"
| "safe_type (FixedBytesTy n) = (n \<le> 32)"
| "safe_type _ = True"

lemma slice_between_ne_Panic: "0 \<le> a \<Longrightarrow> a \<le> b \<Longrightarrow> b \<le> int (length out) \<Longrightarrow> slice_between a b out \<noteq> Panic"
  by (simp add: slice_between_def)

lemma word_at_ne_Panic: "0 \<le> i \<Longrightarrow> word_at i out \<noteq> Panic"
  by (simp add: word_at_def slice_between_def)

lemma prefix_at_ne_Panic: "0 \<le> i \<Longrightarrow> prefix_at i out \<noteq> Panic"
  by (auto simp: prefix_at_def lengthPrefixPointsTo_def Let_def bind_res_Panic_iff slice_between_def)

lemma prefix_at_Ok: "prefix_at i out = Ok (b, n) \<Longrightarrow> 0 \<le> b \<and> 0 \<le> n \<and> b + n \<le> int (length out)"
  by (auto simp: prefix_at_def lengthPrefixPointsTo_def Let_def split: if_splits)

lemma each_loop_ne_Panic:
  assumes "\<And>j. 0 \<le> j \<Longrightarrow> f j \<noteq> Panic" "\<And>j v. f j = Ok v \<Longrightarrow> typeof v = ty" "0 \<le> i" "0 \<le> sz"
  shows "each_loop f ty sz i n \<noteq> Panic"
  using assms by (induction n arbitrary: i) (auto simp: bind_res_Panic_iff)

lemma forEachUnpack_ne_Panic:
  assumes "\<And>j. 0 \<le> j \<Longrightarrow> f j out \<noteq> Panic" "\<And>j v. f j out = Ok v \<Longrightarrow> typeof v = Type_Type e" "0 \<le> i"
  shows "forEachUnpack mk t e f out i n \<noteq> Panic"
  using each_loop_ne_Panic [of "\<lambda>j. f j out"] assms by (auto simp: forEachUnpack_def bind_res_Panic_iff)

lemma virtual_args_ge: "-1 \<le> virtual_args t"
  by (simp add: virtual_args_def)

lemma tuple_loop_ne_Panic:
  assumes "\<And>e j. e \<in> set es \<Longrightarrow> 0 \<le> j \<Longrightarrow> snd (snd e) j out \<noteq> Panic"
    and "\<And>e j v. e \<in> set es \<Longrightarrow> snd (snd e) j out = Ok v \<Longrightarrow> typeof v = Type_Type (fst (snd e))" and "0 \<le> i + va"
  shows "tuple_loop es out i va \<noteq> Panic"
  using assms
proof (induction es arbitrary: i va)
  case (Cons e es)
  obtain nm t f where e: "e = (nm, t, f)" by (cases e)
  have "tuple_loop es out (i + 1) (va + virtual_args t) \<noteq> Panic"
    by (rule Cons.IH) (use Cons.prems virtual_args_ge [of t] in auto)
  then show ?case using Cons.prems(1,2) [of e] Cons.prems(3) e by (auto simp: bind_res_Panic_iff)
qed simp

lemma ToGoType_ne_Panic: "safe_type t \<Longrightarrow> 0 \<le> index \<Longrightarrow> ToGoType t index outp \<noteq> Panic"
proof (induction t arbitrary: index outp)
  case (SliceTy e)
  have "forEachUnpack VSlice (SliceTy e) e (ToGoType e) out 0 n \<noteq> Panic" for out n
    by (rule forEachUnpack_ne_Panic) (use SliceTy ToGoType_typeof in auto)
  then show ?case using prefix_at_ne_Panic [OF SliceTy.prems(2)]
    by (auto simp: bind_res_Panic_iff slice_from_def dest!: prefix_at_Ok)
next
  case (ArrayTy n e)
  have "forEachUnpack VArray (ArrayTy n e) e (ToGoType e) out 0 (int n) \<noteq> Panic" for out
    by (rule forEachUnpack_ne_Panic) (use ArrayTy ToGoType_typeof in auto)
  then show ?case using ArrayTy.prems word_at_ne_Panic [OF ArrayTy.prems(2)]
    by (auto simp: bind_res_Panic_iff slice_from_def word_at_def split: if_splits)
next
  case (TupleTy nm fs)
  have "forTupleUnpack (map (\<lambda>f. (fst f, snd f, ToGoType (snd f))) fs) out \<noteq> Panic" for out
  proof -
    have "tuple_loop (map (\<lambda>f. (fst f, snd f, ToGoType (snd f))) fs) out 0 0 \<noteq> Panic"
      by (rule tuple_loop_ne_Panic) (use TupleTy ToGoType_typeof in \<open>auto simp: list_all_iff snds.simps\<close>)
    then show ?thesis by (simp add: forTupleUnpack_def bind_res_Panic_iff)
  qed
  then show ?case using TupleTy.prems word_at_ne_Panic [OF TupleTy.prems(2)]
    by (auto simp: bind_res_Panic_iff slice_from_def slice_between_def word_at_def tuplePointsTo_def Let_def split: if_splits)
qed (auto simp: bind_res_Panic_iff word_at_ne_Panic prefix_at_ne_Panic slice_between_def ReadInteger_def last_uint_def
      last_sint_def readBool_def ReadFixedBytes_def readFunctionType_def Let_def
      dest!: word_at_length prefix_at_Ok split: gokind.splits if_splits)

lemma values_loop_ne_Panic:
  "list_all (\<lambda>a. safe_type (arg_Type a)) args \<Longrightarrow> 0 \<le> i + va \<Longrightarrow> values_loop args data i va \<noteq> Panic"
proof (induction args arbitrary: i va)
  case (Cons a args)
  have "values_loop args data (i + 1) (va + virtual_args (arg_Type a)) \<noteq> Panic"
    by (rule Cons.IH) (use Cons.prems virtual_args_ge [of "arg_Type a"] in auto)
  then show ?case using Cons.prems ToGoType_ne_Panic by (simp add: bind_res_Panic_iff)
qed simp

end
