(* ===== verification/Abi_Roundtrip.thy ===== *)
theory Abi_Roundtrip
  imports Abi_Unpack
begin

text \<open>
  Unpacking what \<^verbatim>\<open>Pack\<close> wrote gives the values back. The proof follows the layout: a value
  is located at an index when the bytes there are its encoding, or the offset of it.
\<close>

section \<open>Words\<close>

lemma getTypeSize_ge: "wf_type t \<Longrightarrow> 32 \<le> getTypeSize t"
proof (induction t)
  case (ArrayTy n e)
  then have "1 * 32 \<le> n * getTypeSize e" by (intro mult_le_mono) auto
  then show ?case using ArrayTy.prems by auto
next
  case (TupleTy nm fs)
  then obtain f r where fs: "fs = f # r" by (cases fs) auto
  then have "32 \<le> getTypeSize (snd f)" using TupleTy by (auto simp: snds.simps)
  then show ?case using fs by auto
qed auto

lemma virtual_args_eq: "1 + virtual_args t = int (getTypeSize t div 32)"
  by (cases t) (auto simp: virtual_args_def)

lemma be_fixed_drop: "k \<le> n \<Longrightarrow> drop (n - k) (be_fixed n m) = be_fixed k m"
  using be_fixed_add [of "n - k" k m] by simp

lemma last_uint_enc:
  assumes "i mod 2 ^ (8 * k) = j" "k \<le> 32"
  shows "last_uint k (enc_int i) = Ok j"
proof -
  have "drop (length (enc_int i) - k) (enc_int i) = be_fixed k (nat (i mod 2 ^ 256))"
    using be_fixed_drop [of k 32] assms(2) by (simp add: enc_int_def del: be_fixed_numeral)
  moreover have "int (nat (i mod 2 ^ 256) mod 256 ^ k) = j"
  proof -
    have dvd: "(2 :: int) ^ (8 * k) dvd 2 ^ 256" using assms(2) by (intro le_imp_power_dvd) simp
    have "int (nat (i mod 2 ^ 256) mod 256 ^ k) = i mod 2 ^ 256 mod 2 ^ (8 * k)"
      by (simp add: zmod_int power_mult)
    also have "\<dots> = i mod 2 ^ (8 * k)" using dvd by (rule mod_mod_cancel)
    finally show ?thesis using assms(1) by simp
  qed
  ultimately show ?thesis using assms(2) by (simp add: last_uint_def del: be_fixed_numeral)
qed

lemma last_sint_enc:
  assumes "- (2 ^ (8 * k - 1)) \<le> i" "i < 2 ^ (8 * k - 1)" "0 < k" "k \<le> 32"
  shows "last_sint k (enc_int i) = Ok i"
proof -
  have p: "(2 :: int) ^ (8 * k) = 2 * 2 ^ (8 * k - 1)" using assms(3) by (cases k) (simp_all add: power_add)
  show ?thesis
  proof (cases "0 \<le> i")
    case True
    then have "i mod 2 ^ (8 * k) = i" using assms p by (intro mod_pos_pos_trivial) auto
    then show ?thesis using last_uint_enc [OF _ assms(4)] assms(2) by (simp add: last_sint_def)
  next
    case False
    then have "i mod 2 ^ (8 * k) = i + 2 ^ (8 * k)" using assms p by (intro int_mod_pos_eq [of _ _ "- 1"]) auto
    then show ?thesis using last_uint_enc [OF _ assms(4)] assms(1) p by (simp add: last_sint_def)
  qed
qed

lemma be_val_enc_int: "int (be_val (enc_int i)) = i mod 2 ^ 256"
  by (simp add: enc_int_def nat_less_iff del: be_fixed_numeral)

lemma ReadInteger_enc:
  assumes "int_value uns n v"
  shows "ReadInteger uns (fst (reflectIntKindAndType uns n)) (enc_int (num_val v)) = Ok v"
proof (cases v)
  case (VNum k i)
  then have k: "snd (reflectIntKindAndType uns n) = TNum k" and i: "i \<in> kind_range k" using assms by (simp_all add: int_value_def)
  then have fk: "fst (reflectIntKindAndType uns n) = k" by (auto simp: reflectIntKindAndType_def split: if_splits)
  have u: "last_uint m (enc_int i) = Ok i" if "0 \<le> i" "i < 2 ^ (8 * m)" "m \<le> 32" for m
    using that by (intro last_uint_enc) auto
  show ?thesis unfolding fk using VNum i u [of 1] u [of 2] u [of 4] u [of 8]
      last_sint_enc [of 1 i] last_sint_enc [of 2 i] last_sint_enc [of 4 i] last_sint_enc [of 8 i]
    by (cases k) (auto simp: ReadInteger_def)
next
  case (VBig i)
  then have "fst (reflectIntKindAndType uns n) = KPtr"
    and i: "i \<in> (if uns then {0..<2 ^ 256} else {- (2 ^ 255)..<2 ^ 255})"
    using assms by (auto simp: int_value_def reflectIntKindAndType_def split: if_splits)
  moreover have "(if uns then i mod 2 ^ 256 else if bit (i mod 2 ^ 256) 255 then - (MaxUint256 + - (i mod 2 ^ 256) + 1) else i mod 2 ^ 256) = i"
  proof (cases "0 \<le> i")
    case True
    then have m: "i mod 2 ^ 256 = i" using i by (intro mod_pos_pos_trivial) (auto split: if_splits)
    have "\<not> bit i 255" if "\<not> uns" using that True i bit_255 [of i] by auto
    then show ?thesis unfolding m by simp
  next
    case False
    then have s: "\<not> uns" "- (2 ^ 255) \<le> i" using i by (auto split: if_splits)
    then have m: "i mod 2 ^ 256 = i + 2 ^ 256" using False by (intro int_mod_pos_eq [of _ _ "- 1"]) auto
    have "bit (i + 2 ^ 256) 255" using s False bit_255 [of "i + 2 ^ 256"] by auto
    then show ?thesis unfolding m using s by (simp add: MaxUint256_def)
  qed
  ultimately show ?thesis by (simp only: VBig ReadInteger_def Let_def num_val.simps be_val_enc_int gokind.case)
qed (use assms in \<open>auto simp: int_value_def\<close>)

lemma enc_int_bit: "enc_int (if b then 1 else 0) = replicate 31 0 @ [if b then 1 else 0]"
proof -
  have "enc_int (if b then 1 else 0) = be_fixed (31 + 1) (if b then 1 else 0)" by (simp add: enc_int_def del: be_fixed_numeral)
  also have "\<dots> = be_fixed 31 0 @ be_fixed 1 (if b then 1 else 0)" unfolding be_fixed_add by simp
  finally show ?thesis by (simp del: be_fixed_numeral)
qed

lemma readBool_enc: "readBool (enc_int (if b then 1 else 0)) = Ok b"
  unfolding enc_int_bit by (simp add: readBool_def nth_append list_ex_iff)

section \<open>Located values\<close>

definition located :: "abi_type \<Rightarrow> goval \<Rightarrow> nat \<Rightarrow> bytes \<Rightarrow> bool" where
  "located t v i out \<longleftrightarrow>
     i + 32 \<le> length out \<and>
     (if isDynamicType t
      then be_val (take 32 (drop i out)) \<le> length out \<and>
        (\<exists>rest. drop (be_val (take 32 (drop i out))) out = enc t v @ rest)
      else \<exists>rest. drop i out = enc t v @ rest)"

lemma word_at_located: "i + 32 \<le> length out \<Longrightarrow> word_at (int i) out = Ok (take 32 (drop i out))"
  by (simp add: word_at_def slice_between_def)

lemma take_word: "drop i out = w @ rest \<Longrightarrow> length w = 32 \<Longrightarrow> take 32 (drop i out) = w"
  by simp

lemma run_heads_drop:
  "j \<le> length ps \<Longrightarrow> drop (head_length (take j ps)) (run_heads off ps) = run_heads (off + length (enc_tails (take j ps))) (drop j ps)"
proof (induction j arbitrary: ps off)
  case (Suc j)
  then obtain d b qs where ps: "ps = (d, b) # qs" by (cases ps) auto
  then show ?case using Suc by (auto simp: add.assoc)
qed simp

lemma head_length_append: "head_length (ps @ qs) = head_length ps + head_length qs"
  by (simp add: head_length_def)

lemma located_nth:
  assumes out: "out = enc_seq ps @ rest" and len: "length out < 2 ^ 63" and j: "j < length ps"
    and p: "ps ! j = (isDynamicType t, enc t v)" and size: "\<not> isDynamicType t \<longrightarrow> 32 \<le> length (enc t v)"
  shows "located t v (head_length (take j ps)) out"
proof -
  define i off where "i = head_length (take j ps)" and "off = head_length ps + length (enc_tails (take j ps))"
  have ps: "ps = take j ps @ ps ! j # drop (Suc j) ps" using j by (simp add: id_take_nth_drop)
  have hl: "head_length ps = i + (if isDynamicType t then 32 else length (enc t v)) + head_length (drop (Suc j) ps)"
    using arg_cong [OF ps, of head_length] p by (simp add: head_length_append i_def)
  have drp: "drop i out = run_heads off (drop j ps) @ enc_tails ps @ rest"
    using run_heads_drop [of j ps "head_length ps"] j hl by (simp add: out enc_seq_run i_def off_def)
  have dj: "drop j ps = (isDynamicType t, enc t v) # drop (Suc j) ps" using j p Cons_nth_drop_Suc by metis
  have li: "i + 32 \<le> length out" using hl size by (simp add: out enc_seq_run split: if_splits)
  show ?thesis
  proof (cases "isDynamicType t")
    case True
    have tails: "enc_tails ps = enc_tails (take j ps) @ enc t v @ enc_tails (drop (Suc j) ps)"
      using arg_cong [OF ps, of enc_tails] p True by simp
    have lo: "off \<le> length out" using tails by (simp add: out enc_seq_run off_def)
    then have "off < 2 ^ 256" using len by (auto intro: order_le_less_trans)
    have w: "take 32 (drop i out) = enc_int (int off)" using drp dj True by simp
    have "drop off out = enc t v @ enc_tails (drop (Suc j) ps) @ rest" using tails by (simp add: out enc_seq_run off_def)
    then show ?thesis using True li lo w \<open>off < 2 ^ 256\<close> by (simp add: located_def i_def [symmetric])
  next
    case False
    then show ?thesis using li drp dj by (simp add: located_def i_def [symmetric])
  qed
qed

lemma BitLen_le_63: "0 \<le> x \<Longrightarrow> x < 2 ^ 63 \<Longrightarrow> \<not> BitLen x > 63"
  using bit_len_le [of "nat x" 63] by (simp add: BitLen_def nat_less_iff not_less)

lemma prefix_at_located:
  assumes "i + 32 \<le> length out" "be_val (take 32 (drop i out)) = k" "k \<le> length out" "drop k out = enc_int (int n) @ body"
    "n \<le> length body" "length out < 2 ^ 63"
  shows "prefix_at (int i) out = Ok (int k + 32, int n)"
proof -
  have len: "k + 32 + length body = length out" using arg_cong [OF assms(4), of length] assms(3) by simp
  have w: "take 32 (drop k out) = enc_int (int n)" using assms(4) by simp
  have "(2 :: nat) ^ 63 < 2 ^ 256" by simp
  then have n: "be_val (enc_int (int n)) = n" using assms(5,6) len by (intro enc_int_nat) linarith
  have b: "\<not> BitLen (int k + 32) > 63" "\<not> BitLen (int k + 32 + int n) > 63"
    using assms(5,6) len by (intro BitLen_le_63; simp)+
  have s1: "slice_between (int i) (int i + 32) out = Ok (take 32 (drop i out))" using assms(1) by simp
  have s2: "slice_between (int k + 32 - 32) (int k + 32) out = Ok (enc_int (int n))" using len w by simp
  have le: "\<not> int k + 32 > int (length out)" "\<not> int k + 32 + int n > int (length out)" "\<not> int i + 32 > int (length out)"
    using assms(1,5) len by simp_all
  show ?thesis
    unfolding prefix_at_def lengthPrefixPointsTo_def s1 bind_res.simps Let_def assms(2) s2 n if_not_P [OF le(1)]
      if_not_P [OF le(2)] if_not_P [OF le(3)] if_not_P [OF b(1)] if_not_P [OF b(2)] by (rule refl)
qed

lemma each_loop_values:
  assumes "\<And>j. j < length vs \<Longrightarrow> f (int ((k + j) * sz)) = Ok (vs ! j) \<and> typeof (vs ! j) = ty"
  shows "each_loop f ty (int sz) (int (k * sz)) (length vs) = Ok vs"
  using assms
proof (induction vs arbitrary: k)
  case (Cons v vs)
  have "f (int (k * sz)) = Ok v" "typeof v = ty" using Cons.prems [of 0] by simp_all
  moreover have "each_loop f ty (int sz) (int (Suc k * sz)) (length vs) = Ok vs"
  proof (rule Cons.IH)
    fix j
    assume "j < length vs"
    then show "f (int ((Suc k + j) * sz)) = Ok (vs ! j) \<and> typeof (vs ! j) = ty" using Cons.prems [of "Suc j"] by simp
  qed
  moreover have "int (k * sz) + int sz = int (Suc k * sz)" by simp
  ultimately show ?case by (simp only: each_loop.simps list.size bind_res.simps add_0_right add_Suc_right) simp
qed simp

lemma forEachUnpack_values:
  assumes "\<And>j. j < length vs \<Longrightarrow> f (int (j * getTypeSize e)) out = Ok (vs ! j) \<and> typeof (vs ! j) = Type_Type e"
    and "32 * length vs \<le> length out"
  shows "forEachUnpack mk t e f out 0 (int (length vs)) = Ok (mk (Type_Type t) vs)"
proof -
  have "each_loop (\<lambda>i. f i out) (Type_Type e) (int (getTypeSize e)) (int (0 * getTypeSize e)) (length vs) = Ok vs"
    by (rule each_loop_values) (use assms(1) in simp)
  then show ?thesis using assms(2) by (simp add: forEachUnpack_def)
qed

lemma head_length_uniform:
  assumes "\<And>x. x \<in> set vs \<Longrightarrow> has_type e x" "wf_type e"
  shows "head_length (take j (map (\<lambda>x. (isDynamicType e, enc e x)) vs)) = min j (length vs) * getTypeSize e"
  using assms
proof (induction vs arbitrary: j)
  case (Cons x vs)
  then show ?case using part_size [of e x] by (cases j) (auto simp: getTypeSize_dynamic enc_static_length)
qed simp

lemma elems_unpack:
  assumes IH: "\<And>v i out. has_type e v \<Longrightarrow> located e v i out \<Longrightarrow> length out < 2 ^ 63 \<Longrightarrow> ToGoType e (int i) out = Ok v"
    and vs: "\<And>x. x \<in> set vs \<Longrightarrow> has_type e x" and wf: "wf_type e"
    and out: "out = enc_seq (map (\<lambda>x. (isDynamicType e, enc e x)) vs) @ rest" and len: "length out < 2 ^ 63"
  shows "forEachUnpack mk t e (ToGoType e) out 0 (int (length vs)) = Ok (mk (Type_Type t) vs)"
proof (rule forEachUnpack_values)
  let ?ps = "map (\<lambda>x. (isDynamicType e, enc e x)) vs"
  fix j
  assume j: "j < length vs"
  have h: "has_type e (vs ! j)" using vs j by simp
  have "located e (vs ! j) (head_length (take j ?ps)) out"
    by (rule located_nth [OF out len]) (use j h wf getTypeSize_ge enc_static_length in auto)
  then have "located e (vs ! j) (j * getTypeSize e) out" using head_length_uniform [OF vs wf, of vs j] j by simp
  then show "ToGoType e (int (j * getTypeSize e)) out = Ok (vs ! j) \<and> typeof (vs ! j) = Type_Type e"
    using IH h len has_type_typeof by blast
next
  have "head_length (map (\<lambda>x. (isDynamicType e, enc e x)) vs) = length vs * getTypeSize e"
    using head_length_uniform [OF vs wf, of vs "length vs"] by simp
  then have "length vs * getTypeSize e \<le> length out" by (simp add: out enc_seq_run)
  moreover have "length vs * 32 \<le> length vs * getTypeSize e" using getTypeSize_ge [OF wf] by simp
  ultimately show "32 * length vs \<le> length out" by linarith
qed

lemma position_step: "(i + va) * 32 = p \<Longrightarrow> (i + 1 + (va + virtual_args t)) * 32 = p + int (getTypeSize t)"
proof -
  assume p: "(i + va) * 32 = p"
  have "getTypeSize t div 32 * 32 = getTypeSize t"
    using div_mult_mod_eq [of "getTypeSize t" 32] getTypeSize_mod_32 [of t] by simp
  then have "int (getTypeSize t div 32) * 32 = int (getTypeSize t)" by (metis of_nat_mult of_nat_numeral)
  then show ?thesis using p virtual_args_eq [of t] by (simp add: algebra_simps)
qed

lemma tuple_loop_values:
  assumes "length gs = length fs" "(i + va) * 32 = p"
    and "\<And>j. j < length fs \<Longrightarrow>
      ToGoType (snd (fs ! j)) (p + int (sum_list (map (\<lambda>f. getTypeSize (snd f)) (take j fs)))) out = Ok (snd (snd (gs ! j))) \<and>
      typeof (snd (snd (gs ! j))) = Type_Type (snd (fs ! j)) \<and> fst (gs ! j) = ToCamelCase (fst (fs ! j)) \<and> fst (snd (gs ! j)) = None"
  shows "tuple_loop (map (\<lambda>f. (fst f, snd f, ToGoType (snd f))) fs) out i va = Ok gs"
  using assms
proof (induction fs arbitrary: gs i va p)
  case (Cons f fs)
  then obtain g hs where gs: "gs = g # hs" by (cases gs) auto
  have g: "ToGoType (snd f) ((i + va) * 32) out = Ok (snd (snd g))" "typeof (snd (snd g)) = Type_Type (snd f)"
    "g = (ToCamelCase (fst f), None, snd (snd g))"
    using Cons.prems(3) [of 0] gs Cons.prems(2) by (auto simp: prod_eq_iff)
  have "tuple_loop (map (\<lambda>f. (fst f, snd f, ToGoType (snd f))) fs) out (i + 1) (va + virtual_args (snd f)) = Ok hs"
  proof (rule Cons.IH)
    show "(i + 1 + (va + virtual_args (snd f))) * 32 = p + int (getTypeSize (snd f))"
      by (rule position_step) (rule Cons.prems(2))
  next
    fix j
    assume "j < length fs"
    then show "ToGoType (snd (fs ! j)) (p + int (getTypeSize (snd f)) + int (sum_list (map (\<lambda>f. getTypeSize (snd f)) (take j fs)))) out = Ok (snd (snd (hs ! j))) \<and>
      typeof (snd (snd (hs ! j))) = Type_Type (snd (fs ! j)) \<and> fst (hs ! j) = ToCamelCase (fst (fs ! j)) \<and> fst (snd (hs ! j)) = None"
      using Cons.prems(3) [of "Suc j"] gs by (simp add: add.assoc)
  qed (use Cons.prems gs in simp)
  then show ?case using g(1,2) by (subst gs, subst g(3)) simp
qed simp

lemma values_loop_values:
  assumes "length vs = length args" "(i + va) * 32 = p"
    and "\<And>j. j < length args \<Longrightarrow>
      ToGoType (arg_Type (args ! j)) (p + int (sum_list (map (\<lambda>a. getTypeSize (arg_Type a)) (take j args)))) data = Ok (vs ! j)"
  shows "values_loop args data i va = Ok vs"
  using assms
proof (induction args arbitrary: vs i va p)
  case (Cons a args)
  then obtain v ws where vs: "vs = v # ws" by (cases vs) auto
  have v: "ToGoType (arg_Type a) ((i + va) * 32) data = Ok v" using Cons.prems(3) [of 0] vs Cons.prems(2) by simp
  have "values_loop args data (i + 1) (va + virtual_args (arg_Type a)) = Ok ws"
  proof (rule Cons.IH)
    show "(i + 1 + (va + virtual_args (arg_Type a))) * 32 = p + int (getTypeSize (arg_Type a))"
      by (rule position_step) (rule Cons.prems(2))
  next
    fix j
    assume "j < length args"
    then show "ToGoType (arg_Type (args ! j)) (p + int (getTypeSize (arg_Type a)) + int (sum_list (map (\<lambda>a. getTypeSize (arg_Type a)) (take j args)))) data = Ok (ws ! j)"
      using Cons.prems(3) [of "Suc j"] vs by (simp add: add.assoc)
  qed (use Cons.prems vs in simp)
  then show ?case using v vs by simp
qed simp

lemma head_length_take_parts:
  assumes "length ps = length ts" "\<And>i. i < length ts \<Longrightarrow> (if fst (ps ! i) then 32 else length (snd (ps ! i))) = getTypeSize (ts ! i)"
  shows "head_length (take j ps) = sum_list (map getTypeSize (take j ts))"
proof -
  have "map (\<lambda>p. if fst p then 32 else length (snd p)) ps = map getTypeSize ts"
    using assms by (intro nth_equalityI) auto
  then show ?thesis by (simp only: head_length_def take_map [symmetric])
qed

lemma tuple_unpack:
  assumes IH: "\<And>f v i out. f \<in> set fs \<Longrightarrow> has_type (snd f) v \<Longrightarrow> wf_type (snd f) \<Longrightarrow> located (snd f) v i out \<Longrightarrow>
      length out < 2 ^ 63 \<Longrightarrow> ToGoType (snd f) (int i) out = Ok v"
    and ty: "has_type (TupleTy nm fs) (VStruct gs)" and wf: "wf_type (TupleTy nm fs)"
    and out: "out = enc (TupleTy nm fs) (VStruct gs) @ rest" and len: "length out < 2 ^ 63"
  shows "forTupleUnpack (map (\<lambda>f. (fst f, snd f, ToGoType (snd f))) fs) out = Ok (VStruct gs)"
proof -
  have out': "out = enc_seq (tuple_parts fs gs) @ rest" using out by (simp add: tuple_parts_def struct_fields_def)
  have lg: "length gs = length fs" and parts: "length (tuple_parts fs gs) = length fs"
    and el: "\<And>i. i < length fs \<Longrightarrow> has_type (snd (fs ! i)) (snd (snd (gs ! i))) \<and> wf_type (snd (fs ! i)) \<and>
      tuple_parts fs gs ! i = (isDynamicType (snd (fs ! i)), enc (snd (fs ! i)) (snd (snd (gs ! i))))"
    using tuple_has_type_nth [OF ty wf] by (metis goval.inject(7))+
  have pos: "head_length (take j (tuple_parts fs gs)) = sum_list (map (\<lambda>f. getTypeSize (snd f)) (take j fs))" for j
  proof -
    have "head_length (take j (tuple_parts fs gs)) = sum_list (map getTypeSize (take j (map snd fs)))"
      by (rule head_length_take_parts) (use parts el in \<open>auto simp: getTypeSize_dynamic enc_static_length\<close>)
    then show ?thesis by (simp add: take_map comp_def)
  qed
  have "tuple_loop (map (\<lambda>f. (fst f, snd f, ToGoType (snd f))) fs) out 0 0 = Ok gs"
  proof (rule tuple_loop_values [OF lg, of 0 0 0])
    fix j
    assume j: "j < length fs"
    have "located (snd (fs ! j)) (snd (snd (gs ! j))) (head_length (take j (tuple_parts fs gs))) out"
      by (rule located_nth [OF out' len]) (use el j parts getTypeSize_ge enc_static_length in auto)
    then have "ToGoType (snd (fs ! j)) (int (head_length (take j (tuple_parts fs gs)))) out = Ok (snd (snd (gs ! j)))"
      using IH [of "fs ! j"] el j len by simp
    moreover have "fst (gs ! j) = ToCamelCase (fst (fs ! j)) \<and> fst (snd (gs ! j)) = None"
    proof -
      have "map fst gs = map (\<lambda>f. ToCamelCase (fst f)) fs" "list_all (\<lambda>g. fst (snd g) = None) gs" using ty by simp_all
      then show ?thesis using j lg by (metis (mono_tags, lifting) list_all_length nth_map)
    qed
    ultimately show "ToGoType (snd (fs ! j)) (0 + int (sum_list (map (\<lambda>f. getTypeSize (snd f)) (take j fs)))) out = Ok (snd (snd (gs ! j))) \<and>
      typeof (snd (snd (gs ! j))) = Type_Type (snd (fs ! j)) \<and> fst (gs ! j) = ToCamelCase (fst (fs ! j)) \<and> fst (snd (gs ! j)) = None"
      using has_type_typeof el j unfolding pos by simp
  qed simp
  then show ?thesis by (simp add: forTupleUnpack_def)
qed

section \<open>Round trip\<close>

lemma located_static_word:
  assumes "located t v i out" "\<not> isDynamicType t" "length (enc t v) = 32"
  shows "word_at (int i) out = Ok (enc t v)"
  using assms word_at_located [of i out] by (auto simp: located_def)

lemma located_dynamic:
  assumes "located t v i out" "isDynamicType t"
  obtains k rest where "i + 32 \<le> length out" "be_val (take 32 (drop i out)) = k" "k \<le> length out" "drop k out = enc t v @ rest"
  using assms by (auto simp: located_def)

lemma last_sint_small:
  assumes "length w = 32" "be_val w = k" "k < 2 ^ 63"
  shows "last_sint 8 w = Ok (int k)"
proof -
  have split: "be_val w = be_val (take 24 w) * 256 ^ 8 + be_val (drop 24 w)"
    using be_val_append [of "take 24 w" "drop 24 w"] assms(1) by simp
  then have "be_val (take 24 w) * 256 ^ 8 \<le> k" using assms(2) by simp
  then have "be_val (take 24 w) = 0" using assms(3) by (cases "be_val (take 24 w)") auto
  then have "be_val (drop 24 w) = k" using split assms(2) by simp
  then show ?thesis using assms(1,3) by (simp add: last_sint_def last_uint_def)
qed

lemma be_val_zeros: "be_val (replicate n 0) = 0"
  by (induction n) simp_all

lemma BytesToAddress_pad: "length bs = 20 \<Longrightarrow> BytesToAddress (replicate 12 0 @ bs) = bs"
  by (simp add: BytesToAddress_def Address_SetBytes_def AddressLength_def)

lemma str_unpack:
  assumes "located t v i out" "isDynamicType t" "enc t v = enc_int (int (length s)) @ pad32 s" "length out < 2 ^ 63"
  obtains b where "prefix_at (int i) out = Ok (b, int (length s))" "slice_between b (b + int (length s)) out = Ok s"
proof -
  obtain k rest where k: "i + 32 \<le> length out" "be_val (take 32 (drop i out)) = k" "k \<le> length out"
    "drop k out = enc_int (int (length s)) @ pad32 s @ rest" using located_dynamic [OF assms(1,2)] assms(3) by (metis append.assoc)
  have "prefix_at (int i) out = Ok (int k + 32, int (length s))"
    by (rule prefix_at_located [OF k(1-4)]) (use assms(4) in \<open>simp_all add: pad32_def\<close>)
  moreover have "slice_between (int k + 32) (int k + 32 + int (length s)) out = Ok s"
  proof -
    have "drop (k + 32) out = drop 32 (drop k out)" by (simp add: add.commute)
    also have "\<dots> = s @ drop (length s) (pad32 s) @ rest" unfolding k(4) by (simp add: pad32_def)
    finally have d: "drop (k + 32) out = s @ drop (length s) (pad32 s) @ rest" .
    have "length (drop k out) = 32 + length (pad32 s) + length rest" unfolding k(4) by simp
    then have "k + 32 + length s \<le> length out" by (simp add: pad32_def)
    then show ?thesis using d by (simp add: nat_add_distrib)
  qed
  ultimately show thesis by (rule that)
qed

lemma ToGoType_located:
  "has_type t v \<Longrightarrow> wf_type t \<Longrightarrow> located t v i out \<Longrightarrow> length out < 2 ^ 63 \<Longrightarrow> ToGoType t (int i) out = Ok v"
proof (induction t arbitrary: v i out)
  case (IntTy n)
  then show ?case using located_static_word [OF IntTy.prems(3)] ReadInteger_enc [of False n v] by simp
next
  case (UintTy n)
  then show ?case using located_static_word [OF UintTy.prems(3)] ReadInteger_enc [of True n v] by simp
next
  case BoolTy
  then obtain b where "v = VBool b" by (cases v) auto
  then show ?case using located_static_word [OF BoolTy.prems(3)] readBool_enc [of b] by (cases b) auto
next
  case AddressTy
  then show ?case using located_static_word [OF AddressTy.prems(3)] BytesToAddress_pad by auto
next
  case (FixedBytesTy n)
  then obtain bs where v: "v = VArray (TArray n (TNum KUint8)) (byte_vals bs)" "length bs = n" by auto
  have n: "n \<le> 32" using FixedBytesTy.prems(2) by simp
  have "word_at (int i) out = Ok (bs @ replicate (32 - n) 0)"
    using located_static_word [OF FixedBytesTy.prems(3)] v n by simp
  moreover have "slice_between 0 (int n) (bs @ replicate (32 - n) 0) = Ok bs" using v(2) n by simp
  ultimately show ?case using v(1) by (simp only: ToGoType.simps bind_res.simps ReadFixedBytes_def)
next
  case FunctionTy
  then obtain bs where v: "v = VArray (TArray 24 (TNum KUint8)) (byte_vals bs)" "length bs = 24" by auto
  have "word_at (int i) out = Ok (bs @ replicate 8 0)" using located_static_word [OF FunctionTy.prems(3)] v by simp
  moreover have "readFunctionType (bs @ replicate 8 0) = Ok bs"
  proof -
    have "slice_between 24 32 (bs @ replicate 8 0) = Ok (replicate 8 0)" using v(2) by simp
    then show ?thesis using v(2) be_val_zeros [of 8] by (simp only: readFunctionType_def bind_res.simps) simp
  qed
  ultimately show ?case using v(1) by (simp only: ToGoType.simps bind_res.simps)
next
  case StringTy
  then obtain s where v: "v = VString s" by (cases v) auto
  obtain b where "prefix_at (int i) out = Ok (b, int (length s))" "slice_between b (b + int (length s)) out = Ok s"
    by (rule str_unpack [OF StringTy.prems(3) _ _ StringTy.prems(4)]) (simp_all add: v)
  then show ?case by (simp only: v ToGoType.simps bind_res.simps case_prod_conv)
next
  case BytesTy
  then obtain s where v: "v = VSlice (TSlice (TNum KUint8)) (byte_vals s)" by auto
  obtain b where "prefix_at (int i) out = Ok (b, int (length s))" "slice_between b (b + int (length s)) out = Ok s"
    by (rule str_unpack [OF BytesTy.prems(3) _ _ BytesTy.prems(4)]) (simp_all add: v)
  then show ?case by (simp only: v ToGoType.simps bind_res.simps case_prod_conv)
next
  case (SliceTy e)
  then obtain vs where v: "v = VSlice (TSlice (Type_Type e)) vs" "\<And>x. x \<in> set vs \<Longrightarrow> has_type e x"
    by (cases v) (auto simp: list_all_iff)
  let ?seq = "enc_seq (map (\<lambda>x. (isDynamicType e, enc e x)) vs)"
  obtain k rest where k: "i + 32 \<le> length out" "be_val (take 32 (drop i out)) = k" "k \<le> length out"
    "drop k out = enc_int (int (length vs)) @ ?seq @ rest" using located_dynamic [OF SliceTy.prems(3)] v(1) by auto
  have d: "drop (k + 32) out = ?seq @ rest"
    using arg_cong [OF k(4), of "drop 32"] by (simp add: add.commute)
  have wf: "wf_type e" using SliceTy.prems(2) by simp
  have "length vs * getTypeSize e \<le> length ?seq"
    using head_length_uniform [OF v(2) wf, of vs "length vs"] by (simp add: enc_seq_run)
  moreover have "length vs * 1 \<le> length vs * getTypeSize e" using getTypeSize_ge [OF wf] by (intro mult_le_mono) auto
  ultimately have n: "length vs \<le> length (?seq @ rest)" unfolding length_append by linarith
  have p: "prefix_at (int i) out = Ok (int k + 32, int (length vs))"
    by (rule prefix_at_located [OF k n SliceTy.prems(4)])
  have "length (drop k out) = 32 + length (?seq @ rest)" unfolding k(4) by simp
  then have s: "slice_from (int k + 32) out = Ok (?seq @ rest)" using d by (simp add: nat_add_distrib)
  have "length (?seq @ rest) < 2 ^ 63" using SliceTy.prems(4) d by (metis drop_eq_Nil length_drop less_imp_diff_less)
  then have "forEachUnpack VSlice (SliceTy e) e (ToGoType e) (?seq @ rest) 0 (int (length vs)) = Ok (VSlice (Type_Type (SliceTy e)) vs)"
    by (intro elems_unpack [OF _ v(2) wf]) (use SliceTy.IH wf in auto)
  then show ?case using p s v by (simp only: ToGoType.simps bind_res.simps case_prod_conv) simp
next
  case (ArrayTy n e)
  then obtain vs where v: "v = VArray (TArray n (Type_Type e)) vs" "\<And>x. x \<in> set vs \<Longrightarrow> has_type e x" "length vs = n"
    by (cases v) (auto simp: list_all_iff)
  let ?seq = "enc_seq (map (\<lambda>x. (isDynamicType e, enc e x)) vs)"
  have wf: "wf_type e" using ArrayTy.prems(2) by simp
  have i: "i + 32 \<le> length out" using ArrayTy.prems(3) by (simp add: located_def)
  obtain k rest where k: "k \<le> length out" "drop k out = ?seq @ rest"
    "(if isDynamicType e then last_sint 8 (take 32 (drop i out)) else Ok (int i)) = Ok (int k)"
  proof (cases "isDynamicType e")
    case True
    then have "isDynamicType (ArrayTy n e)" by simp
    from located_dynamic [OF ArrayTy.prems(3) this] obtain k rest where k: "be_val (take 32 (drop i out)) = k" "k \<le> length out"
      "drop k out = enc (ArrayTy n e) v @ rest" by blast
    have "enc (ArrayTy n e) v = ?seq" by (simp add: v(1))
    then have k3: "drop k out = ?seq @ rest" using k(3) by simp
    have "last_sint 8 (take 32 (drop i out)) = Ok (int k)"
      using k(1,2) i ArrayTy.prems(4) by (intro last_sint_small) auto
    then show thesis using that [OF k(2) k3] True by simp
  next
    case False
    then show thesis using that [of i] ArrayTy.prems(3) v(1) i by (auto simp: located_def)
  qed
  have "length (?seq @ rest) < 2 ^ 63" using ArrayTy.prems(4) k(2) by (metis length_drop less_imp_diff_less)
  then have "forEachUnpack VArray (ArrayTy n e) e (ToGoType e) (?seq @ rest) 0 (int (length vs)) = Ok (VArray (Type_Type (ArrayTy n e)) vs)"
    by (intro elems_unpack [OF _ v(2) wf]) (use ArrayTy.IH wf in auto)
  moreover have "slice_from (int k) out = Ok (?seq @ rest)" using k by simp
  ultimately show ?case using word_at_located [OF i] k(3) v by (simp only: ToGoType.simps bind_res.simps) simp
next
  case (TupleTy nm fs)
  then obtain gs where v: "v = VStruct gs" by (cases v) auto
  have i: "i + 32 \<le> length out" using TupleTy.prems(3) by (simp add: located_def)
  obtain k rest where k: "k \<le> length out" "drop k out = enc (TupleTy nm fs) v @ rest"
    "(if isDynamicType (TupleTy nm fs) then tuplePointsTo (int i) out else Ok (int i)) = Ok (int k)"
  proof (cases "isDynamicType (TupleTy nm fs)")
    case True
    from located_dynamic [OF TupleTy.prems(3) True] obtain k rest where k: "be_val (take 32 (drop i out)) = k" "k \<le> length out"
      "drop k out = enc (TupleTy nm fs) v @ rest" by blast
    have "\<not> BitLen (int k) > 63" using k(2) TupleTy.prems(4) by (intro BitLen_le_63) auto
    then have "tuplePointsTo (int i) out = Ok (int k)" using i k by (simp add: tuplePointsTo_def slice_between_def)
    then show thesis using that k True by auto
  next
    case False
    then show thesis using that [of i] TupleTy.prems(3) i by (auto simp: located_def)
  qed
  have "length (enc (TupleTy nm fs) v @ rest) < 2 ^ 63" using TupleTy.prems(4) k(2) by (metis length_drop less_imp_diff_less)
  then have "forTupleUnpack (map (\<lambda>f. (fst f, snd f, ToGoType (snd f))) fs) (enc (TupleTy nm fs) v @ rest) = Ok (VStruct gs)"
    using TupleTy.IH TupleTy.prems(1,2) v by (intro tuple_unpack) (auto simp: snds.simps)
  moreover have "slice_from (int k) out = Ok (enc (TupleTy nm fs) v @ rest)" using k by simp
  ultimately show ?case using word_at_located [OF i] k(3) v by (simp only: ToGoType.simps bind_res.simps)
qed

lemma values_loop_enc_args:
  assumes ok: "args_ok arguments args" and len: "length (enc_args arguments args @ rest) < 2 ^ 63"
  shows "values_loop arguments (enc_args arguments args @ rest) 0 0 = Ok args"
proof -
  have la: "length args = length arguments" using ok list_all2_lengthD unfolding args_ok_def by fastforce
  have el: "wf_type (arg_Type (arguments ! j)) \<and> has_type (arg_Type (arguments ! j)) (args ! j)" if "j < length arguments" for j
    using ok that unfolding args_ok_def list_all2_conv_all_nth by blast
  have parts: "args_parts arguments args ! j = (isDynamicType (arg_Type (arguments ! j)), enc (arg_Type (arguments ! j)) (args ! j))"
    if "j < length arguments" for j using that la by (simp add: args_parts_def)
  have pos: "head_length (take j (args_parts arguments args)) = sum_list (map (\<lambda>a. getTypeSize (arg_Type a)) (take j arguments))" for j
  proof -
    have "head_length (take j (args_parts arguments args)) = sum_list (map getTypeSize (take j (map arg_Type arguments)))"
      by (rule head_length_take_parts)
        (use la parts el in \<open>auto simp: getTypeSize_dynamic enc_static_length args_parts_def\<close>)
    then show ?thesis by (simp add: take_map comp_def)
  qed
  show ?thesis
  proof (rule values_loop_values [OF la, of 0 0 0])
    fix j
    assume j: "j < length arguments"
    have "located (arg_Type (arguments ! j)) (args ! j) (head_length (take j (args_parts arguments args))) (enc_args arguments args @ rest)"
      by (rule located_nth [OF _ len]) (use el parts j la getTypeSize_ge enc_static_length in \<open>auto simp: enc_args_def args_parts_def\<close>)
    then show "ToGoType (arg_Type (arguments ! j)) (0 + int (sum_list (map (\<lambda>a. getTypeSize (arg_Type a)) (take j arguments))))
      (enc_args arguments args @ rest) = Ok (args ! j)"
      using ToGoType_located el [OF j] len unfolding pos by simp
  qed simp
qed


lemma sample_length: "length (enc_args sample_args sample_vals) = 288"
  by (simp add: enc_args_def args_parts_def sample_args_def sample_vals_def enc_seq_run pad32_def struct_fields_def)




section \<open>Inputs that are not handled\<close>

definition arg_of :: "abi_type \<Rightarrow> Argument" where
  "arg_of t = \<lparr>arg_Name = ''x'', arg_Type = t, arg_Indexed = False\<rparr>"

definition pair_type :: abi_type where
  "pair_type = TupleTy '''' [(''a'', UintTy 256), (''b'', UintTy 256)]"

definition pair_val :: "int \<Rightarrow> int \<Rightarrow> goval" where
  "pair_val a b = VStruct [(''A'', None, VBig a), (''B'', None, VBig b)]"

definition pair_array :: "goval list \<Rightarrow> goval" where
  "pair_array vs = VArray (TArray 1 (Type_Type pair_type)) vs"

lemma pair_ok: "has_type pair_type (pair_val 1 0)" "wf_type pair_type" "full_slices pair_type (pair_val 1 0)"
  by (simp_all add: pair_type_def pair_val_def int_value_def reflectIntKindAndType_def sample_names struct_fields_def)

lemma enc_pair: "enc pair_type (pair_val a b) = enc_int a @ enc_int b"
  by (simp add: pair_type_def pair_val_def struct_fields_def enc_seq_run)

lemma enc_int_0: "enc_int 0 = replicate 32 0"
  by (simp add: enc_int_def del: be_fixed_numeral)

text \<open>The packed bytes: the offset of the string is 64, the string starts at 96.\<close>

definition pair_data :: bytes where
  "pair_data = enc_int 1 @ enc_int 0 @ enc_int 64 @ enc_int 1 @ pad32 [97]"

lemma pack_pair_array: "pack (ArrayTy 1 pair_type) (pair_array [pair_val 1 0]) = Ok (enc_int 1 @ enc_int 0)"
proof -
  have "pack_check (ArrayTy 1 pair_type) (pair_array [pair_val 1 0]) = Ok (pair_array [pair_val 1 0])"
    by (simp add: pack_check_def pair_array_def pair_type_def kind_def)
  moreover have "pack pair_type (pair_val 1 0) = Ok (enc_int 1 @ enc_int 0)"
    using pack_enc [OF pair_ok] enc_pair by simp
  moreover have "\<not> isDynamicType pair_type" by (simp add: pair_type_def)
  ultimately show ?thesis by (simp add: pair_array_def)
qed

lemma Pack_pair: "Arguments_Pack [arg_of (ArrayTy 1 pair_type), arg_of StringTy] [pair_array [pair_val 1 0], VString [97]] = Ok pair_data"
proof -
  have "pack StringTy (VString [97]) = Ok (enc_int 1 @ pad32 [97])" using pack_enc [of StringTy "VString [97]"] by simp
  moreover have "\<not> isDynamicType (ArrayTy 1 pair_type)" "getTypeSize (ArrayTy 1 pair_type) = 32" by (simp_all add: pair_type_def)
  ultimately show ?thesis using pack_pair_array by (simp add: Arguments_Pack_def arg_of_def pair_data_def del: pack.simps)
qed

lemma Unpack_pair: "UnpackValues [arg_of (ArrayTy 1 pair_type), arg_of StringTy] pair_data = Ok [pair_array [pair_val 1 0], VString [0]]"
proof -
  have len: "length pair_data = 160" by (simp add: pair_data_def pad32_def)
  have pair: "ToGoType pair_type 0 pair_data = Ok (pair_val 1 0)"
  proof -
    have "pair_data = enc pair_type (pair_val 1 0) @ enc_int 64 @ enc_int 1 @ pad32 [97]" by (simp add: pair_data_def enc_pair)
    moreover have "\<not> isDynamicType pair_type" by (simp add: pair_type_def)
    ultimately have "located pair_type (pair_val 1 0) 0 pair_data" using len by (auto simp: located_def)
    then show ?thesis using ToGoType_located [OF pair_ok(1,2), of 0 pair_data] len by simp
  qed
  have "typeof (pair_val 1 0) = Type_Type pair_type" using has_type_typeof [OF pair_ok(1)] by simp
  with pair have "forEachUnpack VArray (ArrayTy 1 pair_type) pair_type (ToGoType pair_type) pair_data 0 1 =
      Ok (pair_array [pair_val 1 0])"
    using forEachUnpack_values [of "[pair_val 1 0]" "ToGoType pair_type" pair_type pair_data] len by (simp add: pair_array_def)
  moreover have "\<not> isDynamicType pair_type" by (simp add: pair_type_def)
  ultimately have arr: "ToGoType (ArrayTy 1 pair_type) 0 pair_data = Ok (pair_array [pair_val 1 0])"
    using word_at_located [of 0 pair_data] len by simp
  have zero: "drop 32 pair_data = replicate 32 0 @ enc_int 64 @ enc_int 1 @ pad32 [97]" by (simp add: pair_data_def enc_int_0)
  have "be_val (take 32 (drop 32 pair_data)) = 0" unfolding zero by (simp add: be_val_zeros)
  then have "prefix_at (int 32) pair_data = Ok (int 0 + 32, int 1)"
    by (intro prefix_at_located [of _ _ _ _ "drop 32 pair_data"]) (simp_all add: len, simp add: pair_data_def)
  moreover have "slice_between 32 33 pair_data = Ok [0]" using len zero by simp
  ultimately have str: "ToGoType StringTy 32 pair_data = Ok (VString [0])" by simp
  have "virtual_args (ArrayTy 1 pair_type) = 0" by (simp add: virtual_args_def pair_type_def)
  then show ?thesis using arr str by (simp add: UnpackValues_def NonIndexed_def arg_of_def del: ToGoType.simps)
qed


end
