(* ===== verification/Secp_Curve.thy ===== *)
theory Secp_Curve
  imports Bn_Jacobian Common_Math
begin

text \<open>
  \<^verbatim>\<open>crypto/secp256k1/curve.go\<close>: the Koblitz curve secp256k1 with its arithmetic in Go.  The
  methods work on big integers, reduced at some points and not at others; their results are
  compared with the formulas of \<open>Bn_Jacobian\<close> in the ring of residues.  The multiplication by
  a scalar, which the C library computes, is a parameter.
\<close>

section \<open>The curve\<close>

record BitCurve =
  bc_P :: int
  bc_N :: int
  bc_B :: int
  bc_Gx :: int
  bc_Gy :: int
  bc_BitSize :: nat

definition theCurve :: BitCurve where
  "theCurve =
     \<lparr>bc_P = 0xFFFFFFFFFFFFFFFFFFFFFFFFFFFFFFFFFFFFFFFFFFFFFFFFFFFFFFFEFFFFFC2F,
      bc_N = 0xFFFFFFFFFFFFFFFFFFFFFFFFFFFFFFFEBAAEDCE6AF48A03BBFD25E8CD0364141,
      bc_B = 7,
      bc_Gx = 0x79BE667EF9DCBBAC55A06295CE870B07029BFCDB2DCE28D959F2815B16F81798,
      bc_Gy = 0x483ADA7726A3C4655DA4FBFC0E1108A8FD17B448A68554199C47D08FFB10D4B8,
      bc_BitSize = 256\<rparr>"

definition IsOnCurve :: "BitCurve \<Rightarrow> int \<Rightarrow> int \<Rightarrow> bool" where
  "IsOnCurve C x y =
     (let y2 = y * y;
          y2 = y2 mod bc_P C;
          x3 = x * x;
          x3 = x3 * x;
          x3 = x3 + bc_B C;
          x3 = x3 mod bc_P C
      in x3 = y2)"

text \<open>
  \<^verbatim>\<open>ModInverse\<close> returns nil for a \<open>z\<close> without an inverse, and the multiplication that follows
  panics: the value \<^const>\<open>None\<close>.
\<close>

definition affineFromJacobian :: "BitCurve \<Rightarrow> int \<times> int \<times> int \<Rightarrow> (int \<times> int) option" where
  "affineFromJacobian C = (\<lambda>(x, y, z).
     case ModInverse z (bc_P C) of
       None \<Rightarrow> None
     | Some zinv \<Rightarrow>
         (let zinvsq = zinv * zinv;
              xOut = x * zinvsq;
              xOut = xOut mod bc_P C;
              zinvsq = zinvsq * zinv;
              yOut = y * zinvsq;
              yOut = yOut mod bc_P C
          in Some (xOut, yOut)))"

definition addJacobian :: "BitCurve \<Rightarrow> int \<times> int \<times> int \<Rightarrow> int \<times> int \<times> int \<Rightarrow> int \<times> int \<times> int" where
  "addJacobian C = (\<lambda>(x1, y1, z1) (x2, y2, z2).
     (let z1z1 = z1 * z1;
          z1z1 = z1z1 mod bc_P C;
          z2z2 = z2 * z2;
          z2z2 = z2z2 mod bc_P C;
          u1 = x1 * z2z2;
          u1 = u1 mod bc_P C;
          u2 = x2 * z1z1;
          u2 = u2 mod bc_P C;
          h = u2 - u1;
          h = (if h < 0 then h + bc_P C else h);
          i = h * 2;
          i = i * i;
          j = h * i;
          s1 = y1 * z2;
          s1 = s1 * z2z2;
          s1 = s1 mod bc_P C;
          s2 = y2 * z1;
          s2 = s2 * z1z1;
          s2 = s2 mod bc_P C;
          r = s2 - s1;
          r = (if r < 0 then r + bc_P C else r);
          r = r * 2;
          v = u1 * i;
          x3 = r;
          x3 = x3 * x3;
          x3 = x3 - j;
          x3 = x3 - v;
          x3 = x3 - v;
          x3 = x3 mod bc_P C;
          y3 = r;
          v = v - x3;
          y3 = y3 * v;
          s1 = s1 * j;
          s1 = s1 * 2;
          y3 = y3 - s1;
          y3 = y3 mod bc_P C;
          z3 = z1 + z2;
          z3 = z3 * z3;
          z3 = z3 - z1z1;
          z3 = (if z3 < 0 then z3 + bc_P C else z3);
          z3 = z3 - z2z2;
          z3 = (if z3 < 0 then z3 + bc_P C else z3);
          z3 = z3 * h;
          z3 = z3 mod bc_P C
      in (x3, y3, z3)))"

definition Add :: "BitCurve \<Rightarrow> int \<Rightarrow> int \<Rightarrow> int \<Rightarrow> int \<Rightarrow> (int \<times> int) option" where
  "Add C ax ay bx by' = (let z = 1 in affineFromJacobian C (addJacobian C (ax, ay, z) (bx, by', z)))"

definition doubleJacobian :: "BitCurve \<Rightarrow> int \<times> int \<times> int \<Rightarrow> int \<times> int \<times> int" where
  "doubleJacobian C = (\<lambda>(x, y, z).
     (let a = x * x;
          b = y * y;
          c = b * b;
          d = x + b;
          d = d * d;
          d = d - a;
          d = d - c;
          d = d * 2;
          e = 3 * a;
          f = e * e;
          x3 = 2 * d;
          x3 = f - x3;
          x3 = x3 mod bc_P C;
          y3 = d - x3;
          y3 = e * y3;
          y3 = y3 - 8 * c;
          y3 = y3 mod bc_P C;
          z3 = y * z;
          z3 = 2 * z3;
          z3 = z3 mod bc_P C
      in (x3, y3, z3)))"

definition Double :: "BitCurve \<Rightarrow> int \<Rightarrow> int \<Rightarrow> (int \<times> int) option" where
  "Double C x1 y1 = (let z1 = 1 in affineFromJacobian C (doubleJacobian C (x1, y1, z1)))"

text \<open>\<^verbatim>\<open>readBits\<close> is the loop of \<^verbatim>\<open>math.ReadBits\<close>.\<close>

definition readBits :: "int \<Rightarrow> bytes \<Rightarrow> bytes" where
  "readBits bigint buf = ReadBits_loop (Bits bigint) (length buf) buf"

text \<open>
  The parameter \<open>scalar_mul\<close> is \<^verbatim>\<open>secp256k1_ext_scalar_mul\<close> of the C library: the point and the
  scalar in bytes give the product, or nothing.  The outer \<^const>\<open>None\<close> is the panic on a long
  scalar, the inner one the two nil pointers.
\<close>

definition ScalarMult ::
    "(bytes \<Rightarrow> bytes \<Rightarrow> bytes option) \<Rightarrow> BitCurve \<Rightarrow> int \<Rightarrow> int \<Rightarrow> bytes \<Rightarrow> (int \<times> int) option option" where
  "ScalarMult scalar_mul C Bx By scalar =
     (if length scalar > 32 then None
      else
        (let padded = replicate (32 - length scalar) 0 @ scalar;
             point = readBits Bx (replicate 32 0) @ readBits By (replicate 32 0)
         in case scalar_mul point padded of
              None \<Rightarrow> Some None
            | Some point \<Rightarrow> Some (Some (int (be_val (take 32 point)), int (be_val (drop 32 point))))))"

definition ScalarBaseMult ::
    "(bytes \<Rightarrow> bytes \<Rightarrow> bytes option) \<Rightarrow> BitCurve \<Rightarrow> bytes \<Rightarrow> (int \<times> int) option option" where
  "ScalarBaseMult scalar_mul C k = ScalarMult scalar_mul C (bc_Gx C) (bc_Gy C) k"

definition Curve_Marshal :: "BitCurve \<Rightarrow> int \<Rightarrow> int \<Rightarrow> bytes" where
  "Curve_Marshal C x y =
     (let byteLen = (bc_BitSize C + 7) div 8
      in 4 # readBits x (replicate byteLen 0) @ readBits y (replicate byteLen 0))"

definition Curve_Unmarshal :: "BitCurve \<Rightarrow> bytes \<Rightarrow> (int \<times> int) option" where
  "Curve_Unmarshal C data =
     (let byteLen = (bc_BitSize C + 7) div 8 in
      if length data \<noteq> 1 + 2 * byteLen then None
      else if data ! 0 \<noteq> 4 then None
      else Some (int (be_val (take byteLen (drop 1 data))), int (be_val (drop (1 + byteLen) data))))"

section \<open>Residues\<close>

abbreviation Psecp :: int where
  "Psecp \<equiv> bc_P theCurve"

lemma Psecp_pos [simp]: "0 < Psecp" "Psecp \<noteq> 0" "1 mod Psecp = 1" "0 \<le> Psecp"
  by (simp_all add: theCurve_def)

typedef fs = "{0..<Psecp}"
  by (rule exI [of _ 0]) simp

definition fs_of_int :: "int \<Rightarrow> fs" where
  "fs_of_int n = Abs_fs (n mod Psecp)"

lemma Rep_fs_of_int [simp]: "Rep_fs (fs_of_int n) = n mod Psecp"
  by (simp add: fs_of_int_def Abs_fs_inverse)

lemma fs_of_int_Rep [simp]: "fs_of_int (Rep_fs a) = a"
  using Rep_fs [of a] by (simp add: fs_of_int_def Rep_fs_inverse)

lemma fs_of_int_eq: "fs_of_int m = fs_of_int n \<longleftrightarrow> m mod Psecp = n mod Psecp"
  by (metis Rep_fs_of_int fs_of_int_def)

lemma fs_of_int_mod [simp]: "fs_of_int (n mod Psecp) = fs_of_int n"
  by (simp add: fs_of_int_eq)

lemma fs_cases: obtains n where "a = fs_of_int n"
  by (metis fs_of_int_Rep)

instantiation fs :: comm_ring_1
begin

definition "0 = fs_of_int 0"
definition "1 = fs_of_int 1"
definition "a + b = fs_of_int (Rep_fs a + Rep_fs b)"
definition "a - b = fs_of_int (Rep_fs a - Rep_fs b)"
definition "- a = fs_of_int (- Rep_fs a)"
definition "a * b = fs_of_int (Rep_fs a * Rep_fs b)"

instance
proof
  fix a b c :: fs
  obtain x y z where xyz: "a = fs_of_int x" "b = fs_of_int y" "c = fs_of_int z"
    by (metis fs_of_int_Rep)
  have hom: "fs_of_int m + fs_of_int n = fs_of_int (m + n)" "fs_of_int m * fs_of_int n = fs_of_int (m * n)"
    "fs_of_int m - fs_of_int n = fs_of_int (m - n)" "- fs_of_int m = fs_of_int (- m)"
    "0 = fs_of_int 0" "1 = fs_of_int 1" for m n
    by (simp_all add: plus_fs_def minus_fs_def times_fs_def uminus_fs_def zero_fs_def one_fs_def
        fs_of_int_eq mod_simps)
  show "a * b * c = a * (b * c)" "a * b = b * a" "1 * a = a" "a + b + c = a + (b + c)" "a + b = b + a"
    "0 + a = a" "- a + a = 0" "a - b = a + - b" "(a + b) * c = a * c + b * c"
    unfolding xyz hom by (simp_all add: algebra_simps)
  show "(0 :: fs) \<noteq> 1" by (simp add: zero_fs_def one_fs_def fs_of_int_eq)
qed

end

lemma fs_of_int_hom [simp]:
  "fs_of_int (m + n) = fs_of_int m + fs_of_int n" "fs_of_int (m - n) = fs_of_int m - fs_of_int n"
  "fs_of_int (- m) = - fs_of_int m" "fs_of_int (m * n) = fs_of_int m * fs_of_int n"
  "fs_of_int 0 = 0" "fs_of_int 1 = 1"
  by (simp_all add: plus_fs_def minus_fs_def uminus_fs_def times_fs_def zero_fs_def one_fs_def
      fs_of_int_eq mod_simps)

lemma fs_of_int_numeral [simp]: "fs_of_int (numeral k) = numeral k"
  by (induction k) (simp_all only: numeral.simps fs_of_int_hom)

lemma fs_of_int_Psecp [simp]: "fs_of_int Psecp = 0"
  using fs_of_int_mod [of Psecp] by simp

lemma fs_of_int_fix_neg [simp]: "fs_of_int (if b then n + Psecp else n) = fs_of_int n"
  by simp

lemma fs_two_unit: "(2 :: fs) dvd 1"
proof -
  have "fs_of_int (2 * ((Psecp + 1) div 2)) = fs_of_int 1"
    unfolding fs_of_int_eq by (simp add: theCurve_def)
  then have "2 * fs_of_int ((Psecp + 1) div 2) = 1" by (simp del: fs_of_int_eq)
  then show ?thesis by (metis dvd_triv_left)
qed

lemma fs_unit_coprime: "fs_of_int n dvd 1 \<longleftrightarrow> coprime n Psecp"
proof
  assume "fs_of_int n dvd 1"
  then obtain m where "fs_of_int (m * n) = fs_of_int 1"
    by (metis dvdE fs_cases fs_of_int_hom(4,6) mult.commute)
  then have "m * n mod Psecp = 1 mod Psecp" by (simp only: fs_of_int_eq)
  then show "coprime n Psecp"
    by (metis Psecp_pos(2) coprime_1_left coprime_mod_left_iff coprime_mult_left_iff)
next
  assume "coprime n Psecp"
  then obtain v where v: "ModInverse n Psecp = Some v"
    using ModInverse_coprime Psecp_pos(1) by blast
  have "fs_of_int (v * n) = fs_of_int 1"
    using ModInverse_Some(1) [OF v] by (simp only: fs_of_int_eq Psecp_pos)
  then have "fs_of_int v * fs_of_int n = 1" by simp
  then show "fs_of_int n dvd 1" by (metis dvd_triv_right)
qed

lemma ModInverse_None_iff: "ModInverse n Psecp = None \<longleftrightarrow> \<not> coprime n Psecp"
proof -
  have "coprime n Psecp" if v: "ModInverse n Psecp = Some v" for v
    using ModInverse_Some(1) [OF v Psecp_pos(1)]
    by (metis Psecp_pos(2) coprime_1_left coprime_mod_left_iff coprime_mult_left_iff)
  then show ?thesis using ModInverse_coprime [OF Psecp_pos(1), of n] by (cases "ModInverse n Psecp") auto
qed

section \<open>The formulas\<close>

lemma addJacobian_coords:
  assumes "addJacobian theCurve (x1, y1, z1) (x, y, z) = (x3, y3, z3)"
  shows "fs_of_int x3 = addX (fs_of_int x1 * fs_of_int z ^ 2) (fs_of_int y1 * fs_of_int z ^ 3)
             (fs_of_int x * fs_of_int z1 ^ 2) (fs_of_int y * fs_of_int z1 ^ 3)"
    and "fs_of_int y3 = addY (fs_of_int x1 * fs_of_int z ^ 2) (fs_of_int y1 * fs_of_int z ^ 3)
             (fs_of_int x * fs_of_int z1 ^ 2) (fs_of_int y * fs_of_int z1 ^ 3)"
    and "fs_of_int z3 = 2 * (fs_of_int z1 * fs_of_int z) *
             (fs_of_int x * fs_of_int z1 ^ 2 - fs_of_int x1 * fs_of_int z ^ 2)"
proof -
  note e = assms [unfolded addJacobian_def Let_def prod.case prod.inject]
  have x3: "fs_of_int x3 = addX (fs_of_int x1 * fs_of_int z ^ 2) (fs_of_int y1 * fs_of_int z ^ 3)
             (fs_of_int x * fs_of_int z1 ^ 2) (fs_of_int y * fs_of_int z1 ^ 3)"
    unfolding addX_def e [THEN conjunct1, symmetric]
    by (simp only: fs_of_int_mod fs_of_int_hom fs_of_int_numeral fs_of_int_fix_neg)
      (simp add: eval_nat_numeral algebra_simps)
  show "fs_of_int x3 = addX (fs_of_int x1 * fs_of_int z ^ 2) (fs_of_int y1 * fs_of_int z ^ 3)
             (fs_of_int x * fs_of_int z1 ^ 2) (fs_of_int y * fs_of_int z1 ^ 3)" by (fact x3)
  show "fs_of_int y3 = addY (fs_of_int x1 * fs_of_int z ^ 2) (fs_of_int y1 * fs_of_int z ^ 3)
             (fs_of_int x * fs_of_int z1 ^ 2) (fs_of_int y * fs_of_int z1 ^ 3)"
    unfolding addY_def x3 [symmetric] unfolding e [THEN conjunct2, THEN conjunct1, symmetric] e [THEN conjunct1]
    by (simp only: fs_of_int_mod fs_of_int_hom fs_of_int_numeral fs_of_int_fix_neg)
      (simp add: eval_nat_numeral algebra_simps)
  show "fs_of_int z3 = 2 * (fs_of_int z1 * fs_of_int z) *
             (fs_of_int x * fs_of_int z1 ^ 2 - fs_of_int x1 * fs_of_int z ^ 2)"
    unfolding e [THEN conjunct2, THEN conjunct2, symmetric]
    by (simp only: fs_of_int_mod fs_of_int_hom fs_of_int_numeral fs_of_int_fix_neg)
      (simp add: eval_nat_numeral algebra_simps)
qed

lemma doubleJacobian_coords:
  assumes "doubleJacobian theCurve (x, y, z) = (x3, y3, z3)"
  shows "fs_of_int x3 = dblX (fs_of_int x) (fs_of_int y)"
    and "fs_of_int y3 = dblY (fs_of_int x) (fs_of_int y)"
    and "fs_of_int z3 = 2 * fs_of_int y * fs_of_int z"
proof -
  note e = assms [unfolded doubleJacobian_def Let_def prod.case prod.inject]
  have x3: "fs_of_int x3 = dblX (fs_of_int x) (fs_of_int y)"
    unfolding dblX_def e [THEN conjunct1, symmetric]
    by (simp only: fs_of_int_mod fs_of_int_hom fs_of_int_numeral) (simp add: eval_nat_numeral algebra_simps)
  show "fs_of_int x3 = dblX (fs_of_int x) (fs_of_int y)" by (fact x3)
  show "fs_of_int y3 = dblY (fs_of_int x) (fs_of_int y)"
    unfolding dblY_def x3 [symmetric] unfolding e [THEN conjunct2, THEN conjunct1, symmetric] e [THEN conjunct1]
    by (simp only: fs_of_int_mod fs_of_int_hom fs_of_int_numeral) (simp add: eval_nat_numeral algebra_simps)
  show "fs_of_int z3 = 2 * fs_of_int y * fs_of_int z"
    unfolding e [THEN conjunct2, THEN conjunct2, symmetric]
    by (simp only: fs_of_int_mod fs_of_int_hom fs_of_int_numeral) (simp add: mult_ac)
qed

section \<open>The group law\<close>

lemma affine_unique:
  fixes Z :: "'a :: comm_ring_1"
  assumes "affine X Y Z p" "affine X Y Z q"
  shows "p = q"
proof -
  obtain w where w: "Z * w = 1" using assms(1) by (metis affine_def dvdE)
  have "fst p * Z ^ 2 * w ^ 2 = fst q * Z ^ 2 * w ^ 2" "snd p * Z ^ 3 * w ^ 3 = snd q * Z ^ 3 * w ^ 3"
    using assms by (simp_all add: affine_def)
  then show ?thesis using w by (simp add: mult.assoc prod_eq_iff flip: power_mult_distrib)
qed

lemma affineFromJacobian_Some:
  assumes "affineFromJacobian theCurve (x, y, z) = Some (a, b)"
  shows "affine (fs_of_int x) (fs_of_int y) (fs_of_int z) (fs_of_int a, fs_of_int b)"
    and "a mod Psecp = a" "b mod Psecp = b"
proof -
  obtain v where v: "ModInverse z Psecp = Some v" and ab: "a = x * (v * v) mod Psecp" "b = y * (v * v * v) mod Psecp"
    using assms by (auto simp: affineFromJacobian_def Let_def split: option.splits)
  have "fs_of_int (v * z) = fs_of_int 1"
    using ModInverse_Some(1) [OF v Psecp_pos(1)] by (simp only: fs_of_int_eq)
  then have "fs_of_int v * fs_of_int z = 1" by simp
  from affine_inverse [OF this, of "fs_of_int x" "fs_of_int y"]
  show "affine (fs_of_int x) (fs_of_int y) (fs_of_int z) (fs_of_int a, fs_of_int b)"
    by (simp add: ab eval_nat_numeral mult.assoc)
  show "a mod Psecp = a" "b mod Psecp = b" by (simp_all add: ab)
qed

lemma affineFromJacobian_None: "affineFromJacobian theCurve (x, y, z) = None \<longleftrightarrow> \<not> fs_of_int z dvd 1"
  by (simp add: fs_unit_coprime affineFromJacobian_def Let_def flip: ModInverse_None_iff split: option.split)

lemma affineFromJacobian_affine:
  assumes "affine (fs_of_int x) (fs_of_int y) (fs_of_int z) (fs_of_int a, fs_of_int b)"
  shows "affineFromJacobian theCurve (x, y, z) = Some (a mod Psecp, b mod Psecp)"
proof (cases "affineFromJacobian theCurve (x, y, z)")
  case None
  then show ?thesis using assms affineFromJacobian_None by (simp add: affine_def)
next
  case (Some ab)
  then obtain c d where cd: "affineFromJacobian theCurve (x, y, z) = Some (c, d)" by (cases ab) simp
  note s = affineFromJacobian_Some [OF cd]
  have "fs_of_int c = fs_of_int a" "fs_of_int d = fs_of_int b" using affine_unique [OF s(1) assms] by simp_all
  then show ?thesis using cd s(2,3) by (simp add: fs_of_int_eq)
qed

lemma IsOnCurve_fs: "IsOnCurve theCurve x y \<longleftrightarrow> on_jacobian 7 (fs_of_int x) (fs_of_int y) 1"
proof -
  have "IsOnCurve theCurve x y \<longleftrightarrow> fs_of_int (x * x * x + 7) = fs_of_int (y * y)"
    by (simp only: fs_of_int_eq) (simp add: IsOnCurve_def theCurve_def)
  then show ?thesis by (auto simp: on_jacobian_def eval_nat_numeral mult.assoc)
qed

lemma secp_Add_None: "ax mod Psecp = bx mod Psecp \<Longrightarrow> Add theCurve ax ay bx by' = None"
  using addJacobian_coords(3) [of ax ay 1 bx by' 1]
  by (cases "addJacobian theCurve (ax, ay, 1) (bx, by', 1)")
    (auto simp: Add_def affineFromJacobian_None simp flip: fs_of_int_eq)

lemma fs_affine_one: "affine (fs_of_int x) (fs_of_int y) (fs_of_int 1) (fs_of_int x, fs_of_int y)"
  by (simp add: affine_def)

lemma fs_line_sum:
  "line_sum (fs_of_int l) (fs_of_int ax, fs_of_int ay) (fs_of_int bx, fs_of_int by') =
     (fs_of_int (l ^ 2 - ax - bx), fs_of_int (l * (ax - (l ^ 2 - ax - bx)) - ay))"
  by (simp add: line_sum_def Let_def eval_nat_numeral)

lemma secp_Add_chord:
  assumes "coprime (bx - ax) Psecp" "l * (bx - ax) mod Psecp = (by' - ay) mod Psecp"
  shows "Add theCurve ax ay bx by' =
    Some ((l ^ 2 - ax - bx) mod Psecp, (l * (ax - (l ^ 2 - ax - bx)) - ay) mod Psecp)"
proof -
  have "fs_of_int (l * (bx - ax)) = fs_of_int (by' - ay)" using assms(2) by (simp only: fs_of_int_eq)
  moreover have "fs_of_int (bx - ax) dvd 1" using assms(1) by (simp only: fs_unit_coprime)
  ultimately have ch: "chord (fs_of_int l) (fs_of_int ax, fs_of_int ay) (fs_of_int bx, fs_of_int by')"
    by (simp add: chord_def)
  obtain x3 y3 z3 where a: "addJacobian theCurve (ax, ay, 1) (bx, by', 1) = (x3, y3, z3)"
    by (cases "addJacobian theCurve (ax, ay, 1) (bx, by', 1)")
  show ?thesis
    using add_affine [OF fs_affine_one fs_affine_one ch fs_two_unit] unfolding fs_line_sum
    by (simp only: addJacobian_coords [OF a, symmetric] Add_def Let_def a affineFromJacobian_affine)
qed

lemma secp_Double_tangent:
  assumes "coprime y Psecp" "l * (2 * y) mod Psecp = 3 * x ^ 2 mod Psecp"
  shows "Double theCurve x y = Some ((l ^ 2 - x - x) mod Psecp, (l * (x - (l ^ 2 - x - x)) - y) mod Psecp)"
proof -
  have "fs_of_int (l * (2 * y)) = fs_of_int (3 * x ^ 2)" using assms(2) by (simp only: fs_of_int_eq)
  moreover have "fs_of_int y dvd 1" using assms(1) by (simp only: fs_unit_coprime)
  ultimately have tg: "tangent (fs_of_int l) (fs_of_int x, fs_of_int y)"
    by (simp add: tangent_def eval_nat_numeral)
  obtain x3 y3 z3 where a: "doubleJacobian theCurve (x, y, 1) = (x3, y3, z3)"
    by (cases "doubleJacobian theCurve (x, y, 1)")
  show ?thesis
    using dbl_affine [OF fs_affine_one tg fs_two_unit] unfolding fs_line_sum
    by (simp only: doubleJacobian_coords [OF a, symmetric] Double_def Let_def a affineFromJacobian_affine)
qed

lemma secp_Add_on_curve:
  assumes "Add theCurve ax ay bx by' = Some (x, y)" "IsOnCurve theCurve ax ay" "IsOnCurve theCurve bx by'"
  shows "IsOnCurve theCurve x y"
proof -
  obtain x3 y3 z3 where a: "addJacobian theCurve (ax, ay, 1) (bx, by', 1) = (x3, y3, z3)"
    by (cases "addJacobian theCurve (ax, ay, 1) (bx, by', 1)")
  then have af: "affine (fs_of_int x3) (fs_of_int y3) (fs_of_int z3) (fs_of_int x, fs_of_int y)"
    using assms(1) affineFromJacobian_Some(1) by (simp add: Add_def)
  have "on_jacobian 7 (fs_of_int x3) (fs_of_int y3) (fs_of_int z3)"
    using add_on_curve [of "fs_of_int ay" "fs_of_int ax" 7 1 "fs_of_int by'" "fs_of_int bx"] assms(2,3)
    unfolding addJacobian_coords [OF a] IsOnCurve_fs on_jacobian_def by simp
  from affine_on_jacobian [OF af this] show ?thesis by (simp add: IsOnCurve_fs on_jacobian_def)
qed

lemma secp_Double_on_curve:
  assumes "Double theCurve ax ay = Some (x, y)" "IsOnCurve theCurve ax ay"
  shows "IsOnCurve theCurve x y"
proof -
  obtain x3 y3 z3 where a: "doubleJacobian theCurve (ax, ay, 1) = (x3, y3, z3)"
    by (cases "doubleJacobian theCurve (ax, ay, 1)")
  then have af: "affine (fs_of_int x3) (fs_of_int y3) (fs_of_int z3) (fs_of_int x, fs_of_int y)"
    using assms(1) affineFromJacobian_Some(1) by (simp add: Double_def)
  have "on_jacobian 7 (fs_of_int x3) (fs_of_int y3) (fs_of_int z3)"
    using dbl_on_curve [of "fs_of_int ay" "fs_of_int ax" 7 1] assms(2)
    unfolding doubleJacobian_coords [OF a] IsOnCurve_fs on_jacobian_def by simp
  from affine_on_jacobian [OF af this] show ?thesis by (simp add: IsOnCurve_fs on_jacobian_def)
qed

text \<open>
  C15: \<^verbatim>\<open>Add\<close> follows the chord rule and \<^verbatim>\<open>Double\<close> the tangent rule, with reduced coordinates as
  the result: \<open>l\<close> is the slope.  Sums and doubles of points of the curve are on the curve.  But
  \<^verbatim>\<open>Add\<close> has no case for operands with the same \<open>x\<close>: adding a point to itself panics, instead
  of doubling it.
\<close>

theorem secp256k1_group_law:
  "(coprime (bx - ax) Psecp \<and> l * (bx - ax) mod Psecp = (by' - ay) mod Psecp \<longrightarrow>
      Add theCurve ax ay bx by' =
        Some ((l ^ 2 - ax - bx) mod Psecp, (l * (ax - (l ^ 2 - ax - bx)) - ay) mod Psecp)) \<and>
   (coprime ay Psecp \<and> l * (2 * ay) mod Psecp = 3 * ax ^ 2 mod Psecp \<longrightarrow>
      Double theCurve ax ay =
        Some ((l ^ 2 - ax - ax) mod Psecp, (l * (ax - (l ^ 2 - ax - ax)) - ay) mod Psecp)) \<and>
   (IsOnCurve theCurve ax ay \<and> IsOnCurve theCurve bx by' \<longrightarrow>
      (\<forall>x y. Add theCurve ax ay bx by' = Some (x, y) \<or> Double theCurve ax ay = Some (x, y) \<longrightarrow>
         IsOnCurve theCurve x y)) \<and>
   Add theCurve ax ay ax ay = None"
  using secp_Add_chord [of bx ax l by' ay] secp_Double_tangent [of ay l ax] secp_Add_on_curve [of ax ay bx by']
    secp_Double_on_curve [of ax ay] secp_Add_None [of ax ax ay ay] by blast

text \<open>
  The witness: a point with \<open>x = 1\<close>, and the point with the same \<open>y\<close> whose \<open>x\<close> is a cube root of
  one. The quotients make the residues quick to check.
\<close>

lemma mod_Psecp:
  assumes "a + q * 0x1000003D1 = q * 2 ^ 256 + r" "0 \<le> r" "r < Psecp"
  shows "a mod Psecp = r"
proof -
  have "2 ^ 256 = Psecp + 0x1000003D1" by (simp add: theCurve_def)
  then have "a = q * Psecp + r" using assms(1) by (simp only: distrib_left)
  then show ?thesis using assms(2,3) by simp
qed

lemma coprime_by_inverse: "v * n mod Psecp = 1 \<Longrightarrow> coprime n Psecp"
  by (metis Psecp_pos(2) coprime_1_left coprime_mod_left_iff coprime_mult_left_iff)

abbreviation "y_one \<equiv> 0x4218F20AE6C646B363DB68605822FB14264CA8D2587FDD6FBC750D587E76A7EE :: int"
abbreviation "x_root \<equiv> 0x7AE96A2B657C07106E64479EAC3434E99CF0497512F58995C1396C28719501EE :: int"

lemma three_coprime: "coprime 3 Psecp"
proof (rule coprime_by_inverse)
  show "0xAAAAAAAAAAAAAAAAAAAAAAAAAAAAAAAAAAAAAAAAAAAAAAAAAAAAAAA9FFFFFD75 * 3 mod Psecp = 1"
    by (rule mod_Psecp [of _ "0x2"]) (simp_all add: theCurve_def)
qed

lemma cube_root:
  assumes "(x * x + x + 1) mod Psecp = 0"
  shows "coprime (x - 1) Psecp" and "fs_of_int x ^ 3 = 1"
proof -
  have "fs_of_int (x * x + x + 1) = fs_of_int 0" using assms by (simp only: fs_of_int_eq mod_0)
  then have "fs_of_int x * fs_of_int x + (fs_of_int x + 1) = 0" by (simp add: add.assoc)
  then have r: "fs_of_int x * fs_of_int x = - fs_of_int x - 1" by (simp add: eq_neg_iff_add_eq_0 [symmetric])
  have "fs_of_int (x - 1) * (fs_of_int x + 2) = fs_of_int x * fs_of_int x + fs_of_int x - 2"
    by (simp add: algebra_simps)
  also have "\<dots> = - fs_of_int 3" unfolding r by simp
  finally have "fs_of_int (x - 1) dvd - fs_of_int 3" by (metis dvd_triv_left)
  moreover have "- fs_of_int 3 dvd 1" using three_coprime fs_unit_coprime [of 3] by simp
  ultimately show "coprime (x - 1) Psecp" using dvd_trans fs_unit_coprime by blast
  have "fs_of_int x ^ 3 = fs_of_int x * (fs_of_int x * fs_of_int x)" by (simp only: power3_eq_cube mult.assoc)
  also have "\<dots> = - (fs_of_int x * fs_of_int x) - fs_of_int x" unfolding r by (simp add: algebra_simps r)
  also have "\<dots> = 1" unfolding r by simp
  finally show "fs_of_int x ^ 3 = 1" .
qed

lemma on_curve_8:
  assumes "y * y mod Psecp = 8" "fs_of_int x ^ 3 = 1"
  shows "IsOnCurve theCurve x y"
proof -
  have "fs_of_int (y * y) = fs_of_int 8" using fs_of_int_mod [of "y * y"] assms(1) by simp
  then show ?thesis using assms(2) by (simp add: IsOnCurve_fs on_jacobian_def power2_eq_square)
qed

lemma x_root: "(x_root * x_root + x_root + 1) mod Psecp = 0"
  by (rule mod_Psecp [of _ "0x3B034E03CBC0E9E67ADF9B678B2EA8201DD5EA436049FDC542A0960DD5579C3D"]) (simp_all add: theCurve_def)

lemma y_one: "y_one * y_one mod Psecp = 8"
  by (rule mod_Psecp [of _ "0x1110DF3BE5E21E6776516A5FA6702D71D937B2614804CCE0315F9575458FF784"]) (simp_all add: theCurve_def)

theorem secp256k1_group_law_witness:
  "IsOnCurve theCurve 1 y_one \<and> IsOnCurve theCurve x_root y_one \<and>
   Add theCurve 1 y_one x_root y_one = Some ((- 1 - x_root) mod Psecp, - y_one mod Psecp) \<and>
   IsOnCurve theCurve ((- 1 - x_root) mod Psecp) (- y_one mod Psecp) \<and>
   Double theCurve 2 3 = Some (0, 1) \<and> Add theCurve 1 y_one 1 y_one = None"
proof -
  have on: "IsOnCurve theCurve 1 y_one" "IsOnCurve theCurve x_root y_one"
    by (rule on_curve_8 [OF y_one], simp) (rule on_curve_8 [OF y_one cube_root(2) [OF x_root]])
  note law = secp256k1_group_law [of x_root 1 0 y_one y_one] secp256k1_group_law [of 2 2 2 3 3]
  have a: "Add theCurve 1 y_one x_root y_one = Some ((- 1 - x_root) mod Psecp, - y_one mod Psecp)"
    using law(1) [THEN conjunct1, THEN mp, OF conjI [OF cube_root(1) [OF x_root]]] by simp
  have d: "Double theCurve 2 3 = Some (0, 1)"
    using law(2) [THEN conjunct2, THEN conjunct1, THEN mp, OF conjI [OF three_coprime]] by simp
  have "IsOnCurve theCurve ((- 1 - x_root) mod Psecp) (- y_one mod Psecp)"
    by (rule law(1) [THEN conjunct2, THEN conjunct2, THEN conjunct1, THEN mp, rule_format, OF conjI [OF on]])
      (rule disjI1 [OF a])
  then show ?thesis using a d on law(1) [THEN conjunct2, THEN conjunct2, THEN conjunct2] by (intro conjI)
qed

lemma ReadBits_zeros:
  assumes "nat \<bar>x\<bar> < 256 ^ k"
  shows "ReadBits x (replicate k 0) = be_fixed k (nat \<bar>x\<bar>)"
proof -
  define m where "m = min k (8 * length (Bits x))"
  have "nat \<bar>x\<bar> div 256 ^ m = 0"
    using assms words_of_less [of "nat \<bar>x\<bar>"] by (auto simp: m_def min_def Bits_def)
  then have "be_fixed (k - m + m) (nat \<bar>x\<bar>) = replicate (k - m) 0 @ be_fixed m (nat \<bar>x\<bar>)"
    by (simp only: be_fixed_add be_fixed_zero)
  moreover have "k - m + m = k" "k - m = k - 8 * length (Bits x)" by (simp_all add: m_def)
  ultimately show ?thesis by (simp add: ReadBits_eq m_def)
qed

lemma readBits_32:
  assumes "0 \<le> n" "n < 2 ^ 256"
  shows "readBits n (replicate 32 0) = be_fixed 32 (nat n)"
proof -
  have "n < 256 ^ 32" using assms(2) by simp
  then have "nat \<bar>n\<bar> < 256 ^ 32" using assms(1) by (simp only: nat_less_iff) simp
  then show ?thesis using assms(1) ReadBits_zeros [of n 32]
    by (simp add: readBits_def ReadBits_def del: be_fixed_numeral)
qed

lemma be_val_be_fixed_32:
  assumes "0 \<le> n" "n < 2 ^ 256"
  shows "int (be_val (be_fixed 32 (nat n))) = n"
  using assms by (simp add: zmod_int del: be_fixed_numeral)

lemma length_readBits [simp]: "length (readBits x buf) = length buf"
  by (simp add: readBits_def ReadBits_def [symmetric] ReadBits_eq)

lemma length_Curve_Marshal: "length (Curve_Marshal theCurve x y) = 65"
  by (simp add: Curve_Marshal_def theCurve_def)

lemma Curve_Unmarshal_Marshal:
  assumes "0 \<le> x" "x < 2 ^ 256" "0 \<le> y" "y < 2 ^ 256"
  shows "Curve_Unmarshal theCurve (Curve_Marshal theCurve x y) = Some (x, y)"
proof -
  have m: "Curve_Marshal theCurve x y = 4 # be_fixed 32 (nat x) @ be_fixed 32 (nat y)"
    using assms by (simp add: Curve_Marshal_def theCurve_def readBits_32 del: be_fixed_numeral)
  show ?thesis using assms unfolding m
    by (simp add: Curve_Unmarshal_def theCurve_def be_val_be_fixed_32 del: be_fixed_numeral be_val_be_fixed)
qed

end
