(* ===== verification/Crypto.thy ===== *)
theory Crypto
  imports Secp_Curve Common_Types Rlp_Roundtrip
begin

text \<open>
  \<^verbatim>\<open>crypto/crypto.go\<close>, \<^verbatim>\<open>crypto/signature_cgo.go\<close> and \<^verbatim>\<open>crypto/secp256k1/secp256.go\<close>: keys, key
  files, addresses and signatures.  Keccak-256 and the functions of the C library libsecp256k1
  are parameters.  \<^const>\<open>None\<close> is a panic where a result is an option of a sum.
\<close>

section \<open>The wrapper of libsecp256k1\<close>

text \<open>
  The functions of the C library, on the bytes that the wrapper hands over:
  \<^verbatim>\<open>secp256k1_ec_seckey_verify\<close>; \<^verbatim>\<open>secp256k1_ecdsa_sign_recoverable\<close> followed by
  \<^verbatim>\<open>secp256k1_ecdsa_recoverable_signature_serialize_compact\<close>, which give 64 bytes and the
  recovery id; and the functions \<^verbatim>\<open>ecdsa_recover\<close>, \<^verbatim>\<open>ecdsa_verify\<close>, \<^verbatim>\<open>reencode_pubkey\<close> and
  \<^verbatim>\<open>scalar_mul\<close> of \<^verbatim>\<open>ext.h\<close>.
\<close>

record libsecp256k1 =
  seckey_verify :: "bytes \<Rightarrow> bool"
  sign_recoverable :: "bytes \<Rightarrow> bytes \<Rightarrow> (bytes \<times> int) option"
  ext_ecdsa_recover :: "bytes \<Rightarrow> bytes \<Rightarrow> bytes option"
  ext_ecdsa_verify :: "bytes \<Rightarrow> bytes \<Rightarrow> bytes \<Rightarrow> bool"
  ext_reencode_pubkey :: "nat \<Rightarrow> bytes \<Rightarrow> bytes option"
  ext_scalar_mul :: "bytes \<Rightarrow> bytes \<Rightarrow> bytes option"

datatype secp_error =
    ErrInvalidMsgLen
  | ErrInvalidSignatureLen
  | ErrInvalidRecoveryID
  | ErrInvalidKey
  | ErrInvalidPubkey
  | ErrSignFailed
  | ErrRecoverFailed

definition secp_Sign :: "libsecp256k1 \<Rightarrow> bytes \<Rightarrow> bytes \<Rightarrow> secp_error + bytes" where
  "secp_Sign lib msg seckey =
     (if length msg \<noteq> 32 then Inl ErrInvalidMsgLen
      else if length seckey \<noteq> 32 then Inl ErrInvalidKey
      else if \<not> seckey_verify lib seckey then Inl ErrInvalidKey
      else case sign_recoverable lib msg seckey of
             None \<Rightarrow> Inl ErrSignFailed
           | Some (sigdata, recid) \<Rightarrow> Inr (sigdata @ [of_int recid]))"

definition secp_VerifySignature :: "libsecp256k1 \<Rightarrow> bytes \<Rightarrow> bytes \<Rightarrow> bytes \<Rightarrow> bool" where
  "secp_VerifySignature lib pubkey msg signature =
     (if length msg \<noteq> 32 \<or> length signature \<noteq> 64 \<or> length pubkey = 0 then False
      else ext_ecdsa_verify lib signature msg pubkey)"

definition secp_DecompressPubkey :: "libsecp256k1 \<Rightarrow> bytes \<Rightarrow> (int \<times> int) option" where
  "secp_DecompressPubkey lib pubkey =
     (if length pubkey \<noteq> 33 then None
      else case ext_reencode_pubkey lib 65 pubkey of
             None \<Rightarrow> None
           | Some out \<Rightarrow> Some (int (be_val (take 32 (drop 1 out))), int (be_val (drop 33 out))))"

definition secp_CompressPubkey :: "libsecp256k1 \<Rightarrow> int \<Rightarrow> int \<Rightarrow> bytes option" where
  "secp_CompressPubkey lib x y =
     (let pubkey = Curve_Marshal theCurve x y in ext_reencode_pubkey lib 33 pubkey)"

definition checkSignature :: "bytes \<Rightarrow> secp_error option" where
  "checkSignature sig =
     (if length sig \<noteq> 65 then Some ErrInvalidSignatureLen
      else if sig ! 64 \<ge> 4 then Some ErrInvalidRecoveryID
      else None)"

definition RecoverPubkey :: "libsecp256k1 \<Rightarrow> bytes \<Rightarrow> bytes \<Rightarrow> secp_error + bytes" where
  "RecoverPubkey lib msg sig =
     (if length msg \<noteq> 32 then Inl ErrInvalidMsgLen
      else case checkSignature sig of
             Some err \<Rightarrow> Inl err
           | None \<Rightarrow>
               (case ext_ecdsa_recover lib sig msg of
                  None \<Rightarrow> Inl ErrRecoverFailed
                | Some pubkey \<Rightarrow> Inr pubkey))"

section \<open>Hashes and contract addresses\<close>

definition DigestLength :: nat where
  "DigestLength = 32"

definition secp256k1N :: int where
  "secp256k1N = 0xFFFFFFFFFFFFFFFFFFFFFFFFFFFFFFFEBAAEDCE6AF48A03BBFD25E8CD0364141"

definition secp256k1halfN :: int where
  "secp256k1halfN = secp256k1N div 2"

text \<open>The writes to the hash state are hashed as one string.\<close>

definition Keccak256 :: "(bytes \<Rightarrow> bytes) \<Rightarrow> bytes list \<Rightarrow> bytes" where
  "Keccak256 keccak data = keccak (concat data)"

definition Keccak256Hash :: "(bytes \<Rightarrow> bytes) \<Rightarrow> bytes list \<Rightarrow> bytes" where
  "Keccak256Hash keccak data = keccak (concat data)"

text \<open>The error of \<^verbatim>\<open>EncodeToBytes\<close> is dropped, which leaves nil.\<close>

definition CreateAddress :: "(bytes \<Rightarrow> bytes) \<Rightarrow> bytes \<Rightarrow> u64 \<Rightarrow> bytes option" where
  "CreateAddress keccak b nonce =
     (case EncodeToBytes (TSlice (TInterface True))
             (VList [VIface (TArray 20 (TUint 8)) (VBytes b), VIface (TUint 64) (VUint nonce)]) of
        Inl e \<Rightarrow> Some (BytesToAddress (drop 12 (Keccak256 keccak [[]])))
      | Inr None \<Rightarrow> None
      | Inr (Some data) \<Rightarrow> Some (BytesToAddress (drop 12 (Keccak256 keccak [data]))))"

definition CreateAddress2 :: "(bytes \<Rightarrow> bytes) \<Rightarrow> bytes \<Rightarrow> bytes \<Rightarrow> bytes \<Rightarrow> bytes" where
  "CreateAddress2 keccak b salt inithash =
     BytesToAddress (drop 12 (Keccak256 keccak [[0xFF], b, salt, inithash]))"

section \<open>Keys\<close>

record PublicKey =
  pub_X :: int
  pub_Y :: int

record PrivateKey =
  priv_Public :: PublicKey
  priv_D :: int

datatype crypto_error =
    InvalidKeyLength nat
  | KeyAboveN
  | KeyNotPositive
  | InvalidPrivateKey
  | InvalidPubkey
  | HexCharacter byte
  | HexData
  | KeyFileTooShort
  | KeyFileCharacter byte
  | KeyFileTooLong
  | InvalidDigestLength nat
  | SecpError secp_error

definition toECDSA :: "libsecp256k1 \<Rightarrow> bytes \<Rightarrow> bool \<Rightarrow> (crypto_error + PrivateKey) option" where
  "toECDSA lib d strict =
     (if strict \<and> 8 * length d \<noteq> bc_BitSize theCurve then Some (Inl (InvalidKeyLength (bc_BitSize theCurve)))
      else
        (let D = int (be_val d) in
         if D \<ge> secp256k1N then Some (Inl KeyAboveN)
         else if D \<le> 0 then Some (Inl KeyNotPositive)
         else case ScalarBaseMult (ext_scalar_mul lib) theCurve d of
                None \<Rightarrow> None
              | Some None \<Rightarrow> Some (Inl InvalidPrivateKey)
              | Some (Some (x, y)) \<Rightarrow>
                  Some (Inr \<lparr>priv_Public = \<lparr>pub_X = x, pub_Y = y\<rparr>, priv_D = D\<rparr>)))"

definition ToECDSA :: "libsecp256k1 \<Rightarrow> bytes \<Rightarrow> (crypto_error + PrivateKey) option" where
  "ToECDSA lib d = toECDSA lib d True"

text \<open>Nil instead of an error.\<close>

definition ToECDSAUnsafe :: "libsecp256k1 \<Rightarrow> bytes \<Rightarrow> PrivateKey option option" where
  "ToECDSAUnsafe lib d =
     (case toECDSA lib d False of
        None \<Rightarrow> None
      | Some (Inl e) \<Rightarrow> Some None
      | Some (Inr priv) \<Rightarrow> Some (Some priv))"

definition FromECDSA :: "PrivateKey option \<Rightarrow> bytes" where
  "FromECDSA priv =
     (case priv of None \<Rightarrow> [] | Some p \<Rightarrow> PaddedBigBytes (priv_D p) (bc_BitSize theCurve div 8))"

text \<open>
  \<^verbatim>\<open>elliptic.Unmarshal\<close> and \<^verbatim>\<open>elliptic.Marshal\<close> of the standard library; a coordinate that is
  too long for its field makes \<^verbatim>\<open>Marshal\<close> slice before the start of the buffer.
\<close>

definition elliptic_Unmarshal :: "BitCurve \<Rightarrow> bytes \<Rightarrow> (int \<times> int) option" where
  "elliptic_Unmarshal C data =
     (let byteLen = (bc_BitSize C + 7) div 8 in
      if length data \<noteq> 1 + 2 * byteLen then None
      else if data ! 0 \<noteq> 4 then None
      else
        (let x = int (be_val (take byteLen (drop 1 data)));
             y = int (be_val (drop (1 + byteLen) data))
         in if x \<ge> bc_P C \<or> y \<ge> bc_P C then None
            else if \<not> IsOnCurve C x y then None
            else Some (x, y)))"

definition elliptic_Marshal :: "BitCurve \<Rightarrow> int \<Rightarrow> int \<Rightarrow> bytes option" where
  "elliptic_Marshal C x y =
     (let byteLen = (bc_BitSize C + 7) div 8;
          xBytes = be_bytes (nat \<bar>x\<bar>);
          yBytes = be_bytes (nat \<bar>y\<bar>);
          ret = 4 # replicate (2 * byteLen) 0
      in if length xBytes > 1 + byteLen \<or> length yBytes > 1 + 2 * byteLen then None
         else
           (let ret = snd (go_copy (1 + byteLen - length xBytes) xBytes ret)
            in Some (snd (go_copy (1 + 2 * byteLen - length yBytes) yBytes ret))))"

definition UnmarshalPubkey :: "bytes \<Rightarrow> crypto_error + PublicKey" where
  "UnmarshalPubkey pub =
     (case elliptic_Unmarshal theCurve pub of
        None \<Rightarrow> Inl InvalidPubkey
      | Some (x, y) \<Rightarrow> Inr \<lparr>pub_X = x, pub_Y = y\<rparr>)"

definition FromECDSAPub :: "PublicKey \<Rightarrow> bytes option" where
  "FromECDSAPub pub = elliptic_Marshal theCurve (pub_X pub) (pub_Y pub)"

definition HexToECDSA :: "libsecp256k1 \<Rightarrow> bytes \<Rightarrow> (crypto_error + PrivateKey) option" where
  "HexToECDSA lib hexkey =
     (let (b, err) = hex_Decode hexkey in
      case err of
        Some (InvalidByteError c) \<Rightarrow> Some (Inl (HexCharacter c))
      | Some ErrLength \<Rightarrow> Some (Inl HexData)
      | None \<Rightarrow> ToECDSA lib b)"

section \<open>Key files\<close>

text \<open>
  A buffered reader on a file is the rest of its contents. \<^verbatim>\<open>readASCII\<close> returns the characters
  it put into the buffer of \<open>n\<close> bytes; the character that stopped it is read.
\<close>

fun readASCII :: "nat \<Rightarrow> bytes \<Rightarrow> bytes \<times> bytes" where
  "readASCII 0 r = ([], r)"
| "readASCII (Suc n) [] = ([], [])"
| "readASCII (Suc n) (c # r) =
     (if c < 33 then ([], r) else (let (buf, r') = readASCII n r in (c # buf, r')))"

fun checkKeyFileEnd :: "nat \<Rightarrow> bytes \<Rightarrow> crypto_error option" where
  "checkKeyFileEnd i [] = None"
| "checkKeyFileEnd i (b # r) =
     (if b \<noteq> 10 \<and> b \<noteq> 13 then Some (KeyFileCharacter b)
      else if i \<ge> 2 then Some KeyFileTooLong
      else checkKeyFileEnd (Suc i) r)"

definition LoadECDSA :: "libsecp256k1 \<Rightarrow> bytes \<Rightarrow> (crypto_error + PrivateKey) option" where
  "LoadECDSA lib file =
     (let (buf, r) = readASCII 64 file in
      if length buf \<noteq> 64 then Some (Inl KeyFileTooShort)
      else case checkKeyFileEnd 0 r of
             Some err \<Rightarrow> Some (Inl err)
           | None \<Rightarrow> HexToECDSA lib buf)"

definition SaveECDSA :: "PrivateKey \<Rightarrow> bytes" where
  "SaveECDSA key = hex_Encode (FromECDSA (Some key))"

section \<open>Signatures and addresses\<close>

definition ValidateSignatureValues :: "byte \<Rightarrow> int \<Rightarrow> int \<Rightarrow> bool \<Rightarrow> bool" where
  "ValidateSignatureValues v r s homestead =
     (if r < 1 \<or> s < 1 then False
      else if homestead \<and> s > secp256k1halfN then False
      else r < secp256k1N \<and> s < secp256k1N \<and> (v = 0 \<or> v = 1))"

definition PubkeyToAddress :: "(bytes \<Rightarrow> bytes) \<Rightarrow> PublicKey \<Rightarrow> bytes option" where
  "PubkeyToAddress keccak p =
     (case FromECDSAPub p of
        None \<Rightarrow> None
      | Some pubBytes \<Rightarrow> Some (BytesToAddress (drop 12 (Keccak256 keccak [drop 1 pubBytes]))))"

definition Ecrecover :: "libsecp256k1 \<Rightarrow> bytes \<Rightarrow> bytes \<Rightarrow> secp_error + bytes" where
  "Ecrecover lib hash sig = RecoverPubkey lib hash sig"

text \<open>The coordinates are nil when the recovered bytes are no point of the curve.\<close>

definition SigToPub :: "libsecp256k1 \<Rightarrow> bytes \<Rightarrow> bytes \<Rightarrow> secp_error + (int \<times> int) option" where
  "SigToPub lib hash sig =
     (case Ecrecover lib hash sig of
        Inl err \<Rightarrow> Inl err
      | Inr s \<Rightarrow> Inr (elliptic_Unmarshal theCurve s))"

definition Sign :: "libsecp256k1 \<Rightarrow> bytes \<Rightarrow> PrivateKey \<Rightarrow> crypto_error + bytes" where
  "Sign lib digestHash prv =
     (if length digestHash \<noteq> DigestLength then Inl (InvalidDigestLength (length digestHash))
      else
        (let seckey = PaddedBigBytes (priv_D prv) (bc_BitSize theCurve div 8)
         in map_sum SecpError id (secp_Sign lib digestHash seckey)))"

definition VerifySignature :: "libsecp256k1 \<Rightarrow> bytes \<Rightarrow> bytes \<Rightarrow> bytes \<Rightarrow> bool" where
  "VerifySignature lib pubkey digestHash signature = secp_VerifySignature lib pubkey digestHash signature"

definition DecompressPubkey :: "libsecp256k1 \<Rightarrow> bytes \<Rightarrow> crypto_error + PublicKey" where
  "DecompressPubkey lib pubkey =
     (case secp_DecompressPubkey lib pubkey of
        None \<Rightarrow> Inl InvalidPubkey
      | Some (x, y) \<Rightarrow> Inr \<lparr>pub_X = x, pub_Y = y\<rparr>)"

definition CompressPubkey :: "libsecp256k1 \<Rightarrow> PublicKey \<Rightarrow> bytes option" where
  "CompressPubkey lib pubkey = secp_CompressPubkey lib (pub_X pubkey) (pub_Y pubkey)"

section \<open>Encodings of keys\<close>

declare be_fixed_numeral [simp del]

lemma go_copy_fits:
  "pos + length src \<le> length out \<Longrightarrow>
     snd (go_copy pos src out) = take pos out @ src @ drop (pos + length src) out"
  by (auto simp: go_copy_def Let_def min_def)

lemma elliptic_Marshal_zeros:
  assumes "length a \<le> k" "length b \<le> k"
  shows "snd (go_copy (1 + 2 * k - length b) b (snd (go_copy (1 + k - length a) a (4 # replicate (2 * k) 0))))
     = 4 # (replicate (k - length a) 0 @ a) @ replicate (k - length b) 0 @ b"
proof -
  have "snd (go_copy (1 + k - length a) a (4 # replicate (2 * k) 0))
      = 4 # replicate (k - length a) 0 @ a @ replicate k 0"
    using assms by (simp add: go_copy_fits Suc_diff_le take_Cons')
  then show ?thesis using assms by (simp add: go_copy_fits Suc_diff_le take_Cons')
qed

lemma be_bytes_32: "0 \<le> n \<Longrightarrow> n < 2 ^ 256 \<Longrightarrow> length (be_bytes (nat n)) \<le> 32"
  by (simp add: length_be_bytes_le nat_less_iff)

lemma elliptic_Marshal_eq:
  assumes "0 \<le> x" "x < 2 ^ 256" "0 \<le> y" "y < 2 ^ 256"
  shows "elliptic_Marshal theCurve x y = Some (Curve_Marshal theCurve x y)"
proof -
  note lx = be_bytes_32 [OF assms(1,2)] and ly = be_bytes_32 [OF assms(3,4)]
  have c: "Curve_Marshal theCurve x y = 4 # be_fixed 32 (nat x) @ be_fixed 32 (nat y)"
    using assms by (simp add: Curve_Marshal_def theCurve_def readBits_32)
  have "(bc_BitSize theCurve + 7) div 8 = 32" by (simp add: theCurve_def)
  moreover have "\<bar>x\<bar> = x" "\<bar>y\<bar> = y" using assms by simp_all
  moreover have "\<not> (length (be_bytes (nat x)) > 1 + 32 \<or> length (be_bytes (nat y)) > 1 + 2 * 32)"
    using lx ly by auto
  ultimately show ?thesis
    unfolding elliptic_Marshal_def Let_def c by (simp only: elliptic_Marshal_zeros [OF lx ly] be_fixed_pad [OF lx] be_fixed_pad [OF ly] if_False)
qed

lemma Curve_Marshal_eq:
  assumes "0 \<le> x" "x < 2 ^ 256" "0 \<le> y" "y < 2 ^ 256"
  shows "Curve_Marshal theCurve x y = 4 # be_fixed 32 (nat x) @ be_fixed 32 (nat y)"
  using assms by (simp add: Curve_Marshal_def theCurve_def readBits_32)

lemma theCurve_BitSize: "bc_BitSize theCurve = 256"
  by (simp add: theCurve_def)

lemma Psecp_less: "Psecp < 2 ^ 256"
  by (simp add: theCurve_def)

lemma UnmarshalPubkey_iff:
  "UnmarshalPubkey b = Inr pub \<longleftrightarrow>
     FromECDSAPub pub = Some b \<and> 0 \<le> pub_X pub \<and> pub_X pub < Psecp \<and> 0 \<le> pub_Y pub \<and> pub_Y pub < Psecp \<and>
     IsOnCurve theCurve (pub_X pub) (pub_Y pub)"
  (is "?L \<longleftrightarrow> ?R")
proof
  assume ?L
  then have l: "length b = 65" "b ! 0 = 4" and
    pub: "pub_X pub = int (be_val (take 32 (drop 1 b)))" "pub_Y pub = int (be_val (drop 33 b))"
      "pub_X pub < Psecp" "pub_Y pub < Psecp" "IsOnCurve theCurve (pub_X pub) (pub_Y pub)"
    by (auto simp: UnmarshalPubkey_def elliptic_Unmarshal_def Let_def theCurve_def split: if_splits)
  have "b = 4 # take 32 (drop 1 b) @ drop 33 b" using l by (cases b) (auto simp flip: drop_drop)
  moreover have "be_fixed 32 (be_val (take 32 (drop 1 b))) = take 32 (drop 1 b)"
    "be_fixed 32 (be_val (drop 33 b)) = drop 33 b"
    using l(1) by (simp_all add: be_fixed_be_val)
  ultimately have "Curve_Marshal theCurve (pub_X pub) (pub_Y pub) = b"
    using pub Psecp_less by (simp add: Curve_Marshal_eq)
  then show ?R using pub Psecp_less by (simp add: FromECDSAPub_def elliptic_Marshal_eq)
next
  assume r: ?R
  then have lt: "pub_X pub < 2 ^ 256" "pub_Y pub < 2 ^ 256" using Psecp_less order_less_trans by blast+
  then have "b = Curve_Marshal theCurve (pub_X pub) (pub_Y pub)"
    using r elliptic_Marshal_eq [of "pub_X pub" "pub_Y pub"] by (simp add: FromECDSAPub_def)
  then show ?L using r lt
    by (simp add: UnmarshalPubkey_def elliptic_Unmarshal_def Curve_Marshal_eq be_val_be_fixed_32 Let_def theCurve_BitSize
        del: be_val_be_fixed)
qed

section \<open>Key files\<close>

lemma hex_Encode_length [simp]: "length (hex_Encode b) = 2 * length b"
  by (induction b) (simp_all add: hex_Encode_def)

lemma readASCII_all: "\<forall>c \<in> set buf. \<not> c < 33 \<Longrightarrow> readASCII (length buf) (buf @ r) = (buf, r)"
  by (induction buf) auto

lemma readASCII_full: "readASCII n f = (buf, r) \<Longrightarrow> length buf = n \<Longrightarrow> f = buf @ r"
proof (induction n f arbitrary: buf rule: readASCII.induct)
  case (3 n c r')
  then show ?case by (cases "c < 33") (auto split: prod.splits)
qed auto

lemma checkKeyFileEnd_iff:
  "checkKeyFileEnd i r = None \<longleftrightarrow> set r \<subseteq> {10, 13} \<and> (r = [] \<or> i + length r \<le> 2)"
  by (induction i r rule: checkKeyFileEnd.induct) auto

lemma isHexChar_not_control: "isHexChar c \<Longrightarrow> \<not> c < 33"
  by (auto simp: isHexChar_def decodeNibble_def word_less_nat_alt word_le_nat_alt split: if_splits)

lemma hex_Encode_isHexChar: "c \<in> set (hex_Encode b) \<Longrightarrow> isHexChar c"
  by (induction b) (auto simp: hex_Encode_def div_less_iff_less_mult)

lemma hex_Decode_iff: "hex_Decode s = (b, None) \<longleftrightarrow> map lower s = hex_Encode b"
proof
  assume eq: "map lower s = hex_Encode b"
  have "\<forall>c \<in> set s. isHexChar (lower c)"
    using hex_Encode_isHexChar [of _ b] unfolding eq [symmetric] by (metis image_eqI list.set_map)
  moreover have "even (length s)" using arg_cong [OF eq, of length] by simp
  ultimately obtain b' where b': "hex_Decode s = (b', None)" using hex_Decode_total [of s] by auto
  then have "hex_Encode b' = hex_Encode b" using hex_Decode_None [OF b'] eq by simp
  then show "hex_Decode s = (b, None)" using b' hex_Decode_Encode by (metis prod.inject)
qed (use hex_Decode_None in blast)

lemma HexToECDSA_iff:
  "HexToECDSA lib h = Some (Inr key) \<longleftrightarrow> (\<exists>b. map lower h = hex_Encode b \<and> ToECDSA lib b = Some (Inr key))"
proof (cases "hex_Decode h")
  case (Pair b err)
  then show ?thesis
    unfolding hex_Decode_iff [symmetric]
    by (cases err) (auto simp: HexToECDSA_def split: hex_error.splits)
qed

lemma ToECDSA_FromECDSA:
  assumes "ToECDSA lib d = Some (Inr key)"
  shows "FromECDSA (Some key) = d" "length d = 32" "0 < priv_D key" "priv_D key < secp256k1N" "priv_D key = int (be_val d)"
proof -
  have l: "length d = 32" and D: "priv_D key = int (be_val d)" "0 < priv_D key" "priv_D key < secp256k1N"
    using assms
    by (auto simp: ToECDSA_def toECDSA_def theCurve_BitSize Let_def split: if_splits option.splits prod.splits)
  then have "be_val d < 256 ^ 32" using be_val_less [of d] by simp
  then show "FromECDSA (Some key) = d"
    using l D by (simp add: FromECDSA_def PaddedBigBytes_eq theCurve_BitSize be_fixed_be_val)
qed (use assms in \<open>auto simp: ToECDSA_def toECDSA_def theCurve_BitSize Let_def split: if_splits option.splits prod.splits\<close>)

text \<open>
  C16: \<^verbatim>\<open>LoadECDSA\<close> reads a key from exactly the files that hold the 64 hex digits \<^verbatim>\<open>SaveECDSA\<close> writes
  for it, in upper or lower case, followed by at most two newline characters, and the key is
  one that \<^verbatim>\<open>ToECDSA\<close> makes of its own bytes.
\<close>

theorem LoadECDSA_iff:
  "LoadECDSA lib f = Some (Inr key) \<longleftrightarrow>
     (\<exists>h nl. f = h @ nl \<and> map lower h = SaveECDSA key \<and> set nl \<subseteq> {10, 13} \<and> length nl \<le> 2 \<and>
        ToECDSA lib (FromECDSA (Some key)) = Some (Inr key))"
  (is "?L \<longleftrightarrow> ?R")
proof
  assume ?L
  obtain buf r where br: "readASCII 64 f = (buf, r)" by fastforce
  then have l: "length buf = 64" "checkKeyFileEnd 0 r = None" "HexToECDSA lib buf = Some (Inr key)"
    using \<open>?L\<close> by (auto simp: LoadECDSA_def split: if_splits option.splits)
  then obtain b where b: "map lower buf = hex_Encode b" "ToECDSA lib b = Some (Inr key)" by (auto simp: HexToECDSA_iff)
  show ?R using readASCII_full [OF br l(1)] l(2) b ToECDSA_FromECDSA(1) [OF b(2)]
    by (intro exI [of _ buf] exI [of _ r]) (auto simp: checkKeyFileEnd_iff SaveECDSA_def)
next
  assume ?R
  then obtain h nl where r: "f = h @ nl" "map lower h = SaveECDSA key" "set nl \<subseteq> {10, 13}" "length nl \<le> 2"
    "ToECDSA lib (FromECDSA (Some key)) = Some (Inr key)" by blast
  have len: "length h = 64"
    using arg_cong [OF r(2), of length] ToECDSA_FromECDSA(2) [OF r(5)] by (simp add: SaveECDSA_def)
  have "\<forall>c \<in> set h. isHexChar (lower c)"
    using hex_Encode_isHexChar r(2) unfolding SaveECDSA_def by (metis image_eqI list.set_map)
  then have "readASCII 64 f = (h, nl)"
    using readASCII_all [of h nl] isHexChar_not_control len r(1) by simp
  moreover have "HexToECDSA lib h = Some (Inr key)" using r(2,5) by (auto simp: HexToECDSA_iff SaveECDSA_def)
  moreover have "checkKeyFileEnd 0 nl = None" using r(3,4) by (simp add: checkKeyFileEnd_iff)
  ultimately show ?L using len by (simp add: LoadECDSA_def)
qed

section \<open>The contract of the signature functions\<close>

text \<open>
  What \<^verbatim>\<open>secp256k1.h\<close> and \<^verbatim>\<open>secp256k1_recovery.h\<close> promise for a valid key: the key is accepted, a
  signature is in the lower form with a recovery id, here one of the two that belong to an \<open>r\<close>
  below the group order, and recovery from the message and the signature gives the public key
  in uncompressed form.
\<close>

definition recovers :: "libsecp256k1 \<Rightarrow> PrivateKey \<Rightarrow> bytes \<Rightarrow> nat \<Rightarrow> nat \<Rightarrow> int \<Rightarrow> bool" where
  "recovers lib key msg r s v \<longleftrightarrow>
     sign_recoverable lib msg (be_fixed 32 (nat (priv_D key))) = Some (be_fixed 32 r @ be_fixed 32 s, v) \<and>
     1 \<le> r \<and> int r < secp256k1N \<and> 1 \<le> s \<and> int s \<le> secp256k1halfN \<and> (v = 0 \<or> v = 1) \<and>
     ext_ecdsa_recover lib (be_fixed 32 r @ be_fixed 32 s @ [of_int v]) msg =
       Some (Curve_Marshal theCurve (pub_X (priv_Public key)) (pub_Y (priv_Public key)))"

definition ecdsa_contract :: "libsecp256k1 \<Rightarrow> PrivateKey \<Rightarrow> bool" where
  "ecdsa_contract lib key \<longleftrightarrow>
     0 < priv_D key \<and> priv_D key < secp256k1N \<and>
     0 \<le> pub_X (priv_Public key) \<and> pub_X (priv_Public key) < Psecp \<and>
     0 \<le> pub_Y (priv_Public key) \<and> pub_Y (priv_Public key) < Psecp \<and>
     seckey_verify lib (be_fixed 32 (nat (priv_D key))) \<and>
     (\<forall>msg. length msg = 32 \<longrightarrow> (\<exists>r s v. recovers lib key msg r s v))"

lemma secp256k1N_bounds: "secp256k1N < 2 ^ 256" "0 < secp256k1N" "secp256k1halfN < secp256k1N"
  by (simp_all add: secp256k1N_def secp256k1halfN_def)

lemma Sign_Ecrecover:
  assumes "ecdsa_contract lib key" "length h = 32"
  obtains r s v where "Sign lib h key = Inr (be_fixed 32 r @ be_fixed 32 s @ [v])"
    "1 \<le> r" "int r < secp256k1N" "1 \<le> s" "int s \<le> secp256k1halfN" "v = 0 \<or> v = 1"
    "Ecrecover lib h (be_fixed 32 r @ be_fixed 32 s @ [v]) =
       Inr (Curve_Marshal theCurve (pub_X (priv_Public key)) (pub_Y (priv_Public key)))"
proof -
  obtain r s v where rsv: "recovers lib key h r s v" using assms unfolding ecdsa_contract_def by blast
  let ?v = "of_int v :: byte" and ?D = "priv_D key"
  have v: "?v = 0 \<or> ?v = 1" using rsv unfolding recovers_def by (elim conjE disjE) simp_all
  have "0 < ?D" "?D < 2 ^ 256"
    using assms(1) order_less_trans [OF _ secp256k1N_bounds(1)] unfolding ecdsa_contract_def by blast+
  then have D: "\<bar>?D\<bar> = ?D" "nat ?D < 256 ^ 32" by (simp_all add: nat_less_iff)
  have key: "PaddedBigBytes ?D (bc_BitSize theCurve div 8) = be_fixed 32 (nat ?D)"
    unfolding PaddedBigBytes_eq theCurve_BitSize D(1) using D(2) by (simp)
  have "Sign lib h key = map_sum SecpError id (secp_Sign lib h (be_fixed 32 (nat ?D)))"
    unfolding Sign_def key DigestLength_def Let_def using assms(2) by simp
  also have "secp_Sign lib h (be_fixed 32 (nat ?D)) = Inr ((be_fixed 32 r @ be_fixed 32 s) @ [?v])"
    using rsv assms unfolding secp_Sign_def recovers_def ecdsa_contract_def
    by (simp del: append_assoc)
  finally have sg: "Sign lib h key = Inr (be_fixed 32 r @ be_fixed 32 s @ [?v])" by (simp)
  have "(be_fixed 32 r @ be_fixed 32 s @ [?v]) ! 64 = ?v" by (simp add: nth_append)
  moreover have "\<not> ?v \<ge> 4" using v by (auto simp: word_le_nat_alt)
  ultimately have "checkSignature (be_fixed 32 r @ be_fixed 32 s @ [?v]) = None"
    by (simp add: checkSignature_def)
  then have ec: "Ecrecover lib h (be_fixed 32 r @ be_fixed 32 s @ [?v]) =
      Inr (Curve_Marshal theCurve (pub_X (priv_Public key)) (pub_Y (priv_Public key)))"
    using rsv assms(2) by (simp add: Ecrecover_def RecoverPubkey_def recovers_def)
  from rsv have "1 \<le> r" "int r < secp256k1N" "1 \<le> s" "int s \<le> secp256k1halfN" unfolding recovers_def by simp_all
  from that [OF sg this v ec] show ?thesis .
qed

text \<open>A signature library with one key, which shows that the contract can hold.\<close>

definition one_key :: PrivateKey where
  "one_key = \<lparr>priv_Public = \<lparr>pub_X = 1, pub_Y = y_one\<rparr>, priv_D = 1\<rparr>"

definition one_key_lib :: libsecp256k1 where
  "one_key_lib =
     \<lparr>seckey_verify = (\<lambda>k. k = be_fixed 32 1),
      sign_recoverable = (\<lambda>m k. Some (be_fixed 32 1 @ be_fixed 32 1, 0)),
      ext_ecdsa_recover = (\<lambda>s m. Some (Curve_Marshal theCurve 1 y_one)),
      ext_ecdsa_verify = (\<lambda>s m p. True),
      ext_reencode_pubkey = (\<lambda>n p. Some p),
      ext_scalar_mul = (\<lambda>p k. Some (be_fixed 32 1 @ be_fixed 32 (nat y_one)))\<rparr>"

lemma one_key_contract: "ecdsa_contract one_key_lib one_key"
proof -
  have "y_one < Psecp" by (simp add: theCurve_def)
  moreover have "(1 :: int) < secp256k1N" "1 < Psecp" "1 \<le> secp256k1halfN"
    by (simp_all add: secp256k1N_def secp256k1halfN_def theCurve_def)
  moreover have "recovers one_key_lib one_key msg 1 1 0" for msg
    unfolding recovers_def one_key_lib_def one_key_def using calculation
    by simp
  ultimately show ?thesis
    unfolding ecdsa_contract_def by (auto simp: one_key_def one_key_lib_def)
qed

end
