(* ===== verification/Transaction.thy ===== *)
theory Transaction
  imports Crypto Rlp_Raw
begin

text \<open>
  \<^verbatim>\<open>core/types/transaction.go\<close>, \<^verbatim>\<open>transaction_signing.go\<close> and the hashing of \<^verbatim>\<open>block.go\<close>:
  transactions with their caches, their RLP form, and the signers.  The hash is computed over
  the encoder of \<open>Rlp_Encode\<close> and the sender through the signature functions of \<open>Crypto\<close>.
  Keccak-256 and the signature library stay parameters.
\<close>

section \<open>Transactions\<close>

text \<open>
  Pointers to big integers that a caller or the JSON decoder may leave nil are options; the
  signature values are always set.
\<close>

record txdata =
  td_RandomId :: u64
  td_Price :: "int option"
  td_GasLimit :: u64
  td_BlockLimit :: u64
  td_Recipient :: "bytes option"
  td_Amount :: "int option"
  td_Payload :: bytes
  td_ChainId :: "int option"
  td_GroupId :: "int option"
  td_ExtraData :: bytes
  td_V :: int
  td_R :: int
  td_S :: int
  td_Hash :: "bytes option"

datatype Signer =
    EIP155Signer (s_chainId: int) (s_chainIdMul: int)
  | HomesteadSigner
  | FrontierSigner

record Transaction =
  tx_data :: txdata
  tx_hash :: "bytes option"
  tx_size :: "u64 option"
  tx_from :: "(Signer \<times> bytes) option"

datatype tx_error =
    ErrInvalidSig
  | ErrInvalidChainId
  | ErrInvalidPublicKey
  | TxSecpError secp_error
  | TxCryptoError crypto_error

definition newTransaction ::
    "u64 \<Rightarrow> u64 \<Rightarrow> bytes option \<Rightarrow> int option \<Rightarrow> u64 \<Rightarrow> int option \<Rightarrow> bytes \<Rightarrow> int \<Rightarrow> int \<Rightarrow> bytes \<Rightarrow> Transaction" where
  "newTransaction nonce blockLimit dest amount gasLimit gasPrice data chainId groupId extraData =
     \<lparr>tx_data =
        \<lparr>td_RandomId = nonce, td_Price = gasPrice, td_GasLimit = gasLimit, td_BlockLimit = blockLimit,
         td_Recipient = dest, td_Amount = amount, td_Payload = data, td_ChainId = Some chainId,
         td_GroupId = Some groupId, td_ExtraData = extraData, td_V = 0, td_R = 0, td_S = 0, td_Hash = None\<rparr>,
      tx_hash = None, tx_size = None, tx_from = None\<rparr>"

definition NewTransaction ::
    "u64 \<Rightarrow> u64 \<Rightarrow> bytes \<Rightarrow> int option \<Rightarrow> u64 \<Rightarrow> int option \<Rightarrow> bytes \<Rightarrow> int \<Rightarrow> int \<Rightarrow> bytes \<Rightarrow> Transaction" where
  "NewTransaction nonce blockLimit dest amount gasLimit gasPrice data chainId groupId extraData =
     newTransaction nonce blockLimit (Some dest) amount gasLimit gasPrice data chainId groupId extraData"

definition NewContractCreation ::
    "u64 \<Rightarrow> u64 \<Rightarrow> int option \<Rightarrow> u64 \<Rightarrow> int option \<Rightarrow> bytes \<Rightarrow> int \<Rightarrow> int \<Rightarrow> bytes \<Rightarrow> Transaction" where
  "NewContractCreation nonce blockLimit amount gasLimit gasPrice data chainId groupId extraData =
     newTransaction nonce blockLimit None amount gasLimit gasPrice data chainId groupId extraData"

text \<open>\<^verbatim>\<open>(*big.Int).Uint64\<close>: the low word of the absolute value.\<close>

definition big_Uint64 :: "int \<Rightarrow> u64" where
  "big_Uint64 x = of_int \<bar>x\<bar>"

definition deriveChainId :: "int \<Rightarrow> int" where
  "deriveChainId v =
     (if Common_Math.BitLen v \<le> 64 then
        (let v = big_Uint64 v in
         if v = 27 \<or> v = 28 then 0 else int (unat ((v - 35) div 2)))
      else (v - 35) div 2)"

definition isProtectedV :: "int \<Rightarrow> bool" where
  "isProtectedV V =
     (if Common_Math.BitLen V \<le> 8 then (let v = big_Uint64 V in v \<noteq> 27 \<and> v \<noteq> 28) else True)"

definition Transaction_ChainId :: "Transaction \<Rightarrow> int" where
  "Transaction_ChainId tx = deriveChainId (td_V (tx_data tx))"

definition Protected :: "Transaction \<Rightarrow> bool" where
  "Protected tx = isProtectedV (td_V (tx_data tx))"

text \<open>A copy of a nil integer is a panic.\<close>

definition GasPrice :: "Transaction \<Rightarrow> int option" where
  "GasPrice tx = td_Price (tx_data tx)"

definition Transaction_Value :: "Transaction \<Rightarrow> int option" where
  "Transaction_Value tx = td_Amount (tx_data tx)"

definition Transaction_To :: "Transaction \<Rightarrow> bytes option" where
  "Transaction_To tx = td_Recipient (tx_data tx)"

definition Cost :: "Transaction \<Rightarrow> int option" where
  "Cost tx =
     (case td_Price (tx_data tx) of
        None \<Rightarrow> None
      | Some price \<Rightarrow>
          (let total = price * int (unat (td_GasLimit (tx_data tx)))
           in case td_Amount (tx_data tx) of None \<Rightarrow> None | Some amount \<Rightarrow> Some (total + amount)))"

definition RawSignatureValues :: "Transaction \<Rightarrow> int \<times> int \<times> int" where
  "RawSignatureValues tx = (td_V (tx_data tx), td_R (tx_data tx), td_S (tx_data tx))"

section \<open>The RLP form\<close>

definition address_type :: rtype where
  "address_type = TArray 20 (TUint 8)"

definition hash_type :: rtype where
  "hash_type = TArray 32 (TUint 8)"

definition txdata_fields :: "rtype sfield list" where
  "txdata_fields =
     [SField ''RandomId'' True [] (TUint 64),
      SField ''Price'' True [] (TPtr TBigInt),
      SField ''GasLimit'' True [] (TUint 64),
      SField ''BlockLimit'' True [] (TUint 64),
      SField ''Recipient'' True ''nil'' (TPtr address_type),
      SField ''Amount'' True [] (TPtr TBigInt),
      SField ''Payload'' True [] (TSlice (TUint 8)),
      SField ''ChainId'' True [] (TPtr TBigInt),
      SField ''GroupId'' True [] (TPtr TBigInt),
      SField ''ExtraData'' True [] (TSlice (TUint 8)),
      SField ''V'' True [] (TPtr TBigInt),
      SField ''R'' True [] (TPtr TBigInt),
      SField ''S'' True [] (TPtr TBigInt),
      SField ''Hash'' True ''-'' (TPtr hash_type)]"

definition txdata_type :: rtype where
  "txdata_type = TStruct ''txdata'' txdata_fields"

text \<open>\<^verbatim>\<open>EncodeRLP\<close> and \<^verbatim>\<open>DecodeRLP\<close> hand \<^verbatim>\<open>&tx.data\<close> to the package.\<close>

definition tx_type :: rtype where
  "tx_type = TCoder False txdata_type"

definition big_rval :: "int option \<Rightarrow> rval" where
  "big_rval x = (case x of None \<Rightarrow> VNil | Some n \<Rightarrow> VPtr (VBig n))"

definition bytes_rval :: "bytes option \<Rightarrow> rval" where
  "bytes_rval x = (case x of None \<Rightarrow> VNil | Some b \<Rightarrow> VPtr (VBytes b))"

definition txdata_rval :: "txdata \<Rightarrow> rval" where
  "txdata_rval d =
     VStruct [VUint (td_RandomId d), big_rval (td_Price d), VUint (td_GasLimit d), VUint (td_BlockLimit d),
       bytes_rval (td_Recipient d), big_rval (td_Amount d), VBytes (td_Payload d), big_rval (td_ChainId d),
       big_rval (td_GroupId d), VBytes (td_ExtraData d), big_rval (Some (td_V d)), big_rval (Some (td_R d)),
       big_rval (Some (td_S d)), bytes_rval (td_Hash d)]"

text \<open>The fields of a decoded struct value.\<close>

fun rval_uint :: "rval \<Rightarrow> u64" where
  "rval_uint (VUint n) = n"
| "rval_uint _ = 0"

fun rval_data :: "rval \<Rightarrow> bytes" where
  "rval_data (VBytes b) = b"
| "rval_data _ = []"

fun rval_big :: "rval \<Rightarrow> int option" where
  "rval_big (VPtr (VBig n)) = Some n"
| "rval_big _ = None"

fun rval_bytes :: "rval \<Rightarrow> bytes option" where
  "rval_bytes (VPtr (VBytes b)) = Some b"
| "rval_bytes _ = None"

definition rval_int :: "rval \<Rightarrow> int" where
  "rval_int v = (case rval_big v of None \<Rightarrow> 0 | Some n \<Rightarrow> n)"

definition rval_txdata :: "rval \<Rightarrow> txdata" where
  "rval_txdata v =
     (let vs = (case v of VStruct vs \<Rightarrow> vs | _ \<Rightarrow> []) in
      \<lparr>td_RandomId = rval_uint (vs ! 0), td_Price = rval_big (vs ! 1), td_GasLimit = rval_uint (vs ! 2),
       td_BlockLimit = rval_uint (vs ! 3), td_Recipient = rval_bytes (vs ! 4), td_Amount = rval_big (vs ! 5),
       td_Payload = rval_data (vs ! 6), td_ChainId = rval_big (vs ! 7), td_GroupId = rval_big (vs ! 8),
       td_ExtraData = rval_data (vs ! 9), td_V = rval_int (vs ! 10), td_R = rval_int (vs ! 11),
       td_S = rval_int (vs ! 12), td_Hash = rval_bytes (vs ! 13)\<rparr>)"

definition Transaction_EncodeRLP ::
    "('s, rlp_error) io_write \<Rightarrow> Transaction \<Rightarrow> 's \<Rightarrow> rlp_error option \<times> 's" where
  "Transaction_EncodeRLP w tx = Rlp_Encode.Encode w (TPtr txdata_type) (VPtr (txdata_rval (tx_data tx)))"

text \<open>
  \<^verbatim>\<open>DecodeRLP\<close> into a new transaction; the size of a value that \<^verbatim>\<open>Kind\<close> fails on is 0.
\<close>

definition Transaction_DecodeRLP :: "nat \<Rightarrow> Stream \<Rightarrow> ((rlp_error + Transaction) \<times> Stream) option" where
  "Transaction_DecodeRLP fuel s =
     (let (k, s) = Kind s;
          sz = (case k of Inl _ \<Rightarrow> 0 | Inr (_, sz) \<Rightarrow> sz)
      in case Stream_Decode fuel txdata_type s of
           None \<Rightarrow> None
         | Some (Inl err, s) \<Rightarrow> Some (Inl err, s)
         | Some (Inr v, s) \<Rightarrow>
             Some (Inr \<lparr>tx_data = rval_txdata v, tx_hash = None, tx_size = Some (ListSize sz), tx_from = None\<rparr>, s))"

section \<open>Hash and size\<close>

text \<open>The hash state collects what is written; a counter adds up the lengths.\<close>

definition hash_Write :: "(bytes, rlp_error) io_write" where
  "hash_Write st b = (length b, None, st @ b)"

definition rlpHash :: "(bytes \<Rightarrow> bytes) \<Rightarrow> rtype \<Rightarrow> rval \<Rightarrow> bytes" where
  "rlpHash keccak t v = keccak (snd (Rlp_Encode.Encode hash_Write t v []))"

definition writeCounter_Write :: "(u64, rlp_error) io_write" where
  "writeCounter_Write c b = (length b, None, c + of_nat (length b))"

definition Transaction_Hash :: "(bytes \<Rightarrow> bytes) \<Rightarrow> Transaction \<Rightarrow> bytes \<times> Transaction" where
  "Transaction_Hash keccak tx =
     (case tx_hash tx of
        Some h \<Rightarrow> (h, tx)
      | None \<Rightarrow>
          (let v = rlpHash keccak (TPtr tx_type) (VPtr (txdata_rval (tx_data tx)))
           in (v, tx\<lparr>tx_hash := Some v\<rparr>)))"

definition Transaction_Size :: "Transaction \<Rightarrow> u64 \<times> Transaction" where
  "Transaction_Size tx =
     (case tx_size tx of
        Some sz \<Rightarrow> (sz, tx)
      | None \<Rightarrow>
          (let c = snd (Rlp_Encode.Encode writeCounter_Write (TPtr txdata_type) (VPtr (txdata_rval (tx_data tx))) 0)
           in (c, tx\<lparr>tx_size := Some c\<rparr>)))"

section \<open>Signers\<close>

definition NewEIP155Signer :: "int option \<Rightarrow> Signer" where
  "NewEIP155Signer chainId =
     (let chainId = (case chainId of None \<Rightarrow> 0 | Some c \<Rightarrow> c) in EIP155Signer chainId (chainId * 2))"

fun Signer_Equal :: "Signer \<Rightarrow> Signer \<Rightarrow> bool" where
  "Signer_Equal (EIP155Signer c m) (EIP155Signer c' m') = (c' = c)"
| "Signer_Equal HomesteadSigner HomesteadSigner = True"
| "Signer_Equal FrontierSigner FrontierSigner = True"
| "Signer_Equal _ _ = False"

definition FrontierSigner_Hash :: "(bytes \<Rightarrow> bytes) \<Rightarrow> Transaction \<Rightarrow> bytes" where
  "FrontierSigner_Hash keccak tx =
     (let d = tx_data tx in
      rlpHash keccak (TSlice (TInterface True))
       (VList [VIface (TUint 64) (VUint (td_RandomId d)),
          VIface (TPtr TBigInt) (big_rval (td_Price d)),
          VIface (TUint 64) (VUint (td_GasLimit d)),
          VIface (TUint 64) (VUint (td_BlockLimit d)),
          VIface (TPtr address_type) (bytes_rval (td_Recipient d)),
          VIface (TPtr TBigInt) (big_rval (td_Amount d)),
          VIface (TSlice (TUint 8)) (VBytes (td_Payload d)),
          VIface (TPtr TBigInt) (big_rval (td_ChainId d)),
          VIface (TPtr TBigInt) (big_rval (td_GroupId d)),
          VIface (TSlice (TUint 8)) (VBytes (td_ExtraData d))]))"

definition EIP155Signer_Hash :: "(bytes \<Rightarrow> bytes) \<Rightarrow> int \<Rightarrow> Transaction \<Rightarrow> bytes" where
  "EIP155Signer_Hash keccak chainId tx =
     (let d = tx_data tx in
      rlpHash keccak (TSlice (TInterface True))
       (VList [VIface (TUint 64) (VUint (td_RandomId d)),
          VIface (TPtr TBigInt) (big_rval (td_Price d)),
          VIface (TUint 64) (VUint (td_GasLimit d)),
          VIface (TPtr address_type) (bytes_rval (td_Recipient d)),
          VIface (TPtr TBigInt) (big_rval (td_Amount d)),
          VIface (TSlice (TUint 8)) (VBytes (td_Payload d)),
          VIface (TPtr TBigInt) (big_rval (Some chainId)),
          VIface (TUint 64) (VUint 0),
          VIface (TUint 64) (VUint 0)]))"

fun Signer_Hash :: "(bytes \<Rightarrow> bytes) \<Rightarrow> Signer \<Rightarrow> Transaction \<Rightarrow> bytes" where
  "Signer_Hash keccak (EIP155Signer c m) tx = EIP155Signer_Hash keccak c tx"
| "Signer_Hash keccak HomesteadSigner tx = FrontierSigner_Hash keccak tx"
| "Signer_Hash keccak FrontierSigner tx = FrontierSigner_Hash keccak tx"

text \<open>A signature of the wrong length is a panic; there is no error.\<close>

definition FrontierSigner_SignatureValues :: "bytes \<Rightarrow> (int \<times> int \<times> int) option" where
  "FrontierSigner_SignatureValues sig =
     (if length sig \<noteq> 65 then None
      else Some (int (be_val (take 32 sig)), int (be_val (take 32 (drop 32 sig))),
                 int (be_val [sig ! 64 + 27])))"

fun Signer_SignatureValues :: "Signer \<Rightarrow> bytes \<Rightarrow> (int \<times> int \<times> int) option" where
  "Signer_SignatureValues (EIP155Signer c m) sig =
     (case FrontierSigner_SignatureValues sig of
        None \<Rightarrow> None
      | Some (R, S, V) \<Rightarrow>
          Some (R, S, if c \<noteq> 0 then int (unat (sig ! 64 + 35)) + m else V))"
| "Signer_SignatureValues HomesteadSigner sig = FrontierSigner_SignatureValues sig"
| "Signer_SignatureValues FrontierSigner sig = FrontierSigner_SignatureValues sig"

definition WithSignature :: "Transaction \<Rightarrow> Signer \<Rightarrow> bytes \<Rightarrow> Transaction option" where
  "WithSignature tx signer sig =
     (case Signer_SignatureValues signer sig of
        None \<Rightarrow> None
      | Some (r, s, v) \<Rightarrow>
          Some \<lparr>tx_data = (tx_data tx)\<lparr>td_R := r, td_S := s, td_V := v\<rparr>,
                tx_hash = None, tx_size = None, tx_from = None\<rparr>)"

definition SignTx ::
    "(bytes \<Rightarrow> bytes) \<Rightarrow> libsecp256k1 \<Rightarrow> Transaction \<Rightarrow> Signer \<Rightarrow> PrivateKey \<Rightarrow> (tx_error + Transaction) option" where
  "SignTx keccak lib tx s prv =
     (let h = Signer_Hash keccak s tx in
      case Sign lib h prv of
        Inl err \<Rightarrow> Some (Inl (TxCryptoError err))
      | Inr sig \<Rightarrow> map_option Inr (WithSignature tx s sig))"

definition recoverPlain ::
    "(bytes \<Rightarrow> bytes) \<Rightarrow> libsecp256k1 \<Rightarrow> bytes \<Rightarrow> int \<Rightarrow> int \<Rightarrow> int \<Rightarrow> bool \<Rightarrow> (tx_error + bytes) option" where
  "recoverPlain keccak lib sighash R S Vb homestead =
     (if Common_Math.BitLen Vb > 8 then Some (Inl ErrInvalidSig)
      else
        (let V = ucast (big_Uint64 Vb - 27) in
         if \<not> ValidateSignatureValues V R S homestead then Some (Inl ErrInvalidSig)
         else
           (let r = be_bytes (nat \<bar>R\<bar>); s = be_bytes (nat \<bar>S\<bar>) in
            if length r > 32 \<or> length s > 64 then None
            else
              (let sig = replicate 65 0;
                   sig = snd (go_copy (32 - length r) r sig);
                   sig = snd (go_copy (64 - length s) s sig);
                   sig = sig[64 := V]
               in case Ecrecover lib sighash sig of
                    Inl err \<Rightarrow> Some (Inl (TxSecpError err))
                  | Inr pub \<Rightarrow>
                      if length pub = 0 \<or> pub ! 0 \<noteq> 4 then Some (Inl ErrInvalidPublicKey)
                      else Some (Inr (snd (go_copy 0 (drop 12 (Keccak256 keccak [drop 1 pub]))
                                             (replicate AddressLength 0))))))))"

definition HomesteadSigner_Sender ::
    "(bytes \<Rightarrow> bytes) \<Rightarrow> libsecp256k1 \<Rightarrow> Transaction \<Rightarrow> (tx_error + bytes) option" where
  "HomesteadSigner_Sender keccak lib tx =
     recoverPlain keccak lib (FrontierSigner_Hash keccak tx) (td_R (tx_data tx)) (td_S (tx_data tx))
       (td_V (tx_data tx)) True"

definition FrontierSigner_Sender ::
    "(bytes \<Rightarrow> bytes) \<Rightarrow> libsecp256k1 \<Rightarrow> Transaction \<Rightarrow> (tx_error + bytes) option" where
  "FrontierSigner_Sender keccak lib tx =
     recoverPlain keccak lib (FrontierSigner_Hash keccak tx) (td_R (tx_data tx)) (td_S (tx_data tx))
       (td_V (tx_data tx)) False"

definition EIP155Signer_Sender ::
    "(bytes \<Rightarrow> bytes) \<Rightarrow> libsecp256k1 \<Rightarrow> int \<Rightarrow> int \<Rightarrow> Transaction \<Rightarrow> (tx_error + bytes) option" where
  "EIP155Signer_Sender keccak lib chainId chainIdMul tx =
     (if \<not> Protected tx then HomesteadSigner_Sender keccak lib tx
      else if Transaction_ChainId tx \<noteq> chainId then Some (Inl ErrInvalidChainId)
      else
        (let V = td_V (tx_data tx) - chainIdMul;
             V = V - 8
         in recoverPlain keccak lib (EIP155Signer_Hash keccak chainId tx) (td_R (tx_data tx))
              (td_S (tx_data tx)) V True))"

fun Signer_Sender :: "(bytes \<Rightarrow> bytes) \<Rightarrow> libsecp256k1 \<Rightarrow> Signer \<Rightarrow> Transaction \<Rightarrow> (tx_error + bytes) option" where
  "Signer_Sender keccak lib (EIP155Signer c m) tx = EIP155Signer_Sender keccak lib c m tx"
| "Signer_Sender keccak lib HomesteadSigner tx = HomesteadSigner_Sender keccak lib tx"
| "Signer_Sender keccak lib FrontierSigner tx = FrontierSigner_Sender keccak lib tx"

text \<open>\<^verbatim>\<open>Sender\<close> with its cache: the result, and the transaction with the sender stored.\<close>

definition Sender ::
    "(bytes \<Rightarrow> bytes) \<Rightarrow> libsecp256k1 \<Rightarrow> Signer \<Rightarrow> Transaction \<Rightarrow> ((tx_error + bytes) \<times> Transaction) option" where
  "Sender keccak lib signer tx =
     (let fresh =
        (case Signer_Sender keccak lib signer tx of
           None \<Rightarrow> None
         | Some (Inl err) \<Rightarrow> Some (Inl err, tx)
         | Some (Inr a) \<Rightarrow> Some (Inr a, tx\<lparr>tx_from := Some (signer, a)\<rparr>))
      in case tx_from tx of
           Some (cs, cfrom) \<Rightarrow> if Signer_Equal cs signer then Some (Inr cfrom, tx) else fresh
         | None \<Rightarrow> fresh)"

text \<open>
  What \<^verbatim>\<open>UnmarshalJSON\<close> does with the fields it has read: the signature values, unless all are
  zero, have to be possible ones.
\<close>

definition Transaction_checkJSON :: "txdata \<Rightarrow> tx_error + Transaction" where
  "Transaction_checkJSON dec =
     (let withSignature = (td_V dec \<noteq> 0 \<or> td_R dec \<noteq> 0 \<or> td_S dec \<noteq> 0);
          V = (if isProtectedV (td_V dec)
               then ucast (big_Uint64 (td_V dec) - 35 - 2 * big_Uint64 (deriveChainId (td_V dec)))
               else ucast (big_Uint64 (td_V dec) - 27))
      in if withSignature \<and> \<not> ValidateSignatureValues V (td_R dec) (td_S dec) False
         then Inl ErrInvalidSig
         else Inr \<lparr>tx_data = dec, tx_hash = None, tx_size = None, tx_from = None\<rparr>)"

section \<open>Sets of transactions\<close>

definition Transactions_GetRlp :: "Transaction list \<Rightarrow> nat \<Rightarrow> bytes option" where
  "Transactions_GetRlp s i =
     (if i < length s then
        (case EncodeToBytes (TPtr tx_type) (VPtr (txdata_rval (tx_data (s ! i)))) of
           Inl e \<Rightarrow> Some []
         | Inr b \<Rightarrow> b)
      else None)"

text \<open>
  The hashes of \<open>b\<close> that are to be removed, then the transactions of \<open>a\<close> that stay, with the
  cache that \<^verbatim>\<open>Hash\<close> has filled.
\<close>

definition TxDifference :: "(bytes \<Rightarrow> bytes) \<Rightarrow> Transaction list \<Rightarrow> Transaction list \<Rightarrow> Transaction list" where
  "TxDifference keccak a b =
     (let remove = (\<lambda>tx. fst (Transaction_Hash keccak tx)) ` set b
      in map (\<lambda>tx. snd (Transaction_Hash keccak tx))
           (filter (\<lambda>tx. fst (Transaction_Hash keccak tx) \<notin> remove) a))"

section \<open>Signing and recovering\<close>

declare be_fixed_numeral [simp del]

text \<open>A signer as \<^verbatim>\<open>NewEIP155Signer\<close> makes it, for a real chain.\<close>

fun signer_ok :: "Signer \<Rightarrow> bool" where
  "signer_ok (EIP155Signer c m) = (0 < c \<and> m = c * 2)"
| "signer_ok _ = True"

lemma BitLen_le: "0 \<le> v \<Longrightarrow> Common_Math.BitLen v \<le> k \<longleftrightarrow> v < 2 ^ k"
  by (simp add: Common_Math.BitLen_def bit_len_le nat_less_iff)

lemma uint_big_Uint64: "0 \<le> v \<Longrightarrow> v < 2 ^ 64 \<Longrightarrow> uint (big_Uint64 v) = v"
  by (simp add: big_Uint64_def uint_word_of_int)

lemma deriveChainId_EIP155:
  assumes "0 < c" "v = 0 \<or> v = 1"
  shows "deriveChainId (35 + v + c * 2) = c"
proof (cases "35 + v + c * 2 < 2 ^ 64")
  case True
  define w where "w = big_Uint64 (35 + v + c * 2)"
  have w: "uint w = 35 + v + c * 2" unfolding w_def using assms True by (intro uint_big_Uint64) auto
  then have "w \<noteq> 27" "w \<noteq> 28" using assms by auto
  have "35 \<le> w" using w assms by (auto simp: word_le_def)
  then have "uint (w - 35) = uint w - uint (35 :: u64)" by (metis uint_sub_lem word_le_def)
  then have "uint (w - 35) = v + c * 2" using w by simp
  then have "int (unat ((w - 35) div 2)) = (v + c * 2) div 2" by (simp add: uint_div)
  also have "\<dots> = c" using assms(2) by auto
  finally show ?thesis using True assms \<open>w \<noteq> 27\<close> \<open>w \<noteq> 28\<close>
    by (auto simp: deriveChainId_def w_def [symmetric] Let_def)
next
  case False
  then show ?thesis using assms by (auto simp: deriveChainId_def BitLen_le)
qed

lemma isProtectedV_EIP155:
  assumes "0 < c" "v = 0 \<or> v = 1"
  shows "isProtectedV (35 + v + c * 2)"
proof (cases "35 + v + c * 2 < 2 ^ 64")
  case True
  then have "uint (big_Uint64 (35 + v + c * 2)) = 35 + v + c * 2" using assms by (intro uint_big_Uint64) auto
  then show ?thesis using assms unfolding isProtectedV_def Let_def by auto
next
  case False
  then show ?thesis using assms by (auto simp: isProtectedV_def BitLen_le)
qed

lemma sig_pad:
  assumes "length a \<le> 32" "length b \<le> 32"
  shows "(snd (go_copy (64 - length b) b (snd (go_copy (32 - length a) a (replicate 65 0)))))[64 := v]
    = (replicate (32 - length a) 0 @ a) @ (replicate (32 - length b) 0 @ b) @ [v]"
proof -
  have "snd (go_copy (32 - length a) a (replicate 65 0)) = (replicate (32 - length a) 0 @ a) @ replicate 33 0"
    using assms(1) by (simp add: go_copy_fits)
  moreover have "snd (go_copy (64 - length b) b ((replicate (32 - length a) 0 @ a) @ replicate 33 0))
      = (replicate (32 - length a) 0 @ a) @ (replicate (32 - length b) 0 @ b) @ [0]"
    using assms by (subst go_copy_fits) (auto simp: take_append)
  moreover have "(xs @ [0])[64 := v] = xs @ [v]" if "length xs = 64" for xs :: bytes
    using that by (metis list_update_length)
  ultimately show ?thesis using assms by (simp flip: append_assoc)
qed

definition address_of :: "(bytes \<Rightarrow> bytes) \<Rightarrow> PrivateKey \<Rightarrow> bytes" where
  "address_of keccak key =
     drop 12 (keccak (drop 1 (Curve_Marshal theCurve (pub_X (priv_Public key)) (pub_Y (priv_Public key)))))"

lemma recoverPlain_signature:
  assumes "1 \<le> r" "int r < secp256k1N" "1 \<le> s" "int s \<le> secp256k1halfN" "v = 0 \<or> v = 1"
    and "Ecrecover lib h (be_fixed 32 r @ be_fixed 32 s @ [v]) =
       Inr (Curve_Marshal theCurve (pub_X (priv_Public key)) (pub_Y (priv_Public key)))"
    and "\<And>x. length (keccak x) = HashLength"
  shows "recoverPlain keccak lib h (int r) (int s) (27 + int (unat v)) homestead = Some (Inr (address_of keccak key))"
proof -
  let ?V = "27 + int (unat v)"
  have V: "ucast (big_Uint64 ?V - 27) = v" using assms(5) by (auto simp: big_Uint64_def)
  have lt: "int r < 2 ^ 256" "int s < 2 ^ 256"
    using assms(2,4) secp256k1N_bounds by linarith+
  then have len: "length (be_bytes r) \<le> 32" "length (be_bytes s) \<le> 32"
    using be_bytes_32 [of "int r"] be_bytes_32 [of "int s"] by simp_all
  have valid: "ValidateSignatureValues v (int r) (int s) homestead"
    using assms(1-5) secp256k1N_bounds by (auto simp: ValidateSignatureValues_def)
  have small: "\<not> Common_Math.BitLen ?V > 8" using assms(5) BitLen_le [of ?V 8] by auto
  have pub: "\<not> (length (Curve_Marshal theCurve x y) = 0 \<or> Curve_Marshal theCurve x y ! 0 \<noteq> 4)" for x y
    by (simp add: Curve_Marshal_def Let_def)
  have "snd (go_copy 0 (drop 12 (keccak z)) (replicate AddressLength 0)) = drop 12 (keccak z)" for z
    using assms(7) [of z] by (subst go_copy_fits) (simp_all add: HashLength_def AddressLength_def)
  then have "Keccak256 keccak [drop 1 pub] = keccak (drop 1 pub)"
    "snd (go_copy 0 (drop 12 (keccak (drop 1 pub))) (replicate AddressLength 0)) = drop 12 (keccak (drop 1 pub))" for pub
    by (simp_all add: Keccak256_def)
  note addr = this
  have sig: "(snd (go_copy (64 - length (be_bytes s)) (be_bytes s)
      (snd (go_copy (32 - length (be_bytes r)) (be_bytes r) (replicate 65 0)))))[64 := v] =
      be_fixed 32 r @ be_fixed 32 s @ [v]"
    by (simp only: sig_pad [OF len] be_fixed_pad [OF len(1)] be_fixed_pad [OF len(2)])
  have fits: "\<not> (length (be_bytes r) > 32 \<or> length (be_bytes s) > 64)" using len by auto
  have n: "nat \<bar>int r\<bar> = r" "nat \<bar>int s\<bar> = s" by simp_all
  show ?thesis
    unfolding recoverPlain_def Let_def V n sig assms(6) addr address_of_def
    using small valid fits pub by (simp only: sum.case if_False if_True not_True_eq_False)
qed

text \<open>The hash that is signed does not depend on the signature.\<close>

lemma Signer_Hash_WithSignature:
  "WithSignature tx s sig = Some tx' \<Longrightarrow> Signer_Hash keccak s' tx' = Signer_Hash keccak s' tx"
  by (cases s') (auto simp: WithSignature_def FrontierSigner_Hash_def EIP155Signer_Hash_def Let_def
      split: option.splits)

lemma length_Signer_Hash: "(\<And>x. length (keccak x) = HashLength) \<Longrightarrow> length (Signer_Hash keccak s tx) = 32"
  by (cases s) (simp_all add: FrontierSigner_Hash_def EIP155Signer_Hash_def rlpHash_def Let_def HashLength_def)

lemma WithSignature_values:
  assumes "v = 0 \<or> v = 1" "r < 256 ^ 32" "s < 256 ^ 32"
  shows "WithSignature tx signer (be_fixed 32 r @ be_fixed 32 s @ [v]) =
    Some \<lparr>tx_data = (tx_data tx)\<lparr>td_R := int r, td_S := int s,
            td_V := (case signer of EIP155Signer c m \<Rightarrow> if c \<noteq> 0 then 35 + int (unat v) + m else 27 + int (unat v)
                     | _ \<Rightarrow> 27 + int (unat v))\<rparr>,
          tx_hash = None, tx_size = None, tx_from = None\<rparr>"
proof -
  let ?sig = "be_fixed 32 r @ be_fixed 32 s @ [v]"
  have nth: "?sig ! 64 = v" by (simp add: nth_append)
  have vs: "unat (v + 27) = 27 + unat v" "unat (v + 35) = 35 + unat v" using assms(1) by auto
  have "take 32 ?sig = be_fixed 32 r" "take 32 (drop 32 ?sig) = be_fixed 32 s" by simp_all
  moreover have "be_val (be_fixed 32 r) = r" "be_val (be_fixed 32 s) = s"
    unfolding be_val_be_fixed using assms(2,3) by (simp_all only: mod_less)
  moreover have "be_val [v + 27] = 27 + unat v" using vs(1) by simp
  moreover have "length ?sig = 65" by simp
  ultimately have "FrontierSigner_SignatureValues ?sig = Some (int r, int s, 27 + int (unat v))"
    unfolding FrontierSigner_SignatureValues_def nth by (simp only: if_False of_nat_add of_nat_numeral simp_thms)
  then show ?thesis unfolding WithSignature_def
    by (cases signer) (simp_all only: Signer_SignatureValues.simps option.case prod.case Signer.case nth vs(2)
      of_nat_add of_nat_numeral)
qed

lemma PubkeyToAddress_contract:
  assumes "ecdsa_contract lib key" "\<And>x. length (keccak x) = HashLength"
  shows "PubkeyToAddress keccak (priv_Public key) = Some (address_of keccak key)"
proof -
  have "FromECDSAPub (priv_Public key) =
      Some (Curve_Marshal theCurve (pub_X (priv_Public key)) (pub_Y (priv_Public key)))"
    unfolding FromECDSAPub_def using assms(1) Psecp_less
    by (intro elliptic_Marshal_eq) (auto simp: ecdsa_contract_def)
  then show ?thesis using assms(2)
    by (simp add: PubkeyToAddress_def address_of_def Keccak256_def BytesToAddress_def Address_SetBytes_def
        HashLength_def AddressLength_def)
qed



section \<open>The RLP round trip\<close>

definition big_item :: "int option \<Rightarrow> item" where
  "big_item x = Str (be_bytes (nat (case x of None \<Rightarrow> 0 | Some n \<Rightarrow> n)))"

definition tx_items :: "txdata \<Rightarrow> item list" where
  "tx_items d =
     [Str (be_bytes (unat (td_RandomId d))), big_item (td_Price d), Str (be_bytes (unat (td_GasLimit d))),
      Str (be_bytes (unat (td_BlockLimit d))), Str (case td_Recipient d of None \<Rightarrow> [] | Some a \<Rightarrow> a),
      big_item (td_Amount d), Str (td_Payload d), big_item (td_ChainId d), big_item (td_GroupId d),
      Str (td_ExtraData d), big_item (Some (td_V d)), big_item (Some (td_R d)), big_item (Some (td_S d))]"

text \<open>No number is negative, and the recipient is an address.\<close>

definition txdata_ok :: "txdata \<Rightarrow> bool" where
  "txdata_ok d \<longleftrightarrow>
     (\<forall>x \<in> {td_Price d, td_Amount d, td_ChainId d, td_GroupId d, Some (td_V d), Some (td_R d), Some (td_S d)}.
        case x of None \<Rightarrow> True | Some n \<Rightarrow> 0 \<le> n) \<and>
     (case td_Recipient d of None \<Rightarrow> True | Some a \<Rightarrow> length a = AddressLength)"

lemma txdata_structFields:
  "structFields txdata_fields =
     Inr [(0, ''RandomId'', no_tags, TUint 64), (1, ''Price'', no_tags, TPtr TBigInt),
       (2, ''GasLimit'', no_tags, TUint 64), (3, ''BlockLimit'', no_tags, TUint 64),
       (4, ''Recipient'', no_tags\<lparr>nilOK := True, nilKind := KString\<rparr>, TPtr address_type),
       (5, ''Amount'', no_tags, TPtr TBigInt), (6, ''Payload'', no_tags, TSlice (TUint 8)),
       (7, ''ChainId'', no_tags, TPtr TBigInt), (8, ''GroupId'', no_tags, TPtr TBigInt),
       (9, ''ExtraData'', no_tags, TSlice (TUint 8)), (10, ''V'', no_tags, TPtr TBigInt),
       (11, ''R'', no_tags, TPtr TBigInt), (12, ''S'', no_tags, TPtr TBigInt)]"
  by code_simp

lemma tx_type_writer: "makeWriterErr (TPtr tx_type) = None" "makeWriterErr txdata_type = None" "regular tx_type"
  by code_simp+

lemma big_items_of:
  "(case x of None \<Rightarrow> True | Some n \<Rightarrow> 0 \<le> n) \<Longrightarrow> items_of b (TPtr TBigInt) ts (big_rval x) = Inr [big_item x]"
  by (cases x) (simp_all add: big_rval_def big_item_def big_items_def)

lemma recipient_items_of:
  "items_of b (TPtr address_type) (no_tags\<lparr>nilOK := True, nilKind := KString\<rparr>) (bytes_rval x) =
     Inr [Str (case x of None \<Rightarrow> [] | Some a \<Rightarrow> a)]"
  by (cases x) (simp_all add: bytes_rval_def address_type_def nil_items_def bytes_items_def)

lemma tx_encode_spec:
  assumes "txdata_ok d"
  shows "items_of True txdata_type no_tags (txdata_rval d) = Inr [Lst (tx_items d)]"
    and "encode_spec (TPtr tx_type) (VPtr (txdata_rval d)) = Inr [Lst (tx_items d)]"
    and "encode_spec (TPtr txdata_type) (VPtr (txdata_rval d)) = Inr [Lst (tx_items d)]"
proof -
  have ok: "case x of None \<Rightarrow> True | Some n \<Rightarrow> 0 \<le> n"
    if "x \<in> {td_Price d, td_Amount d, td_ChainId d, td_GroupId d, Some (td_V d), Some (td_R d), Some (td_S d)}" for x
    using assms that unfolding txdata_ok_def by blast
  have sig: "0 \<le> td_V d" "0 \<le> td_R d" "0 \<le> td_S d" using assms unfolding txdata_ok_def by simp_all
  show it: "items_of True txdata_type no_tags (txdata_rval d) = Inr [Lst (tx_items d)]"
    unfolding txdata_type_def txdata_rval_def
    by (simp add: txdata_structFields recipient_items_of big_items_of ok sig bytes_items_def as_list_def tx_items_def
        del: items_of.simps(3))
  show "encode_spec (TPtr tx_type) (VPtr (txdata_rval d)) = Inr [Lst (tx_items d)]"
    using it by (simp add: encode_spec_def tx_type_writer) (simp add: tx_type_def tx_type_writer)
  show "encode_spec (TPtr txdata_type) (VPtr (txdata_rval d)) = Inr [Lst (tx_items d)]"
    using it tx_type_writer(2) encode_spec_ptr by blast
qed

interpretation hash_writer: io_writer hash_Write "(@)"
  by unfold_locales (simp_all add: hash_Write_def)

interpretation count_writer: io_writer writeCounter_Write "\<lambda>c b. c + of_nat (length b)"
  by unfold_locales (simp_all add: writeCounter_Write_def)

lemma rlpHash_spec:
  "encode_spec t v = Inr is \<Longrightarrow> length (rlps is) < 2 ^ 64 \<Longrightarrow> rlpHash keccak t v = keccak (rlps is)"
  by (auto elim: encode_reset simp: rlpHash_def Rlp_Encode.Encode_def hash_writer.toWriter_absorb)

lemma count_spec:
  "encode_spec t v = Inr is \<Longrightarrow> length (rlps is) < 2 ^ 64 \<Longrightarrow>
    snd (Rlp_Encode.Encode writeCounter_Write t v c) = c + of_nat (length (rlps is))"
  by (auto elim: encode_reset simp: Rlp_Encode.Encode_def count_writer.toWriter_absorb)

text \<open>What decoding can give back: all big integers are present and the hash field is empty.\<close>

definition txdata_full :: "txdata \<Rightarrow> bool" where
  "txdata_full d \<longleftrightarrow>
     td_Price d \<noteq> None \<and> td_Amount d \<noteq> None \<and> td_ChainId d \<noteq> None \<and> td_GroupId d \<noteq> None \<and> td_Hash d = None"

lemma rval_txdata_inverse [simp]: "rval_txdata (txdata_rval d) = d"
proof -
  have "rval_big (big_rval x) = x" "rval_bytes (bytes_rval y) = y" for x y
    by (cases x; simp add: big_rval_def) (cases y; simp add: bytes_rval_def)
  then show ?thesis by (simp add: rval_txdata_def txdata_rval_def rval_int_def)
qed

lemma u64_be_bytes: "length (be_bytes (unat (n :: u64))) \<le> 8"
  unfolding length_be_bytes_le by (rule u64_bound)

lemma txdata_rt_okI:
  assumes "length vs = 14" and "\<And>i. i \<in> {0, 2, 3} \<Longrightarrow> rt_ok (TUint 64) no_tags (vs ! i)"
    and "\<And>i. i \<in> {1, 5, 7, 8, 10, 11, 12} \<Longrightarrow> rt_ok (TPtr TBigInt) no_tags (vs ! i)"
    and "rt_ok (TPtr address_type) (no_tags\<lparr>nilOK := True, nilKind := KString\<rparr>) (vs ! 4)" and "vs ! 13 = VNil"
  shows "rt_ok txdata_type no_tags (VStruct vs)"
proof -
  have len: "length txdata_fields = 14" by (simp add: txdata_fields_def)
  have "vs ! j = zeroValue (f_type (txdata_fields ! j))"
    if "j < 14" "j \<notin> {0, 1, 2, 3, 4, 5, 6, 7, 8, 9, 10, 11, 12}" for j
  proof -
    have "j = 13" using that by (auto simp: eval_nat_numeral less_Suc_eq)
    then show ?thesis using assms(5) by (simp add: txdata_fields_def)
  qed
  then have z: "\<forall>j \<in> set [0..<14]. j \<notin> {0, 1, 2, 3, 4, 5, 6, 7, 8, 9, 10, 11, 12} \<longrightarrow>
      vs ! j = zeroValue (f_type (txdata_fields ! j))" by simp
  have bs: "rt_ok (TSlice (TUint 8)) no_tags v" for v by simp
  show ?thesis
    unfolding txdata_type_def rt_ok.simps(10) rval.case txdata_structFields sum.case len assms(1)
    using z assms(2-4) bs by (simp only: list.set image_insert image_empty fst_conv ball_simps prod.case simp_thms)
      (simp del: rt_ok.simps)
qed

lemma tx_rt_ok:
  assumes "txdata_ok d" "txdata_full d"
  shows "rt_ok tx_type no_tags (txdata_rval d)"
proof -
  have big: "rt_ok (TPtr TBigInt) no_tags (big_rval x)" if "x \<noteq> None" for x
    using that by (cases x) (simp_all add: big_rval_def)
  have rec: "rt_ok (TPtr address_type) (no_tags\<lparr>nilOK := True, nilKind := KString\<rparr>) (bytes_rval (td_Recipient d))"
    using assms(1)
    by (cases "td_Recipient d")
      (auto simp: bytes_rval_def address_type_def bytes_items_def txdata_ok_def AddressLength_def rlp_head_def)
  show ?thesis
    unfolding tx_type_def rt_ok.simps(4) txdata_rval_def
    using assms(2) rec by (intro txdata_rt_okI)
      (auto simp: big u64_be_bytes txdata_full_def bytes_rval_def [of None] simp del: rt_ok.simps(3))
qed

lemma Transaction_DecodeRLP_Kind:
  assumes "Kind s = (Inr (k, sz), s1)"
  shows "Stream_Decode fuel txdata_type s1 = Stream_Decode fuel txdata_type s"
proof -
  have "List s1 = List s" using assms Kind_idem [OF assms] by (simp add: List_def)
  then show ?thesis using tx_type_writer(2)
    by (simp add: Stream_Decode_def txdata_type_def txdata_structFields makeDecoderErr_eq)
qed

lemma Kind_Lst:
  assumes "lies_ahead [Lst xs] rest fuel s"
  obtains s1 where "Kind s = (Inr (KList, of_nat (length (rlps xs))), s1)"
proof -
  note la = lies_ahead_Lst [OF assms]
  let ?sz = "of_nat (length (rlps xs)) :: u64"
  have "length (rlps xs) \<le> allocLimit" using la(2,4) by simp
  then have u: "unat ?sz = length (rlps xs)" using allocLimit_less by (simp add: unat_of_nat)
  then have "rlp (Lst xs) = kind_head KList ?sz 0 @ rlps xs" by (auto simp: kind_head_def puthead_u64)
  then show ?thesis using Kind_fits [OF la(1), of KList ?sz 0 "rlps xs @ rest"] la(2,3) u that by auto
qed


definition sample_tx :: Transaction where
  "sample_tx = NewTransaction 1 2 (replicate 20 5) (Some 300) 4 (Some 5) [6] 7 8 []"


text \<open>
  The hash that an EIP155 signer signs leaves out the fields that this chain added to a
  transaction: they can be changed without touching the signature.
\<close>

lemma EIP155Signer_unsigned_fields:
  assumes "Protected tx"
  shows "Signer_Sender keccak lib (EIP155Signer c m) (tx\<lparr>tx_data := (tx_data tx)\<lparr>td_BlockLimit := n, td_ChainId := x,
      td_GroupId := g, td_ExtraData := e\<rparr>\<rparr>) = Signer_Sender keccak lib (EIP155Signer c m) tx"
  using assms by (simp add: EIP155Signer_Sender_def Protected_def Transaction_ChainId_def EIP155Signer_Hash_def Let_def)

text \<open>With chain number 0 the signature values are those of an unprotected transaction.\<close>

lemma EIP155Signer_zero:
  assumes "WithSignature tx (NewEIP155Signer None) sig = Some tx'" "sig ! 64 = 0 \<or> sig ! 64 = 1"
  shows "\<not> Protected tx' \<and> Signer_Sender keccak lib (NewEIP155Signer None) tx' =
    Signer_Sender keccak lib HomesteadSigner tx'"
proof -
  have "td_V (tx_data tx') = 27 \<or> td_V (tx_data tx') = 28"
    using assms by (auto simp: WithSignature_def NewEIP155Signer_def FrontierSigner_SignatureValues_def split: if_splits)
  moreover have "\<not> isProtectedV 27" "\<not> isProtectedV 28"
    by (simp_all add: isProtectedV_def BitLen_le big_Uint64_def)
  ultimately have "\<not> Protected tx'" by (auto simp: Protected_def)
  then show ?thesis by (simp add: NewEIP155Signer_def EIP155Signer_Sender_def)
qed

text \<open>\<^verbatim>\<open>deriveChainId\<close> of a value below 35 wraps around.\<close>

lemma deriveChainId_wraps: "deriveChainId 0 = 2 ^ 63 - 18" "isProtectedV 0"
  by (simp_all add: deriveChainId_def isProtectedV_def BitLen_le big_Uint64_def unat_div)

text \<open>The sender that a call has stored is the one a fresh call computes.\<close>

definition from_ok :: "(bytes \<Rightarrow> bytes) \<Rightarrow> libsecp256k1 \<Rightarrow> Transaction \<Rightarrow> bool" where
  "from_ok keccak lib tx =
     (case tx_from tx of
        None \<Rightarrow> True
      | Some (s, a) \<Rightarrow> signer_ok s \<and> Signer_Sender keccak lib s tx = Some (Inr a))"

lemma Signer_Equal_eq: "signer_ok s \<Longrightarrow> signer_ok s' \<Longrightarrow> Signer_Equal s s' \<longleftrightarrow> s = s'"
  by (cases s; cases s') auto

lemma Signer_Sender_cache [simp]:
  "Signer_Sender keccak lib s (tx\<lparr>tx_from := f\<rparr>) = Signer_Sender keccak lib s tx"
  by (cases s) (simp_all add: EIP155Signer_Sender_def HomesteadSigner_Sender_def FrontierSigner_Sender_def
      FrontierSigner_Hash_def EIP155Signer_Hash_def Protected_def Transaction_ChainId_def)

lemma Sender_cached:
  assumes "from_ok keccak lib tx" "signer_ok s" "Sender keccak lib s tx = Some (r, tx')"
  shows "Signer_Sender keccak lib s tx = Some r" "from_ok keccak lib tx'" "tx_data tx' = tx_data tx"
proof -
  have "(Signer_Sender keccak lib s tx = Some r \<and> from_ok keccak lib tx' \<and> tx_data tx' = tx_data tx)"
  proof (cases "tx_from tx")
    case None
    then show ?thesis using assms by (auto simp: Sender_def from_ok_def split: option.splits sum.splits)
  next
    case (Some c)
    then show ?thesis using assms Signer_Equal_eq [OF _ assms(2), of "fst c"]
      by (cases c) (auto simp: Sender_def from_ok_def split: option.splits sum.splits if_splits)
  qed
  then show "Signer_Sender keccak lib s tx = Some r" "from_ok keccak lib tx'" "tx_data tx' = tx_data tx" by blast+
qed

end
