(* ===== verification/Bloom.thy ===== *)
theory Bloom
  imports Transaction
begin

unbundle bit_operations_syntax

text \<open>
  \<^verbatim>\<open>core/types/bloom9.go\<close>, with the types of \<^verbatim>\<open>log.go\<close> and
  \<^verbatim>\<open>receipt.go\<close>: the bloom filter over the addresses and
  topics of logs.  The lemmas show that the filter has no false negatives.
\<close>

section \<open>Logs and receipts\<close>

record Log =
  log_Address :: bytes
  log_Topics :: "bytes list"
  log_Data :: bytes
  log_BlockNumber :: u64
  log_TxHash :: bytes
  log_TxIndex :: u64
  log_BlockHash :: bytes
  log_Index :: u64
  log_Removed :: bool

record Receipt =
  rc_BlockHash :: bytes
  rc_BlockNumber :: string
  rc_ContractAddress :: bytes
  rc_From :: bytes
  rc_GasUsed :: string
  rc_Input :: string
  rc_Logs :: "Log list"
  rc_Bloom :: bytes
  rc_Output :: string
  rc_Status :: string
  rc_To :: bytes
  rc_TxHash :: bytes
  rc_TxIndex :: string

section \<open>The filter\<close>

definition BloomByteLength :: nat where
  "BloomByteLength = 256"

definition BloomBitLength :: nat where
  "BloomBitLength = 8 * BloomByteLength"

text \<open>A value that is too long is a panic; a shorter one leaves the bytes before it as they are.\<close>

definition Bloom_SetBytes :: "bytes \<Rightarrow> bytes \<Rightarrow> bytes option" where
  "Bloom_SetBytes b d =
     (if length b < length d then None
      else Some (snd (go_copy (BloomByteLength - length d) d b)))"

definition BytesToBloom :: "bytes \<Rightarrow> bytes option" where
  "BytesToBloom b = Bloom_SetBytes (replicate BloomByteLength 0) b"

definition bloom_index :: "bytes \<Rightarrow> nat \<Rightarrow> nat" where
  "bloom_index b i = (unat (b ! (i + 1)) + push_bit 8 (unat (b ! i))) AND 2047"

definition bloom9 :: "(bytes \<Rightarrow> bytes) \<Rightarrow> bytes \<Rightarrow> int" where
  "bloom9 keccak b =
     (let b = Keccak256 keccak [b]
      in foldl (\<lambda>r i. r OR push_bit (bloom_index b i) 1) 0 [0, 2, 4])"

definition Bloom_Add :: "(bytes \<Rightarrow> bytes) \<Rightarrow> bytes \<Rightarrow> int \<Rightarrow> bytes option" where
  "Bloom_Add keccak b d =
     (let bin = int (be_val b);
          bin = bin OR bloom9 keccak (be_bytes (nat \<bar>d\<bar>))
      in Bloom_SetBytes b (be_bytes (nat \<bar>bin\<bar>)))"

definition Bloom_Big :: "bytes \<Rightarrow> int" where
  "Bloom_Big b = int (be_val b)"

text \<open>The argument is the bytes of the topic.\<close>

definition BloomLookup :: "(bytes \<Rightarrow> bytes) \<Rightarrow> bytes \<Rightarrow> bytes \<Rightarrow> bool" where
  "BloomLookup keccak bin topic =
     (let bloom = Bloom_Big bin;
          cmp = bloom9 keccak topic
      in bloom AND cmp = cmp)"

definition Bloom_Test :: "(bytes \<Rightarrow> bytes) \<Rightarrow> bytes \<Rightarrow> int \<Rightarrow> bool" where
  "Bloom_Test keccak b test = BloomLookup keccak b (be_bytes (nat \<bar>test\<bar>))"

definition Bloom_TestBytes :: "(bytes \<Rightarrow> bytes) \<Rightarrow> bytes \<Rightarrow> bytes \<Rightarrow> bool" where
  "Bloom_TestBytes keccak b test = Bloom_Test keccak b (int (be_val test))"

definition Bloom_MarshalText :: "bytes \<Rightarrow> bytes" where
  "Bloom_MarshalText b = Bytes_MarshalText b"

definition Bloom_UnmarshalText :: "bytes \<Rightarrow> bytes \<Rightarrow> hexutil_error option \<times> bytes" where
  "Bloom_UnmarshalText b input = UnmarshalFixedText ''Bloom'' input b"

definition LogsBloom :: "(bytes \<Rightarrow> bytes) \<Rightarrow> Log list \<Rightarrow> int" where
  "LogsBloom keccak logs =
     foldl (\<lambda>bin log.
         foldl (\<lambda>bin b. bin OR bloom9 keccak b) (bin OR bloom9 keccak (log_Address log)) (log_Topics log))
       0 logs"

definition CreateBloom :: "(bytes \<Rightarrow> bytes) \<Rightarrow> Receipt list \<Rightarrow> bytes option" where
  "CreateBloom keccak receipts =
     (let bin = foldl (\<lambda>bin receipt. bin OR LogsBloom keccak (rc_Logs receipt)) 0 receipts
      in BytesToBloom (be_bytes (nat \<bar>bin\<bar>)))"

section \<open>Bits\<close>

text \<open>\<open>covers a b\<close>: every bit of \<open>b\<close> is a bit of \<open>a\<close>.\<close>

definition covers :: "int \<Rightarrow> int \<Rightarrow> bool" where
  "covers a b \<longleftrightarrow> a AND b = b"

lemma covers_iff: "covers a b \<longleftrightarrow> (\<forall>n. bit b n \<longrightarrow> bit a n)"
  by (auto simp: covers_def bit_eq_iff bit_and_iff)

lemma covers_refl [simp]: "covers a a" and covers_or [intro]: "covers a c \<Longrightarrow> covers (a OR b) c"
    "covers b c \<Longrightarrow> covers (a OR b) c"
  by (auto simp: covers_iff bit_or_iff)

lemma or_less: "0 \<le> a \<Longrightarrow> a < 2 ^ n \<Longrightarrow> 0 \<le> b \<Longrightarrow> b < 2 ^ n \<Longrightarrow> 0 \<le> a OR b \<and> a OR b < (2 ^ n :: int)"
  by (simp add: OR_upper)

lemma bloom_index_less: "bloom_index b i < BloomBitLength"
proof -
  have "(2047 :: nat) = mask 11" by (simp add: mask_eq_exp_minus_1)
  then have "bloom_index b i = take_bit 11 (unat (b ! (i + 1)) + push_bit 8 (unat (b ! i)))"
    unfolding bloom_index_def by (simp only: take_bit_eq_mask)
  then have "bloom_index b i < 2 ^ 11" by (simp only: take_bit_nat_less_exp)
  then show ?thesis by (simp add: BloomBitLength_def BloomByteLength_def)
qed

definition in_range :: "int \<Rightarrow> bool" where
  "in_range a \<longleftrightarrow> 0 \<le> a \<and> a < 2 ^ BloomBitLength"

lemma in_range_or [intro]: "in_range a \<Longrightarrow> in_range b \<Longrightarrow> in_range (a OR b)"
  using or_less by (simp add: in_range_def)

lemma in_range_0 [simp]: "in_range 0"
  by (simp add: in_range_def)

lemma bloom9_in_range: "in_range (bloom9 keccak b)"
proof -
  have "in_range (push_bit (bloom_index x i) 1)" for x i
    using bloom_index_less [of x i] by (simp add: in_range_def push_bit_eq_mult power_strict_increasing)
  then show ?thesis by (simp add: bloom9_def Let_def in_range_or)
qed

lemma bit_foldl_or: "bit (foldl (\<lambda>bin x. bin OR f x) a xs) n \<longleftrightarrow> bit a n \<or> (\<exists>x \<in> set xs. bit (f x :: int) n)"
  by (induction xs arbitrary: a) (auto simp: bit_or_iff)

lemma in_range_foldl_or: "in_range a \<Longrightarrow> (\<And>x. in_range (f x)) \<Longrightarrow> in_range (foldl (\<lambda>bin x. bin OR f x) a xs)"
  by (induction xs arbitrary: a) (auto intro: in_range_or)

lemma LogsBloom_eq:
  "LogsBloom keccak logs =
     foldl (\<lambda>bin log. bin OR foldl (\<lambda>bin b. bin OR bloom9 keccak b) (bloom9 keccak (log_Address log)) (log_Topics log)) 0 logs"
proof -
  have "foldl (\<lambda>bin b. bin OR bloom9 keccak b) (a OR c) ts = a OR foldl (\<lambda>bin b. bin OR bloom9 keccak b) c ts" for a c ts
    by (induction ts arbitrary: c) (simp_all add: or.assoc)
  then show ?thesis by (simp add: LogsBloom_def)
qed

lemma bit_LogsBloom:
  "bit (LogsBloom keccak logs) n \<longleftrightarrow>
     (\<exists>log \<in> set logs. bit (bloom9 keccak (log_Address log)) n \<or> (\<exists>t \<in> set (log_Topics log). bit (bloom9 keccak t) n))"
  by (simp add: LogsBloom_eq bit_foldl_or)

lemma LogsBloom_in_range: "in_range (LogsBloom keccak logs)"
  unfolding LogsBloom_eq by (intro in_range_foldl_or in_range_0 bloom9_in_range)

section \<open>Filters as bytes\<close>

lemma in_range_bytes:
  assumes "in_range n"
  shows "length (be_bytes (nat \<bar>n\<bar>)) \<le> BloomByteLength" "int (be_val (be_fixed BloomByteLength (nat \<bar>n\<bar>))) = n"
proof -
  have "nat \<bar>n\<bar> < 256 ^ BloomByteLength"
    using assms by (simp add: in_range_def nat_less_iff BloomBitLength_def power_mult)
  then show "length (be_bytes (nat \<bar>n\<bar>)) \<le> BloomByteLength" "int (be_val (be_fixed BloomByteLength (nat \<bar>n\<bar>))) = n"
    using assms by (simp_all add: length_be_bytes_le in_range_def)
qed

lemma Bloom_SetBytes_above:
  assumes "length b = BloomByteLength" "in_range n" "int (be_val b) \<le> n"
  shows "Bloom_SetBytes b (be_bytes (nat \<bar>n\<bar>)) = Some (be_fixed BloomByteLength (nat \<bar>n\<bar>))"
proof -
  let ?l = "length (be_bytes (nat \<bar>n\<bar>))" and ?k = BloomByteLength
  have l: "?l \<le> ?k" using in_range_bytes(1) [OF assms(2)] .
  have "be_val b \<le> nat \<bar>n\<bar>" using assms(3) by simp
  also have "nat \<bar>n\<bar> < 256 ^ ?l" using length_be_bytes_le [of "nat \<bar>n\<bar>" ?l] by simp
  finally have "be_fixed (?k - ?l + ?l) (be_val b) = replicate (?k - ?l) 0 @ be_fixed ?l (be_val b)"
    by (simp only: be_fixed_add div_less be_fixed_zero)
  then have "be_fixed ?k (be_val b) = replicate (?k - ?l) 0 @ be_fixed ?l (be_val b)" using l by simp
  then have "b = replicate (?k - ?l) 0 @ be_fixed ?l (be_val b)" using be_fixed_be_val [OF assms(1)] by simp
  then have "take (?k - ?l) b = replicate (?k - ?l) 0" by (metis append_eq_conv_conj length_replicate)
  then show ?thesis using l assms(1)
    by (simp add: Bloom_SetBytes_def go_copy_fits be_fixed_pad)
qed

lemma BloomLookup_covers: "BloomLookup keccak b t \<longleftrightarrow> covers (int (be_val b)) (bloom9 keccak t)"
  by (simp add: BloomLookup_def Bloom_Big_def covers_def Let_def)

lemma le_or: "0 \<le> a \<Longrightarrow> 0 \<le> b \<Longrightarrow> a \<le> a OR (b :: int)"
proof -
  assume ab: "0 \<le> a" "0 \<le> b"
  have "a = (a OR b) AND a" by (auto simp: bit_eq_iff bit_simps)
  also have "\<dots> \<le> a OR b" using ab by (intro AND_upper1) simp
  finally show ?thesis .
qed

text \<open>
  C12: the bloom filter has no false negatives and never panics. After \<^verbatim>\<open>Add\<close> a filter finds the
  value that was added and everything that it found before; the filter of a list of receipts
  finds the address and every topic of every log.
\<close>

theorem bloom_no_false_negatives:
  assumes "length b = BloomByteLength"
  shows "(\<exists>b'. Bloom_Add keccak b d = Some b' \<and> length b' = BloomByteLength \<and> Bloom_Test keccak b' d \<and>
            (\<forall>t. BloomLookup keccak b t \<longrightarrow> BloomLookup keccak b' t)) \<and>
         (\<exists>b'. CreateBloom keccak receipts = Some b' \<and> length b' = BloomByteLength \<and>
            (\<forall>receipt \<in> set receipts. \<forall>log \<in> set (rc_Logs receipt). BloomLookup keccak b' (log_Address log) \<and>
               (\<forall>t \<in> set (log_Topics log). BloomLookup keccak b' t)))"
proof -
  have "be_val b < 256 ^ BloomByteLength" using be_val_less [of b] assms by simp
  then have r: "in_range (int (be_val b))"
    by (simp add: in_range_def BloomBitLength_def power_mult)
  define n where "n = int (be_val b) OR bloom9 keccak (be_bytes (nat \<bar>d\<bar>))"
  have nr: "in_range n" unfolding n_def using r bloom9_in_range by blast
  have "int (be_val b) \<le> n" unfolding n_def using bloom9_in_range by (intro le_or) (auto simp: in_range_def)
  then have add: "Bloom_Add keccak b d = Some (be_fixed BloomByteLength (nat \<bar>n\<bar>))"
    using Bloom_SetBytes_above [OF assms nr] by (simp add: Bloom_Add_def Let_def n_def)
  define m where "m = foldl (\<lambda>bin receipt. bin OR LogsBloom keccak (rc_Logs receipt)) 0 receipts"
  have mr: "in_range m" unfolding m_def by (intro in_range_foldl_or in_range_0 LogsBloom_in_range)
  have "int (be_val (replicate BloomByteLength 0)) \<le> m" using mr be_val_be_fixed [of BloomByteLength 0]
    by (simp add: in_range_def)
  then have cr: "CreateBloom keccak receipts = Some (be_fixed BloomByteLength (nat \<bar>m\<bar>))"
    using Bloom_SetBytes_above [OF _ mr, of "replicate BloomByteLength 0"]
    by (simp add: CreateBloom_def BytesToBloom_def m_def Let_def)
  have "bit n i \<longleftrightarrow> bit (int (be_val b)) i \<or> bit (bloom9 keccak (be_bytes (nat \<bar>d\<bar>))) i"
    "bit m i \<longleftrightarrow> (\<exists>receipt \<in> set receipts. bit (LogsBloom keccak (rc_Logs receipt)) i)" for i
    by (simp_all add: n_def m_def bit_or_iff bit_foldl_or)
  note bits = this
  obtain bn bm where "Bloom_Add keccak b d = Some bn" "length bn = BloomByteLength" "int (be_val bn) = n"
    and "CreateBloom keccak receipts = Some bm" "length bm = BloomByteLength" "int (be_val bm) = m"
    using add cr in_range_bytes(2) [OF nr] in_range_bytes(2) [OF mr] length_be_fixed by blast
  then show ?thesis unfolding Bloom_Test_def BloomLookup_covers covers_iff
    by (auto simp: bits bit_LogsBloom)
qed

definition flat_keccak :: "bytes \<Rightarrow> bytes" where
  "flat_keccak x = replicate 32 (of_nat (length x))"

theorem bloom_no_false_negatives_witness:
  "(\<exists>b'. Bloom_Add flat_keccak (replicate BloomByteLength 0) 1000 = Some b' \<and> Bloom_Test flat_keccak b' 1000) \<and>
   \<not> Bloom_Test flat_keccak (replicate BloomByteLength 0) 1000"
proof -
  have z: "be_val (replicate BloomByteLength 0) = 0"
    using be_val_be_fixed [of BloomByteLength 0] by simp
  have "\<not> Bloom_Test flat_keccak (replicate BloomByteLength 0) 1000"
    unfolding Bloom_Test_def BloomLookup_def Bloom_Big_def z
    by (simp add: bloom9_def flat_keccak_def Keccak256_def bloom_index_def Let_def)
  then show ?thesis
    using bloom_no_false_negatives [of "replicate BloomByteLength 0" flat_keccak 1000 "[]"] by auto
qed

text \<open>
  \<^verbatim>\<open>TestBytes\<close> goes through an integer, which drops leading zero bytes, and so does not find an
  address that starts with one.
\<close>

lemma TestBytes_drops_zeros: "Bloom_TestBytes keccak b (0 # t) = Bloom_TestBytes keccak b t"
  by (simp add: Bloom_TestBytes_def)

end
