(* ===== verification/Bitutil.thy ===== *)
theory Bitutil
  imports Prelude
begin

unbundle bit_operations_syntax

text \<open>
  \<^verbatim>\<open>common/bitutil\<close>: bytewise operations, one byte and one machine word at a time, and the
  compression of byte strings with many zeros.  The lemmas show that the fast variants compute
  what the simple ones do, and that compression and decompression are inverse.
\<close>

section \<open>Bytewise operations\<close>

text \<open>
  Words of memory on \<^verbatim>\<open>amd64\<close>, least significant byte first: \<open>load_word\<close> and \<open>store_word\<close> are the
  accesses through a slice that was cast to \<^verbatim>\<open>[]uintptr\<close>.
\<close>

definition wordSize :: nat where
  "wordSize = 8"

definition load_word :: "bytes \<Rightarrow> nat \<Rightarrow> u64" where
  "load_word xs i = of_nat (be_val (rev (take wordSize (drop (wordSize * i) xs))))"

definition store_word :: "bytes \<Rightarrow> nat \<Rightarrow> u64 \<Rightarrow> bytes" where
  "store_word xs i w =
     take (wordSize * i) xs @ rev (be_fixed wordSize (unat w)) @ drop (wordSize * i + wordSize) xs"

text \<open>
  The two loops of the fast variants, for the operation on words and on bytes. Operands are read
  where the destination is written next, so the destination may be one of the operands.
\<close>

definition fast_loops ::
    "(u64 \<Rightarrow> u64 \<Rightarrow> u64) \<Rightarrow> (byte \<Rightarrow> byte \<Rightarrow> byte) \<Rightarrow> nat \<Rightarrow> bytes \<Rightarrow> bytes \<Rightarrow> bytes \<Rightarrow> bytes" where
  "fast_loops fw fb n dst a b =
     (let w = n div wordSize;
          dst = foldl (\<lambda>d i. store_word d i (fw (load_word a i) (load_word b i))) dst [0..<w]
      in foldl (\<lambda>d i. d[i := fb (a ! i) (b ! i)]) dst [n - n mod wordSize..<n])"

definition safe_loop :: "(byte \<Rightarrow> byte \<Rightarrow> byte) \<Rightarrow> nat \<Rightarrow> bytes \<Rightarrow> bytes \<Rightarrow> bytes \<Rightarrow> bytes" where
  "safe_loop fb n dst a b = foldl (\<lambda>d i. d[i := fb (a ! i) (b ! i)]) dst [0..<n]"

text \<open>
  All of them return the number of bytes and the destination. A destination without enough
  space, which the callers have to avoid, has no result.
\<close>

definition fastXORBytes :: "bytes \<Rightarrow> bytes \<Rightarrow> bytes \<Rightarrow> (nat \<times> bytes) option" where
  "fastXORBytes dst a b =
     (let n = length a; n = (if length b < n then length b else n) in
      if length dst < n then None else Some (n, fast_loops (XOR) (XOR) n dst a b))"

definition safeXORBytes :: "bytes \<Rightarrow> bytes \<Rightarrow> bytes \<Rightarrow> (nat \<times> bytes) option" where
  "safeXORBytes dst a b =
     (let n = length a; n = (if length b < n then length b else n) in
      if length dst < n then None else Some (n, safe_loop (XOR) n dst a b))"

definition fastANDBytes :: "bytes \<Rightarrow> bytes \<Rightarrow> bytes \<Rightarrow> (nat \<times> bytes) option" where
  "fastANDBytes dst a b =
     (let n = length a; n = (if length b < n then length b else n) in
      if length dst < n then None else Some (n, fast_loops (AND) (AND) n dst a b))"

definition safeANDBytes :: "bytes \<Rightarrow> bytes \<Rightarrow> bytes \<Rightarrow> (nat \<times> bytes) option" where
  "safeANDBytes dst a b =
     (let n = length a; n = (if length b < n then length b else n) in
      if length dst < n then None else Some (n, safe_loop (AND) n dst a b))"

definition fastORBytes :: "bytes \<Rightarrow> bytes \<Rightarrow> bytes \<Rightarrow> (nat \<times> bytes) option" where
  "fastORBytes dst a b =
     (let n = length a; n = (if length b < n then length b else n) in
      if length dst < n then None else Some (n, fast_loops (OR) (OR) n dst a b))"

definition safeORBytes :: "bytes \<Rightarrow> bytes \<Rightarrow> bytes \<Rightarrow> (nat \<times> bytes) option" where
  "safeORBytes dst a b =
     (let n = length a; n = (if length b < n then length b else n) in
      if length dst < n then None else Some (n, safe_loop (OR) n dst a b))"

definition fastTestBytes :: "bytes \<Rightarrow> bool" where
  "fastTestBytes p =
     (let n = length p; w = n div wordSize in
      (\<exists>i \<in> set [0..<w]. load_word p i \<noteq> 0) \<or> (\<exists>i \<in> set [n - n mod wordSize..<n]. p ! i \<noteq> 0))"

definition safeTestBytes :: "bytes \<Rightarrow> bool" where
  "safeTestBytes p = (\<exists>i \<in> set [0..<length p]. p ! i \<noteq> 0)"

text \<open>The choice between the variants depends on the architecture.\<close>

definition XORBytes :: "bool \<Rightarrow> bytes \<Rightarrow> bytes \<Rightarrow> bytes \<Rightarrow> (nat \<times> bytes) option" where
  "XORBytes supportsUnaligned dst a b =
     (if supportsUnaligned then fastXORBytes dst a b else safeXORBytes dst a b)"

definition ANDBytes :: "bool \<Rightarrow> bytes \<Rightarrow> bytes \<Rightarrow> bytes \<Rightarrow> (nat \<times> bytes) option" where
  "ANDBytes supportsUnaligned dst a b =
     (if supportsUnaligned then fastANDBytes dst a b else safeANDBytes dst a b)"

definition ORBytes :: "bool \<Rightarrow> bytes \<Rightarrow> bytes \<Rightarrow> bytes \<Rightarrow> (nat \<times> bytes) option" where
  "ORBytes supportsUnaligned dst a b =
     (if supportsUnaligned then fastORBytes dst a b else safeORBytes dst a b)"

definition TestBytes :: "bool \<Rightarrow> bytes \<Rightarrow> bool" where
  "TestBytes supportsUnaligned p = (if supportsUnaligned then fastTestBytes p else safeTestBytes p)"

section \<open>Compression\<close>

datatype bitset_error = errMissingData | errUnreferencedData | errExceededTarget | errZeroContent

text \<open>The loop over the data: the non-zero bytes so far and the bitset.\<close>

definition encode_step :: "bytes \<Rightarrow> bytes \<times> bytes \<Rightarrow> nat \<Rightarrow> bytes \<times> bytes" where
  "encode_step data = (\<lambda>(nonZeroBytes, nonZeroBitset) i.
     if data ! i \<noteq> 0
     then (nonZeroBytes @ [data ! i],
           nonZeroBitset[i div 8 := nonZeroBitset ! (i div 8) OR push_bit (7 - i mod 8) 1])
     else (nonZeroBytes, nonZeroBitset))"

definition encode_loop :: "bytes \<Rightarrow> bytes \<times> bytes" where
  "encode_loop data = foldl (encode_step data) ([], replicate ((length data + 7) div 8) 0) [0..<length data]"

lemma length_encode_steps: "length (snd (foldl (encode_step data) s xs)) = length (snd s)"
  by (induction xs arbitrary: s) (auto simp: encode_step_def split: prod.splits)

lemma length_encode_loop: "length (snd (encode_loop data)) = (length data + 7) div 8"
  by (simp add: encode_loop_def length_encode_steps)

function bitsetEncodeBytes :: "bytes \<Rightarrow> bytes" where
  "bitsetEncodeBytes data =
     (if length data = 0 then []
      else if length data = 1 then (if data ! 0 = 0 then [] else data)
      else
        (let (nonZeroBytes, nonZeroBitset) = encode_loop data in
         if length nonZeroBytes = 0 then []
         else bitsetEncodeBytes nonZeroBitset @ nonZeroBytes))"
  by pat_completeness auto
termination
proof (relation "measure length", goal_cases)
  case (2 data p nzb nzs)
  have "length nzs = (length data + 7) div 8" using 2(3,4) length_encode_loop [of data] by (metis snd_conv)
  moreover have "2 \<le> length data" using 2(1,2) by (cases "length data") auto
  ultimately show ?case by simp
qed simp

declare bitsetEncodeBytes.simps [simp del]

definition CompressBytes :: "bytes \<Rightarrow> bytes" where
  "CompressBytes data =
     (let out = bitsetEncodeBytes data in if length out < length data then out else data)"

definition decode_step ::
    "bytes \<Rightarrow> bytes \<Rightarrow> bitset_error + bytes \<times> nat \<Rightarrow> nat \<Rightarrow> bitset_error + bytes \<times> nat" where
  "decode_step data nonZeroBitset st i =
     (case st of
        Inl err \<Rightarrow> Inl err
      | Inr (decomp, ptr) \<Rightarrow>
          if nonZeroBitset ! (i div 8) AND push_bit (7 - i mod 8) 1 \<noteq> 0 then
            (if ptr \<ge> length data then Inl errMissingData
             else if i \<ge> length decomp then Inl errExceededTarget
             else if data ! ptr = 0 then Inl errZeroContent
             else Inr (decomp[i := data ! ptr], ptr + 1))
          else Inr (decomp, ptr))"

function bitsetDecodePartialBytes :: "bytes \<Rightarrow> nat \<Rightarrow> bitset_error + bytes \<times> nat" where
  "bitsetDecodePartialBytes data target =
     (if target = 0 then Inr ([], 0)
      else if length data = 0 then Inr (replicate target 0, 0)
      else if target = 1 then Inr ([data ! 0], if data ! 0 \<noteq> 0 then 1 else 0)
      else
        (case bitsetDecodePartialBytes data ((target + 7) div 8) of
           Inl err \<Rightarrow> Inl err
         | Inr (nonZeroBitset, ptr) \<Rightarrow>
             foldl (decode_step data nonZeroBitset) (Inr (replicate target 0, ptr))
               [0..<8 * length nonZeroBitset]))"
  by pat_completeness auto
termination
  by (relation "measure snd") auto

declare bitsetDecodePartialBytes.simps [simp del]

definition bitsetDecodeBytes :: "bytes \<Rightarrow> nat \<Rightarrow> bitset_error + bytes" where
  "bitsetDecodeBytes data target =
     (case bitsetDecodePartialBytes data target of
        Inl err \<Rightarrow> Inl err
      | Inr (out, sz) \<Rightarrow> if sz \<noteq> length data then Inl errUnreferencedData else Inr out)"

definition DecompressBytes :: "bytes \<Rightarrow> nat \<Rightarrow> bitset_error + bytes" where
  "DecompressBytes data target =
     (if length data > target then Inl errExceededTarget
      else if length data = target then Inr data
      else bitsetDecodeBytes data target)"

text \<open>The fuzz targets of \<open>compress_fuzz.go\<close>; \<open>None\<close> is the panic.\<close>

definition fuzzEncode :: "bytes \<Rightarrow> int option" where
  "fuzzEncode data =
     (let proc = (case bitsetDecodeBytes (bitsetEncodeBytes data) (length data) of Inl err \<Rightarrow> [] | Inr out \<Rightarrow> out)
      in if data \<noteq> proc then None else Some 0)"

definition fuzzDecode :: "bytes \<Rightarrow> int option" where
  "fuzzDecode data =
     (case bitsetDecodeBytes data 1024 of
        Inl err \<Rightarrow> Some 0
      | Inr blob \<Rightarrow> if bitsetEncodeBytes blob \<noteq> data then None else Some 0)"

definition Fuzz :: "bytes \<Rightarrow> int option" where
  "Fuzz data =
     (if length data = 0 then Some (- 1)
      else if data ! 0 mod 2 = 0 then fuzzEncode (drop 1 data)
      else fuzzDecode (drop 1 data))"

section \<open>Fast and safe variants agree\<close>

lemma bit_le_val:
  "bit (be_val (rev xs)) k \<longleftrightarrow> k div 8 < length xs \<and> bit (xs ! (k div 8)) (k mod 8)"
proof (induction xs arbitrary: k)
  case (Cons x xs)
  have "be_val (rev (x # xs)) = push_bit 8 (be_val (rev xs)) + unat x" by (simp add: push_bit_eq_mult)
  also have "\<dots> = push_bit 8 (be_val (rev xs)) OR unat x"
  proof (rule disjunctive_add)
    fix n
    have "\<not> bit (unat x) n" if "8 \<le> n"
      using that bit_imp_le_length [of x n] by (auto simp: bit_unsigned_iff)
    then show "\<not> bit (push_bit 8 (be_val (rev xs))) n \<or> \<not> bit (unat x) n"
      by (auto simp: bit_push_bit_iff)
  qed
  finally have e: "be_val (rev (x # xs)) = push_bit 8 (be_val (rev xs)) OR unat x" .
  show ?case
  proof (cases "k < 8")
    case True
    then show ?thesis unfolding e by (auto simp: bit_or_iff bit_push_bit_iff bit_unsigned_iff)
  next
    case False
    then have "k div 8 = Suc ((k - 8) div 8)" "k mod 8 = (k - 8) mod 8"
      by (simp_all add: le_div_geq le_mod_geq)
    moreover have "\<not> bit (unat x) k" using False bit_imp_le_length [of x k] by (auto simp: bit_unsigned_iff)
    ultimately show ?thesis unfolding e using Cons.IH [of "k - 8"] False
      by (auto simp: bit_or_iff bit_push_bit_iff)
  qed
qed simp

lemma bit_load_word:
  assumes "wordSize * i + wordSize \<le> length xs" "k < 64"
  shows "bit (load_word xs i) k \<longleftrightarrow> bit (xs ! (wordSize * i + k div 8)) (k mod 8)"
proof -
  have "k div 8 < 8" using assms(2) by simp
  then show ?thesis using assms unfolding load_word_def
    by (simp add: bit_of_nat_iff bit_le_val wordSize_def)
qed

lemma nth_be_fixed: "j < k \<Longrightarrow> rev (be_fixed k n) ! j = of_nat (n div 256 ^ j)"
proof (induction k arbitrary: j n)
  case (Suc k)
  then show ?case by (cases j) (simp_all add: div_mult2_eq word_unat_eq_iff)
qed simp

lemma nth_stored:
  assumes "j < wordSize" "m < 8"
  shows "bit (rev (be_fixed wordSize (unat w)) ! j) m \<longleftrightarrow> bit w (8 * j + m)"
proof -
  have "(256 :: nat) ^ j = 2 ^ (8 * j)" by (simp add: power_mult)
  then have "rev (be_fixed wordSize (unat w)) ! j = of_nat (drop_bit (8 * j) (unat w))"
    using nth_be_fixed [OF assms(1), of "unat w"] by (simp add: drop_bit_eq_div)
  then show ?thesis using assms
    by (simp add: bit_of_nat_iff bit_drop_bit_eq bit_unsigned_iff wordSize_def)
qed

lemma length_store_word: "wordSize * i + wordSize \<le> length d \<Longrightarrow> length (store_word d i w) = length d"
  by (simp add: store_word_def)

lemma nth_store_word:
  assumes "wordSize * i + wordSize \<le> length d" "j < length d"
  shows "store_word d i w ! j =
    (if j div wordSize = i then rev (be_fixed wordSize (unat w)) ! (j mod wordSize) else d ! j)"
proof -
  consider "j < wordSize * i" | "wordSize * i \<le> j" "j < wordSize * i + wordSize" | "wordSize * i + wordSize \<le> j" by linarith
  then show ?thesis
  proof cases
    case 1
    then have "j div wordSize < i" by (simp add: wordSize_def div_less_iff_less_mult mult.commute)
    then show ?thesis using 1 assms by (simp add: store_word_def nth_append)
  next
    case 2
    then have "j div wordSize = i" "j mod wordSize = j - wordSize * i"
      by (auto simp: wordSize_def div_nat_eqI modulo_nat_def)
    moreover have "j - wordSize * i < wordSize" using 2 by simp
    ultimately show ?thesis using 2 assms by (simp add: store_word_def nth_append)
  next
    case 3
    then have "i < j div wordSize" by (simp add: wordSize_def less_eq_div_iff_mult_less_eq Suc_le_eq [symmetric] mult.commute)
    moreover have "\<not> j - wordSize * i < wordSize" using 3 by simp
    ultimately show ?thesis using 3 assms by (simp add: store_word_def nth_append)
  qed
qed

lemma update_loop:
  "length (foldl (\<lambda>d i. d[i := f i]) dst [m..<n]) = length dst"
  "j < length dst \<Longrightarrow> foldl (\<lambda>d i. d[i := f i]) dst [m..<n] ! j = (if m \<le> j \<and> j < n then f j else dst ! j)"
proof (induction n)
  case (Suc n)
  { case 1 show ?case using Suc(1) by simp }
  { case 2 show ?case using Suc 2 by (cases "j = n") (auto simp: nth_list_update) }
qed simp_all

text \<open>An operation on words and the one on bytes that do the same with every bit.\<close>

locale bytewise =
  fixes fw :: "u64 \<Rightarrow> u64 \<Rightarrow> u64" and fb :: "byte \<Rightarrow> byte \<Rightarrow> byte" and g :: "bool \<Rightarrow> bool \<Rightarrow> bool"
  assumes bit_fw: "k < 64 \<Longrightarrow> bit (fw x y) k = g (bit x k) (bit y k)"
    and bit_fb: "k < 8 \<Longrightarrow> bit (fb c d) k = g (bit c k) (bit d k)"
begin

lemma stored_byte:
  assumes "wordSize * i + wordSize \<le> length a" "wordSize * i + wordSize \<le> length b" "j < wordSize"
  shows "rev (be_fixed wordSize (unat (fw (load_word a i) (load_word b i)))) ! j =
    fb (a ! (wordSize * i + j)) (b ! (wordSize * i + j))"
proof (rule bit_word_eqI)
  fix m assume "m < LENGTH(8)"
  then have m: "m < 8" by simp
  then have k: "8 * j + m < 64" "(8 * j + m) div 8 = j" "(8 * j + m) mod 8 = m"
    using assms(3) by (simp_all add: wordSize_def)
  show "bit (rev (be_fixed wordSize (unat (fw (load_word a i) (load_word b i)))) ! j) m =
      bit (fb (a ! (wordSize * i + j)) (b ! (wordSize * i + j))) m"
    unfolding nth_stored [OF assms(3) m] bit_fw [OF k(1)] bit_load_word [OF assms(1) k(1)]
      bit_load_word [OF assms(2) k(1)] k bit_fb [OF m] ..
qed

lemma word_loop:
  assumes "wordSize * w \<le> length a" "wordSize * w \<le> length b" "wordSize * w \<le> length dst"
  defines "d \<equiv> foldl (\<lambda>d i. store_word d i (fw (load_word a i) (load_word b i))) dst [0..<w]"
  shows "length d = length dst"
    and "j < length dst \<Longrightarrow> d ! j = (if j < wordSize * w then fb (a ! j) (b ! j) else dst ! j)"
proof -
  have "length d = length dst \<and> (\<forall>j < length dst. d ! j = (if j < wordSize * w then fb (a ! j) (b ! j) else dst ! j))"
    using assms(1-3) unfolding d_def
  proof (induction w)
    case (Suc w)
    let ?d = "foldl (\<lambda>d i. store_word d i (fw (load_word a i) (load_word b i))) dst [0..<w]"
    have IH: "length ?d = length dst" "\<And>j. j < length dst \<Longrightarrow> ?d ! j = (if j < wordSize * w then fb (a ! j) (b ! j) else dst ! j)"
      using Suc by auto
    have fit: "wordSize * w + wordSize \<le> length a" "wordSize * w + wordSize \<le> length b" "wordSize * w + wordSize \<le> length ?d"
      using Suc.prems IH(1) by simp_all
    have "store_word ?d w (fw (load_word a w) (load_word b w)) ! j =
        (if j < wordSize * Suc w then fb (a ! j) (b ! j) else dst ! j)" if j: "j < length dst" for j
    proof (cases "j div wordSize = w")
      case True
      then have "j = wordSize * w + j mod wordSize" "j mod wordSize < wordSize" by (auto simp: wordSize_def)
      then show ?thesis using nth_store_word [OF fit(3), of j] stored_byte [OF fit(1,2), of "j mod wordSize"] True j IH(1)
        by auto
    next
      case False
      then have "j < wordSize * Suc w \<longleftrightarrow> j < wordSize * w" by (auto simp: wordSize_def)
      then show ?thesis using nth_store_word [OF fit(3), of j] False j IH by simp
    qed
    then show ?case using IH(1) length_store_word [OF fit(3)] by simp
  qed simp
  then show "length d = length dst"
    and "j < length dst \<Longrightarrow> d ! j = (if j < wordSize * w then fb (a ! j) (b ! j) else dst ! j)" by blast+
qed

lemma nth_safe_loop:
  "length (safe_loop fb n dst a b) = length dst"
  "j < length dst \<Longrightarrow> safe_loop fb n dst a b ! j = (if j < n then fb (a ! j) (b ! j) else dst ! j)"
  by (simp_all add: safe_loop_def update_loop)

lemma fast_safe:
  assumes "n \<le> length a" "n \<le> length b" "n \<le> length dst"
  shows "fast_loops fw fb n dst a b = safe_loop fb n dst a b"
proof -
  have w: "wordSize * (n div wordSize) \<le> n" "n - n mod wordSize = wordSize * (n div wordSize)"
    by (simp_all add: minus_mod_eq_mult_div)
  have fit: "wordSize * (n div wordSize) \<le> length a" "wordSize * (n div wordSize) \<le> length b"
    "wordSize * (n div wordSize) \<le> length dst" using w(1) assms by linarith+
  show ?thesis
    unfolding fast_loops_def Let_def
    by (rule nth_equalityI)
      (auto simp: update_loop nth_safe_loop word_loop [OF fit] w(2) dest: order_less_le_trans [OF _ w(1)])
qed

end

interpretation xor_op: bytewise "(XOR)" "(XOR)" "\<lambda>x y. x \<noteq> y"
  by unfold_locales (simp_all add: bit_xor_iff)

interpretation and_op: bytewise "(AND)" "(AND)" "(\<and>)"
  by unfold_locales (simp_all add: bit_and_iff)

interpretation or_op: bytewise "(OR)" "(OR)" "(\<or>)"
  by unfold_locales (simp_all add: bit_or_iff)

lemma be_val_eq_0: "be_val xs = 0 \<longleftrightarrow> (\<forall>x \<in> set xs. x = 0)"
  by (induction xs) (auto simp: unat_eq_0)

lemma load_word_eq_0:
  "load_word p i = 0 \<longleftrightarrow> (\<forall>x \<in> set (take wordSize (drop (wordSize * i) p)). x = 0)"
proof -
  let ?c = "rev (take wordSize (drop (wordSize * i) p))"
  have "be_val ?c < 256 ^ length ?c" by (rule be_val_less)
  also have "(256 :: nat) ^ length ?c \<le> 256 ^ 8" by (intro power_increasing) (simp_all add: wordSize_def)
  finally have "be_val ?c < 2 ^ 64" by simp
  then have "load_word p i = 0 \<longleftrightarrow> be_val ?c = 0"
    unfolding load_word_def by (simp add: word_unat_eq_iff unat_of_nat)
  then show ?thesis by (simp add: be_val_eq_0)
qed

lemma safeTestBytes_iff: "safeTestBytes p \<longleftrightarrow> (\<exists>x \<in> set p. x \<noteq> 0)"
  by (auto simp: safeTestBytes_def Bex_def in_set_conv_nth)

lemma fastTestBytes_safe: "fastTestBytes p = safeTestBytes p"
proof
  assume "safeTestBytes p"
  then obtain j where j: "j < length p" "p ! j \<noteq> 0" by (auto simp: safeTestBytes_def)
  show "fastTestBytes p"
  proof (cases "j < length p - length p mod wordSize")
    case True
    then have i: "j div wordSize < length p div wordSize"
      by (simp add: minus_mod_eq_mult_div wordSize_def div_less_iff_less_mult)
    define q r where "q = wordSize * (j div wordSize)" and "r = j mod wordSize"
    have jm: "r < wordSize" "j = q + r" by (simp_all add: wordSize_def q_def r_def)
    then have "r < length (take wordSize (drop q p))" "take wordSize (drop q p) ! r = p ! j"
      using j(1) by simp_all
    then have "p ! j \<in> set (take wordSize (drop q p))" by (metis nth_mem)
    then have "load_word p (j div wordSize) \<noteq> 0" using j(2) load_word_eq_0 unfolding q_def by blast
    then show ?thesis using i by (auto simp: fastTestBytes_def Let_def)
  next
    case False
    then show ?thesis using j by (auto simp: fastTestBytes_def Let_def)
  qed
next
  assume "fastTestBytes p"
  then show "safeTestBytes p"
    by (auto simp: fastTestBytes_def Let_def safeTestBytes_iff load_word_eq_0 dest!: in_set_takeD in_set_dropD)
qed

text \<open>
  C18: the variants that work on whole machine words do exactly what the simple loops do: the same
  number of bytes, the same destination and the same test, for operands of any lengths.
\<close>

theorem bitutil_fast_safe:
  "fastXORBytes dst a b = safeXORBytes dst a b \<and> fastANDBytes dst a b = safeANDBytes dst a b \<and>
   fastORBytes dst a b = safeORBytes dst a b \<and> fastTestBytes p = safeTestBytes p"
  using fastTestBytes_safe
  by (auto simp: fastXORBytes_def safeXORBytes_def fastANDBytes_def safeANDBytes_def fastORBytes_def
      safeORBytes_def Let_def xor_op.fast_safe and_op.fast_safe or_op.fast_safe)

section \<open>Compression round trip\<close>

text \<open>Bit \<open>i\<close> of a bit vector, most significant bit of the first byte first.\<close>

definition vbit :: "bytes \<Rightarrow> nat \<Rightarrow> bool" where
  "vbit v i \<longleftrightarrow> bit (v ! (i div 8)) (7 - i mod 8)"

lemma bit_mask_byte: "bit (push_bit m (1 :: byte)) n \<longleftrightarrow> n = m \<and> n < 8"
  by (auto simp: bit_push_bit_iff bit_1_iff simp del: push_bit_of_1)

lemma vbit_test: "v ! (i div 8) AND push_bit (7 - i mod 8) 1 \<noteq> 0 \<longleftrightarrow> vbit v i"
  unfolding vbit_def bit_eq_iff [of _ "0 :: byte"] bit_and_iff bit_mask_byte by auto

lemma vbit_set:
  assumes "i div 8 < length v"
  shows "vbit (v[i div 8 := v ! (i div 8) OR push_bit (7 - i mod 8) 1]) j \<longleftrightarrow> vbit v j \<or> j = i"
proof (cases "j div 8 = i div 8")
  case True
  have "7 - j mod 8 = 7 - i mod 8 \<longleftrightarrow> j mod 8 = i mod 8"
    using mod_less_divisor [of 8 i] mod_less_divisor [of 8 j] by arith
  also have "\<dots> \<longleftrightarrow> j = i" using True by (metis div_mult_mod_eq)
  finally have "bit (push_bit (7 - i mod 8) (1 :: byte)) (7 - j mod 8) \<longleftrightarrow> j = i" unfolding bit_mask_byte by auto
  then show ?thesis using True assms by (simp add: vbit_def bit_or_iff del: push_bit_of_1)
next
  case False
  then show ?thesis using assms by (auto simp: vbit_def)
qed

lemma vbit_eqI:
  assumes "length v = length w" "\<And>i. i < 8 * length v \<Longrightarrow> vbit v i = vbit w i"
  shows "v = w"
proof (rule nth_equalityI [OF assms(1)], rule bit_word_eqI)
  fix j m assume j: "j < length v" and "m < LENGTH(8)"
  then have m: "m < 8" by simp
  define k where "k = 7 - m"
  define i where "i = 8 * j + k"
  have "k < 8" "7 - k = m" using m by (simp_all add: k_def)
  then have "i div 8 = j" "7 - i mod 8 = m" "i < 8 * length v" using j by (simp_all add: i_def)
  then show "bit (v ! j) m = bit (w ! j) m" using assms(2) [of i] m by (simp add: vbit_def)
qed

lemma vbit_zeros: "i < 8 * n \<Longrightarrow> \<not> vbit (replicate n 0) i"
  by (simp add: vbit_def div_less_iff_less_mult mult.commute)

lemma vbit_nonzero: "(\<exists>x \<in> set v. x \<noteq> 0) \<longleftrightarrow> (\<exists>i < 8 * length v. vbit v i)"
proof
  assume x: "\<exists>x \<in> set v. x \<noteq> 0"
  show "\<exists>i < 8 * length v. vbit v i"
  proof (rule ccontr)
    assume "\<not> ?thesis"
    then have "v = replicate (length v) 0" using vbit_zeros by (intro vbit_eqI) auto
    then show False using x by (metis in_set_replicate)
  qed
next
  assume "\<exists>i < 8 * length v. vbit v i"
  then obtain i where i: "i < 8 * length v" "bit (v ! (i div 8)) (7 - i mod 8)" by (auto simp: vbit_def)
  then have "i div 8 < length v" "v ! (i div 8) \<noteq> 0" by auto
  then show "\<exists>x \<in> set v. x \<noteq> 0" using nth_mem by blast
qed

definition nonzero :: "bytes \<Rightarrow> bytes" where
  "nonzero data = filter (\<lambda>b. b \<noteq> 0) data"

lemma encode_step_simps:
  "fst (encode_step data s i) = fst s @ (if data ! i \<noteq> 0 then [data ! i] else [])"
  "snd (encode_step data s i) =
     (if data ! i \<noteq> 0 then (snd s)[i div 8 := snd s ! (i div 8) OR push_bit (7 - i mod 8) 1] else snd s)"
  by (simp_all add: encode_step_def split: prod.splits)

lemma encode_loop_nonzero: "fst (encode_loop data) = nonzero data"
proof -
  have "fst (foldl (encode_step data) s [0..<n]) = fst s @ nonzero (take n data)" if "n \<le> length data" for n s
    using that
  proof (induction n)
    case (Suc n)
    then show ?case by (simp add: encode_step_simps nonzero_def take_Suc_conv_app_nth)
  qed (simp add: nonzero_def)
  from this [of "length data"] show ?thesis by (simp add: encode_loop_def)
qed

lemma encode_loop_vbit: "vbit (snd (encode_loop data)) i \<longleftrightarrow> i < length data \<and> data ! i \<noteq> 0"
  if "i < 8 * ((length data + 7) div 8)"
proof -
  let ?z = "replicate ((length data + 7) div 8) (0 :: byte)"
  have "vbit (snd (foldl (encode_step data) ([], ?z) [0..<n])) i \<longleftrightarrow> i < n \<and> data ! i \<noteq> 0"
    if "n \<le> length data" for n
    using that
  proof (induction n)
    case 0
    then show ?case using vbit_zeros [OF \<open>i < 8 * ((length data + 7) div 8)\<close>] by simp
  next
    case (Suc n)
    have "n div 8 < (length data + 7) div 8" using Suc.prems by simp
    then show ?case using Suc vbit_set [of n "snd (foldl (encode_step data) ([], ?z) [0..<n])" i]
      by (auto simp: encode_step_simps length_encode_steps less_Suc_eq simp del: push_bit_of_1)
  qed
  from this [of "length data"] show ?thesis by (simp add: encode_loop_def)
qed

lemma nonzero_Nil: "nonzero data = [] \<longleftrightarrow> \<not> (\<exists>x \<in> set data. x \<noteq> 0)"
  by (auto simp: nonzero_def filter_empty_conv)

lemma bitsetEncodeBytes_long:
  "2 \<le> length data \<Longrightarrow> bitsetEncodeBytes data =
     (if nonzero data = [] then [] else bitsetEncodeBytes (snd (encode_loop data)) @ nonzero data)"
  by (subst bitsetEncodeBytes.simps)
    (auto simp: encode_loop_nonzero [symmetric] case_prod_unfold Let_def)

lemma bitsetEncodeBytes_zero: "nonzero data = [] \<Longrightarrow> bitsetEncodeBytes data = []"
proof -
  assume z: "nonzero data = []"
  consider "data = []" | "length data = 1" | "2 \<le> length data"
    by (metis One_nat_def Suc_1 length_0_conv less_2_cases not_le)
  then show ?thesis
  proof cases
    case 1
    then show ?thesis by (simp add: bitsetEncodeBytes.simps)
  next
    case 2
    then show ?thesis using z by (cases data) (auto simp: bitsetEncodeBytes.simps nonzero_def split: if_splits)
  next
    case 3
    then show ?thesis using z by (simp add: bitsetEncodeBytes_long)
  qed
qed

lemma decode_step_Inl: "decode_step data bs (Inl e) i = Inl e"
  by (simp add: decode_step_def)

lemma decode_step_Inr:
  "decode_step data bs (Inr (decomp, ptr)) i =
     (if vbit bs i then
        (if ptr \<ge> length data then Inl errMissingData
         else if i \<ge> length decomp then Inl errExceededTarget
         else if data ! ptr = 0 then Inl errZeroContent
         else Inr (decomp[i := data ! ptr], ptr + 1))
      else Inr (decomp, ptr))"
  by (simp only: decode_step_def sum.case prod.case vbit_test)

text \<open>The loop puts the non-zero bytes back into their places.\<close>

lemma decode_loop_fills:
  assumes "\<And>i. i < m \<Longrightarrow> vbit bs i \<longleftrightarrow> i < length out \<and> out ! i \<noteq> 0"
  shows "foldl (decode_step (pre @ nonzero out @ rest) bs) (Inr (replicate (length out) 0, length pre)) [0..<m] =
    Inr (take m out @ replicate (length out - m) 0, length pre + length (nonzero (take m out)))"
  using assms
proof (induction m)
  case (Suc m)
  let ?data = "pre @ nonzero out @ rest"
  have IH: "foldl (decode_step ?data bs) (Inr (replicate (length out) 0, length pre)) [0..<m] =
      Inr (take m out @ replicate (length out - m) 0, length pre + length (nonzero (take m out)))"
    using Suc by simp
  show ?case
  proof (cases "m < length out \<and> out ! m \<noteq> 0")
    case True
    have "nonzero (take m out @ out ! m # drop (Suc m) out) =
        nonzero (take m out) @ out ! m # nonzero (drop (Suc m) out)"
      using True by (simp add: nonzero_def)
    then have "nonzero out = nonzero (take m out) @ out ! m # nonzero (drop (Suc m) out)"
      by (simp only: id_take_nth_drop [OF conjunct1 [OF True], symmetric])
    then have "?data ! (length pre + length (nonzero (take m out))) = out ! m"
      "length pre + length (nonzero (take m out)) < length ?data" by (simp_all add: nth_append)
    moreover have "(take m out @ replicate (length out - m) 0)[m := out ! m] =
        take (Suc m) out @ replicate (length out - Suc m) 0"
    proof -
      obtain k where "length out - m = Suc k" using True by (metis Suc_diff_Suc)
      then show ?thesis using True by (simp add: list_update_append take_Suc_conv_app_nth Suc_diff_Suc [symmetric])
    qed
    ultimately show ?thesis using IH Suc.prems [of m] True
      by (simp add: decode_step_Inr take_Suc_conv_app_nth nonzero_def)
  next
    case False
    have "take m out @ replicate (length out - m) 0 = take (Suc m) out @ replicate (length out - Suc m) 0 \<and>
        nonzero (take (Suc m) out) = nonzero (take m out)"
    proof (cases "m < length out")
      case True
      then obtain k where "length out - m = Suc k" by (metis Suc_diff_Suc)
      then show ?thesis using False True by (simp add: take_Suc_conv_app_nth nonzero_def Suc_diff_Suc [symmetric])
    qed simp
    then show ?thesis using IH Suc.prems [of m] False by (simp add: decode_step_Inr)
  qed
qed (simp add: nonzero_def)

lemma bitset_partial:
  "nonzero data \<noteq> [] \<Longrightarrow> bitsetDecodePartialBytes (bitsetEncodeBytes data @ rest) (length data) =
     Inr (data, length (bitsetEncodeBytes data))"
proof (induction "length data" arbitrary: data rest rule: less_induct)
  case less
  then have "data \<noteq> []" by (auto simp: nonzero_def)
  then consider "length data = 1" | "2 \<le> length data"
    by (metis One_nat_def Suc_1 length_0_conv less_2_cases not_le)
  then show ?case
  proof cases
    case 1
    then obtain x where "data = [x]" by (cases data) auto
    then show ?thesis using less(2)
      by (simp add: bitsetEncodeBytes.simps bitsetDecodePartialBytes.simps nonzero_def split: if_splits)
  next
    case 2
    let ?bs = "snd (encode_loop data)" and ?m = "(length data + 7) div 8"
    have len: "length ?bs = ?m" by (rule length_encode_loop)
    obtain i where i: "i < length data" "data ! i \<noteq> 0"
      using less(2) by (auto simp: nonzero_Nil in_set_conv_nth)
    have "i < 8 * ?m" using i(1) by linarith
    then have "vbit ?bs i" "i < 8 * length ?bs" using encode_loop_vbit [of i data] i len by simp_all
    then have nz: "nonzero ?bs \<noteq> []" using vbit_nonzero [of ?bs] nonzero_Nil by blast
    have e: "bitsetEncodeBytes data = bitsetEncodeBytes ?bs @ nonzero data"
      using 2 less(2) by (simp add: bitsetEncodeBytes_long)
    have IH: "bitsetDecodePartialBytes (bitsetEncodeBytes ?bs @ nonzero data @ rest) ?m =
        Inr (?bs, length (bitsetEncodeBytes ?bs))"
      using less(1) [of ?bs "nonzero data @ rest"] nz len 2 by simp
    have "length data \<le> 8 * ?m" by linarith
    then have loop: "foldl (decode_step (bitsetEncodeBytes ?bs @ nonzero data @ rest) ?bs)
        (Inr (replicate (length data) 0, length (bitsetEncodeBytes ?bs))) [0..<8 * ?m] =
        Inr (data, length (bitsetEncodeBytes ?bs) + length (nonzero data))"
      using decode_loop_fills [of "8 * ?m" ?bs data "bitsetEncodeBytes ?bs" rest] encode_loop_vbit [of _ data] by simp
    show ?thesis unfolding e using IH loop len 2 less(2)
      by (subst bitsetDecodePartialBytes.simps) auto
  qed
qed

lemma nonzero_update:
  "m < length out \<Longrightarrow> (\<forall>i < length out. m \<le> i \<longrightarrow> out ! i = 0) \<Longrightarrow> x \<noteq> 0 \<Longrightarrow>
     nonzero (out[m := x]) = nonzero out @ [x]"
proof -
  assume m: "m < length out" and z: "\<forall>i < length out. m \<le> i \<longrightarrow> out ! i = 0" and x: "x \<noteq> 0"
  have d: "nonzero (drop k out) = []" if "m \<le> k" for k
    using z that by (auto simp: nonzero_def filter_empty_conv in_set_conv_nth)
  have "nonzero (take m out @ drop m out) = nonzero (take m out)"
    using d [of m] unfolding nonzero_def filter_append by simp
  then have "nonzero out = nonzero (take m out)" by simp
  moreover have "nonzero (out[m := x]) = nonzero (take m out) @ [x]"
    using m x d [of "Suc m"] by (simp add: upd_conv_take_nth_drop nonzero_def)
  ultimately show ?thesis by simp
qed

text \<open>Conversely, whatever the loop accepts is what the encoder writes.\<close>

lemma decode_loop_canonical:
  assumes "p \<le> length data"
  shows "foldl (decode_step data bs) (Inr (replicate target 0, p)) [0..<m] = Inr (out, q) \<Longrightarrow>
    length out = target \<and> p \<le> q \<and> q \<le> length data \<and> nonzero out = take (q - p) (drop p data) \<and>
    (\<forall>i < m. vbit bs i \<longleftrightarrow> i < target \<and> out ! i \<noteq> 0) \<and> (\<forall>i < target. m \<le> i \<longrightarrow> out ! i = 0)"
proof (induction m arbitrary: out q)
  case 0
  then show ?case using assms by (auto simp: nonzero_def)
next
  case (Suc m)
  obtain st where st: "foldl (decode_step data bs) (Inr (replicate target 0, p)) [0..<m] = st" by blast
  obtain out' q' where r: "st = Inr (out', q')"
    using Suc.prems st by (cases st) (auto simp: decode_step_Inl)
  then have step: "decode_step data bs (Inr (out', q')) m = Inr (out, q)" using Suc.prems st by simp
  note IH = Suc.IH [OF st [unfolded r]]
  show ?case
  proof (cases "vbit bs m")
    case True
    with step have c: "q' < length data" "m < length out'" "data ! q' \<noteq> 0" "out = out'[m := data ! q']" "q = q' + 1"
      by (auto simp: decode_step_Inr split: if_splits)
    have "nonzero out = nonzero out' @ [data ! q']" using nonzero_update [of m out'] c IH by simp
    moreover have "take (q - p) (drop p data) = take (q' - p) (drop p data) @ [data ! q']"
    proof -
      obtain k where "q' = p + k" using IH le_Suc_ex by blast
      then show ?thesis using c by (simp add: take_Suc_conv_app_nth)
    qed
    ultimately show ?thesis using IH c True by (auto simp: less_Suc_eq nth_list_update)
  next
    case False
    with step have "out = out'" "q = q'" by (simp_all add: decode_step_Inr)
    then show ?thesis using IH False by (auto simp: less_Suc_eq)
  qed
qed

lemma bitset_partial_canonical:
  "bitsetDecodePartialBytes data target = Inr (out, sz) \<Longrightarrow>
     length out = target \<and> sz \<le> length data \<and> bitsetEncodeBytes out = take sz data"
proof (induction target arbitrary: out sz rule: less_induct)
  case (less target)
  consider "target = 0" | "target > 0" "data = []" | "target = 1" "data \<noteq> []" | "2 \<le> target" "data \<noteq> []"
    by (metis One_nat_def Suc_1 less_2_cases not_gr_zero not_le)
  then show ?case
  proof cases
    case 1
    then show ?thesis using less(2) by (simp add: bitsetDecodePartialBytes.simps bitsetEncodeBytes.simps)
  next
    case 2
    then show ?thesis using less(2)
      by (auto simp: bitsetDecodePartialBytes.simps [of "[]"] bitsetEncodeBytes_zero nonzero_def)
  next
    case 3
    then show ?thesis using less(2)
      by (cases data) (auto simp: bitsetDecodePartialBytes.simps bitsetEncodeBytes.simps split: if_splits)
  next
    case 4
    from less(2) 4 obtain bs ptr where bs: "bitsetDecodePartialBytes data ((target + 7) div 8) = Inr (bs, ptr)"
      and loop: "foldl (decode_step data bs) (Inr (replicate target 0, ptr)) [0..<8 * length bs] = Inr (out, sz)"
      by (subst (asm) bitsetDecodePartialBytes.simps) (auto split: sum.splits prod.splits)
    have IH: "length bs = (target + 7) div 8" "ptr \<le> length data" "bitsetEncodeBytes bs = take ptr data"
      using less(1) [OF _ bs] 4 by simp_all
    note c = decode_loop_canonical [OF IH(2) loop]
    let ?m = "(target + 7) div 8"
    have m: "target \<le> 8 * ?m" by linarith
    have bits: "vbit (snd (encode_loop out)) i \<longleftrightarrow> vbit bs i" if "i < 8 * ?m" for i
      using c that encode_loop_vbit [of i out] IH(1) by simp
    then have e: "snd (encode_loop out) = bs"
      using c IH(1) by (intro vbit_eqI) (simp_all add: length_encode_loop)
    show ?thesis
    proof (cases "nonzero out = []")
      case True
      then have "\<not> vbit bs i" if "i < 8 * length bs" for i
        using c that True unfolding nonzero_Nil by (metis nth_mem)
      then have "nonzero bs = []" using vbit_nonzero [of bs] nonzero_Nil by blast
      then have "ptr = 0" using IH(2,3) bitsetEncodeBytes_zero [of bs] by auto
      moreover have "sz - ptr = 0" using True c by auto
      ultimately show ?thesis using True c by (auto simp: bitsetEncodeBytes_zero)
    next
      case False
      then have "bitsetEncodeBytes out = take ptr data @ take (sz - ptr) (drop ptr data)"
        using 4 c e IH(3) by (simp add: bitsetEncodeBytes_long)
      also have "\<dots> = take sz data" using c by (metis le_add_diff_inverse take_add)
      finally show ?thesis using c by blast
    qed
  qed
qed

lemma bitset_decode_encode: "bitsetDecodeBytes (bitsetEncodeBytes data) (length data) = Inr data"
proof (cases "nonzero data = []")
  case True
  then have "data = replicate (length data) 0" unfolding nonzero_Nil by (metis replicate_eqI)
  then have "bitsetDecodePartialBytes [] (length data) = Inr (data, 0)"
    by (subst bitsetDecodePartialBytes.simps) auto
  then show ?thesis using True by (simp add: bitsetDecodeBytes_def bitsetEncodeBytes_zero)
next
  case False
  then show ?thesis using bitset_partial [of data "[]"] by (simp add: bitsetDecodeBytes_def)
qed

lemma bitset_decode_canonical:
  "bitsetDecodeBytes cmp target = Inr out \<Longrightarrow> length out = target \<and> bitsetEncodeBytes out = cmp"
proof -
  assume "bitsetDecodeBytes cmp target = Inr out"
  then have "bitsetDecodePartialBytes cmp target = Inr (out, length cmp)"
    by (auto simp: bitsetDecodeBytes_def split: sum.splits prod.splits if_splits)
  from bitset_partial_canonical [OF this] show ?thesis by simp
qed

text \<open>
  C17: the sparse bitset compression is a bijection between the byte strings of a given length and
  the inputs its decoder accepts.  Compressing and decompressing gives the data back, compression
  never makes it longer, and the strict decoder accepts an input for a target size exactly when the
  input is what the encoder writes for some data of that size.
\<close>

theorem bitset_compression:
  "DecompressBytes (CompressBytes data) (length data) = Inr data \<and>
   length (CompressBytes data) \<le> length data \<and>
   (bitsetDecodeBytes cmp target = Inr out \<longleftrightarrow> length out = target \<and> bitsetEncodeBytes out = cmp)"
proof (intro conjI iffI)
  show "DecompressBytes (CompressBytes data) (length data) = Inr data"
    using bitset_decode_encode [of data] by (simp add: DecompressBytes_def CompressBytes_def Let_def)
  show "length (CompressBytes data) \<le> length data" by (simp add: CompressBytes_def Let_def)
next
  assume "bitsetDecodeBytes cmp target = Inr out"
  then show "length out = target" "bitsetEncodeBytes out = cmp" using bitset_decode_canonical by blast+
next
  assume "length out = target \<and> bitsetEncodeBytes out = cmp"
  then show "bitsetDecodeBytes cmp target = Inr out" using bitset_decode_encode [of out] by auto
qed

text \<open>No input makes the fuzz target panic.\<close>

lemma Fuzz_total: "Fuzz data \<noteq> None"
proof -
  have "fuzzEncode xs \<noteq> None" for xs by (simp add: fuzzEncode_def bitset_decode_encode)
  moreover have "fuzzDecode xs \<noteq> None" for xs
    by (auto simp: fuzzDecode_def bitset_decode_canonical split: sum.splits)
  ultimately show ?thesis by (simp add: Fuzz_def)
qed

end
