(* ===== verification/Spec2Isabelle.thy ===== *)
theory Spec2Isabelle
  imports Rlp_Roundtrip Rlp_Raw Bn_Api Abi_Roundtrip Bloom Bitutil
begin

text \<open>
  A verification development for the Go SDK \<^verbatim>\<open>go-fiscobcos\<close> (sources under \<^verbatim>\<open>src/\<close>).

  \<^bold>\<open>The program and its parts.\<close> The SDK builds, signs and sends transactions for a FISCO BCOS
  chain. Contract calls are encoded by \<^verbatim>\<open>accounts/abi\<close>, transactions and other records by
  \<^verbatim>\<open>rlp\<close>; \<^verbatim>\<open>common\<close>, \<^verbatim>\<open>common/hexutil\<close> and \<^verbatim>\<open>common/math\<close> hold the byte, hex and number
  helpers that both use; \<^verbatim>\<open>crypto\<close> and \<^verbatim>\<open>crypto/secp256k1\<close> make keys and signatures, which
  \<^verbatim>\<open>core/types\<close> puts into transactions; \<^verbatim>\<open>crypto/bn256/google\<close> is a pairing-friendly curve. The
  remaining packages talk to nodes, disks and users.

  \<^bold>\<open>Conventions.\<close> Bytes are \<^typ>\<open>byte\<close>, byte slices and Go strings are byte lists, 64-bit
  integers are \<^typ>\<open>u64\<close> and wrap, \<^verbatim>\<open>big.Int\<close> is \<^typ>\<open>int\<close>. An error is a value of a datatype of
  the component, a panic is \<^term>\<open>None\<close> or the constructor \<open>Panic\<close>. A method that changes its
  receiver takes the old value and returns the new one. Code of other modules (Keccak, the
  signature library) is an argument of the definitions that call it.

  \<^bold>\<open>Theories.\<close>
  \<^item> \<^verbatim>\<open>Prelude\<close>: words, big-endian numbers and shared facts.
  \<^item> \<^verbatim>\<open>Rlp_Types\<close>, \<^verbatim>\<open>Rlp_Encode\<close>, \<^verbatim>\<open>Rlp_Stream\<close>, \<^verbatim>\<open>Rlp_Decode\<close>, \<^verbatim>\<open>Rlp_Raw\<close> model \<^verbatim>\<open>rlp/typecache.go\<close>,
    \<^verbatim>\<open>encode.go\<close>, \<^verbatim>\<open>decode.go\<close> and \<^verbatim>\<open>raw.go\<close>: the encode buffer with its list headers, the stream
    with its stack of open lists and 64-bit sizes, and the writer and decoder of every type.
    \<^verbatim>\<open>Rlp_Spec\<close> has the encoding of items as a specification. \<^verbatim>\<open>Rlp_Encode_Correct\<close> shows that the
    encoder refines it; \<^verbatim>\<open>Rlp_Position\<close>, \<^verbatim>\<open>Rlp_Values\<close>, \<^verbatim>\<open>Rlp_Sound\<close>, \<^verbatim>\<open>Rlp_Canonical\<close>,
    \<^verbatim>\<open>Rlp_Safe\<close>, \<^verbatim>\<open>Rlp_Complete\<close> and \<^verbatim>\<open>Rlp_Roundtrip\<close> that decoding accepts exactly canonical
    encodings, never panics, returns, and undoes encoding. The locales for writers and decoders
    (\<open>io_writer\<close>, \<open>sound_decoder\<close>, \<open>total_decoder\<close>, \<open>safe_decoder\<close>, \<open>complete_decoder\<close>) are the
    contracts of the per-type functions.
  \<^item> \<^verbatim>\<open>Bn_Field\<close>, \<^verbatim>\<open>Bn_Gfp\<close>, \<^verbatim>\<open>Bn_Jacobian\<close>, \<^verbatim>\<open>Bn_Curve\<close>, \<^verbatim>\<open>Bn_Twist\<close>, \<^verbatim>\<open>Bn_Pairing\<close>, \<^verbatim>\<open>Bn_Api\<close>
    model \<^verbatim>\<open>crypto/bn256/google\<close> on unreduced integers, as the code computes. Abstraction
    functions map the field tower to rings built on the integers modulo \<open>P\<close>; the optimised
    arithmetic, the group operations, the line functions and the encodings are proved against
    them. The locale \<open>jacobian\<close> carries the group law for both curves, \<open>msb_first\<close> the
    exponentiation loops.
  \<^item> \<^verbatim>\<open>Hexutil\<close>, \<^verbatim>\<open>Common_Math\<close>, \<^verbatim>\<open>Common_Types\<close> model \<^verbatim>\<open>common/hexutil\<close>, \<^verbatim>\<open>common/math\<close>,
    \<^verbatim>\<open>common/bytes.go\<close> and \<^verbatim>\<open>common/types.go\<close>: exact sets of accepted strings, round trips,
    overflow reports and the checksummed form of addresses. The locales \<open>text_codec\<close> and
    \<open>json_codec\<close> carry the JSON methods from the text methods.
  \<^item> \<^verbatim>\<open>Abi_Pack\<close>, \<^verbatim>\<open>Abi_Spec\<close>, \<^verbatim>\<open>Abi_Unpack\<close>, \<^verbatim>\<open>Abi_Roundtrip\<close> model \<^verbatim>\<open>accounts/abi\<close>: types, checks,
    packing against the head and tail encoding of the ABI specification, type soundness and
    panic freedom of unpacking, and the round trip.
  \<^item> \<^verbatim>\<open>Secp_Curve\<close>, \<^verbatim>\<open>Crypto\<close> model \<^verbatim>\<open>crypto/secp256k1/curve.go\<close>, \<^verbatim>\<open>secp256.go\<close>, \<^verbatim>\<open>crypto/crypto.go\<close> and
    \<^verbatim>\<open>signature_cgo.go\<close>: the group law of the curve in Jacobian coordinates, keys with their byte,
    hex and file forms, and signatures. The C library is a record of functions, Keccak a function;
    what the proofs need of them is the named hypothesis \<open>ecdsa_contract\<close>.
  \<^item> \<^verbatim>\<open>Transaction\<close> models \<^verbatim>\<open>core/types/transaction.go\<close> and \<^verbatim>\<open>transaction_signing.go\<close> on top of the RLP
    and signature theories: signing and recovering the sender, and the round trip through RLP.
    \<^verbatim>\<open>Bloom\<close> models \<^verbatim>\<open>core/types/bloom9.go\<close> and shows that the filters have no false negatives.
  \<^item> \<^verbatim>\<open>Bitutil\<close> models \<^verbatim>\<open>common/bitutil\<close>: the operations by machine word agree with those by byte
    (locale \<open>bytewise\<close>), and the sparse compression is a bijection.

  \<^bold>\<open>Fuel and bounds.\<close> The loop over the elements of a list in \<^verbatim>\<open>Rlp_Decode\<close> runs on fuel, one unit
  for each element; \<^verbatim>\<open>Rlp_Canonical\<close> proves that fuel of the length of the input is enough, and
  that one type makes the loop run forever. Everything else is total. Lengths of slices are
  natural numbers; where the code compares them with 64-bit sizes, the sizes are words. Data
  of \<^verbatim>\<open>accounts/abi\<close> is shorter than \<open>2\<^sup>6\<^sup>3\<close> bytes in the round trip, as slices are in Go.

  \<^bold>\<open>Not modelled.\<close> Networking, JSON-RPC, TLS, logging, the key store, the account manager, the
  external signer and event feeds, which are goroutines, channels and I/O; code generation and
  build scripts, which produce text; \<^verbatim>\<open>crypto/ecies\<close>, the hash functions and the C library behind
  \<^verbatim>\<open>crypto/secp256k1\<close>, which are code of other modules; \<^verbatim>\<open>crypto/bn256/cloudflare\<close>, whose core is
  assembly. Inside modelled packages: buffer pools, the cache of types, \<^verbatim>\<open>String\<close> methods for
  printing, and assigning unpacked ABI values to variables of the caller through reflection.
\<close>

end
